(* ===== verification/LF_Prelude.thy ===== *)
theory LF_Prelude
  imports Main "HOL-Library.Multiset"
begin

section \<open>Shared automation and generic lemmas\<close>

text \<open>
  The collections and the generic facts the component theories share.
  \<^item> \<open>obs_simps\<close>: how an operation changes the metrics and the log.
  \<^item> \<open>frame_simps\<close>: fields an operation leaves alone.
  \<^item> \<open>go_defs\<close>: definitions of small library functions, unfolded when a closed term is
    evaluated.
  Grouping (\<open>grp_add\<close>, \<open>grp_all\<close>) models the idiom
  \<^verbatim>\<open>grouped[k] = append(grouped[k], v)\<close> over a Go map; counting (\<open>bump\<close>, \<open>bump_all\<close>)
  models \<^verbatim>\<open>m[k]++\<close>. A Go map is iterated in an unspecified order, so code that ranges over
  a map takes the iteration order as an argument, and \<open>reorders\<close> says that it is a
  permutation of the entries.
\<close>

named_theorems obs_simps \<open>effect of an operation on metrics and log\<close>
named_theorems frame_simps \<open>fields that an operation does not change\<close>
named_theorems go_defs \<open>small library functions, unfolded for evaluation\<close>

subsection \<open>Association lists as Go maps\<close>

fun alookup :: "('k \<times> 'v) list \<Rightarrow> 'k \<Rightarrow> 'v option" where
  "alookup [] k = None"
| "alookup ((k', v) # m) k = (if k' = k then Some v else alookup m k)"

fun aset :: "'k \<Rightarrow> 'v \<Rightarrow> ('k \<times> 'v) list \<Rightarrow> ('k \<times> 'v) list" where
  "aset k v [] = [(k, v)]"
| "aset k v ((k', v') # m) = (if k' = k then (k, v) # m else (k', v') # aset k v m)"

fun grp_add :: "'k \<Rightarrow> 'v \<Rightarrow> ('k \<times> 'v list) list \<Rightarrow> ('k \<times> 'v list) list" where
  "grp_add k v [] = [(k, [v])]"
| "grp_add k v ((k', vs) # m) = (if k' = k then (k', vs @ [v]) # m else (k', vs) # grp_add k v m)"

fun grp_all :: "('v \<Rightarrow> 'k) \<Rightarrow> 'v list \<Rightarrow> ('k \<times> 'v list) list \<Rightarrow> ('k \<times> 'v list) list" where
  "grp_all f [] m = m"
| "grp_all f (v # vs) m = grp_all f vs (grp_add (f v) v m)"

fun bump :: "'k \<Rightarrow> ('k \<times> nat) list \<Rightarrow> ('k \<times> nat) list" where
  "bump k [] = [(k, 1)]"
| "bump k ((k', n) # m) = (if k' = k then (k', Suc n) # m else (k', n) # bump k m)"

fun bump_all :: "'k list \<Rightarrow> ('k \<times> nat) list \<Rightarrow> ('k \<times> nat) list" where
  "bump_all [] m = m"
| "bump_all (k # ks) m = bump_all ks (bump k m)"

definition acount :: "('k \<times> nat) list \<Rightarrow> 'k \<Rightarrow> nat" where
  "acount m k = (case alookup m k of None \<Rightarrow> 0 | Some n \<Rightarrow> n)"

definition agroup :: "('k \<times> 'v list) list \<Rightarrow> 'k \<Rightarrow> 'v list" where
  "agroup m k = (case alookup m k of None \<Rightarrow> [] | Some vs \<Rightarrow> vs)"

definition reorders :: "('a list \<Rightarrow> 'a list) \<Rightarrow> bool" where
  "reorders f \<longleftrightarrow> (\<forall>xs. mset (f xs) = mset xs)"

subsection \<open>Lemmas on association lists\<close>

lemma alookup_None_iff: "alookup m k = None \<longleftrightarrow> k \<notin> fst ` set m"
  by (induction m k rule: alookup.induct) auto

lemma alookup_SomeD: "alookup m k = Some v \<Longrightarrow> (k, v) \<in> set m"
  by (induction m k rule: alookup.induct) (auto split: if_splits)

lemma alookup_distinct: "distinct (map fst m) \<Longrightarrow> (k, v) \<in> set m \<Longrightarrow> alookup m k = Some v"
  by (induction m k rule: alookup.induct) (auto simp: image_iff)

lemma alookup_aset [simp]: "alookup (aset k v m) k' = (if k = k' then Some v else alookup m k')"
  by (induction k v m rule: aset.induct) auto

lemma acount_Nil [simp]: "acount [] k = 0"
  by (simp add: acount_def)

lemma acount_bump [simp]: "acount (bump k m) k' = acount m k' + (if k = k' then 1 else 0)"
  by (induction k m rule: bump.induct) (auto simp: acount_def)

lemma acount_bump_all [simp]: "acount (bump_all ks m) k = acount m k + count_list ks k"
  by (induction ks m rule: bump_all.induct) auto

lemma bump_all_append: "bump_all (xs @ ys) m = bump_all ys (bump_all xs m)"
  by (induction xs m rule: bump_all.induct) auto

lemma keys_bump [simp]: "fst ` set (bump k m) = insert k (fst ` set m)"
  by (induction k m rule: bump.induct) auto

lemma keys_bump_all: "fst ` set (bump_all ks m) = set ks \<union> fst ` set m"
  by (induction ks m rule: bump_all.induct) auto

lemma distinct_bump: "distinct (map fst m) \<Longrightarrow> distinct (map fst (bump k m))"
proof (induction k m rule: bump.induct)
  case (2 k k' n m)
  then show ?case by (auto simp flip: set_map) (metis insertE keys_bump list.set_map)
qed simp

lemma distinct_bump_all: "distinct (map fst m) \<Longrightarrow> distinct (map fst (bump_all ks m))"
  by (induction ks m rule: bump_all.induct) (auto intro: distinct_bump)

lemma agroup_Nil [simp]: "agroup [] k = []"
  by (simp add: agroup_def)

lemma agroup_grp_add [simp]: "agroup (grp_add k v m) k' = agroup m k' @ (if k = k' then [v] else [])"
  by (induction k v m rule: grp_add.induct) (auto simp: agroup_def)

lemma agroup_grp_all [simp]: "agroup (grp_all f vs m) k = agroup m k @ filter (\<lambda>v. f v = k) vs"
  by (induction f vs m rule: grp_all.induct) auto

lemma keys_grp_add [simp]: "fst ` set (grp_add k v m) = insert k (fst ` set m)"
  by (induction k v m rule: grp_add.induct) auto

lemma keys_grp_all: "fst ` set (grp_all f vs m) = f ` set vs \<union> fst ` set m"
  by (induction f vs m rule: grp_all.induct) auto

lemma distinct_grp_add: "distinct (map fst m) \<Longrightarrow> distinct (map fst (grp_add k v m))"
proof (induction k v m rule: grp_add.induct)
  case (2 k v k' vs m)
  then show ?case by (auto simp flip: set_map) (metis insertE keys_grp_add list.set_map)
qed simp

lemma distinct_grp_all: "distinct (map fst m) \<Longrightarrow> distinct (map fst (grp_all f vs m))"
  by (induction f vs m rule: grp_all.induct) (auto intro: distinct_grp_add)

lemma grp_all_entry:
  assumes "(k, vs) \<in> set (grp_all f xs [])"
  shows "vs = filter (\<lambda>v. f v = k) xs"
proof -
  have "alookup (grp_all f xs []) k = Some vs"
    using assms by (intro alookup_distinct distinct_grp_all) auto
  then have "agroup (grp_all f xs []) k = vs" by (simp add: agroup_def)
  then show ?thesis by simp
qed

lemma mset_concat_grp_add:
  "mset (concat (map snd (grp_add k v m))) = add_mset v (mset (concat (map snd m)))"
  by (induction k v m rule: grp_add.induct) auto

lemma mset_concat_grp_all:
  "mset (concat (map snd (grp_all f vs m))) = mset vs + mset (concat (map snd m))"
  by (induction f vs m rule: grp_all.induct) (auto simp: mset_concat_grp_add)

lemma reordersD:
  assumes "reorders f"
  shows "mset (f xs) = mset xs" "set (f xs) = set xs" "length (f xs) = length xs"
    "distinct (f xs) = distinct xs"
proof -
  show m: "mset (f xs) = mset xs" using assms by (simp add: reorders_def)
  show "set (f xs) = set xs" using m by (rule mset_eq_setD)
  show "length (f xs) = length xs" using m by (rule mset_eq_length)
  show "distinct (f xs) = distinct xs" using m by (rule mset_eq_imp_distinct_iff)
qed

lemma reorders_keys:
  assumes "reorders f"
  shows "distinct (map fst (f m)) = distinct (map fst m)"
proof -
  have "mset (map fst (f m)) = mset (map fst m)"
    using reordersD(1)[OF assms, of m] by simp
  then show ?thesis by (rule mset_eq_imp_distinct_iff)
qed

lemma alookup_mset:
  assumes "distinct (map fst m)" "mset m' = mset m"
  shows "alookup m' k = alookup m k"
proof -
  have s: "set m' = set m" using assms(2) by (rule mset_eq_setD)
  have "mset (map fst m') = mset (map fst m)" using assms(2) by simp
  then have d: "distinct (map fst m')" using assms(1) mset_eq_imp_distinct_iff by blast
  show ?thesis
  proof (cases "alookup m k")
    case None
    then show ?thesis using s alookup_None_iff by metis
  next
    case (Some v)
    then show ?thesis using s d by (metis alookup_SomeD alookup_distinct)
  qed
qed

lemma agroup_reorders: "reorders f \<Longrightarrow> distinct (map fst m) \<Longrightarrow> agroup (f m) k = agroup m k"
  using alookup_mset[of m "f m" k] reordersD(1)[of f m] by (simp add: agroup_def)

lemma agroup_Cons: "agroup ((k', vs) # m) k = (if k' = k then vs else agroup m k)"
  by (simp add: agroup_def)

lemma agroup_notin: "k \<notin> fst ` set m \<Longrightarrow> agroup m k = []"
  using alookup_None_iff[of m k] by (simp add: agroup_def)

lemma reorders_id [simp]: "reorders (\<lambda>xs. xs)"
  by (simp add: reorders_def)

lemma reorders_rev [simp]: "reorders rev"
  by (simp add: reorders_def)

lemma mset_concat_eq: "mset xs = mset ys \<Longrightarrow> mset (concat (map f xs)) = mset (concat (map f ys))"
  by (metis mset_concat mset_map sum_mset_sum_list)

subsection \<open>Multisets\<close>

lemma sum_mset_mono:
  "finite K \<Longrightarrow> (\<And>p. p \<in> K \<Longrightarrow> f p \<subseteq># g p) \<Longrightarrow> sum f K \<subseteq># sum g K"
  by (induction K rule: finite_induct) (auto intro: mset_subset_eq_mono_add)

lemma sum_mset_filter:
  "finite K \<Longrightarrow> f ` set rs \<subseteq> K \<Longrightarrow> (\<Sum>p\<in>K. mset (filter (\<lambda>r. f r = p) rs)) = mset rs"
proof (induction rs)
  case (Cons r rs)
  have "(\<Sum>p\<in>K. mset (filter (\<lambda>r. f r = p) (r # rs))) =
      (\<Sum>p\<in>K. (if p = f r then {#r#} else {#}) + mset (filter (\<lambda>r. f r = p) rs))"
    by (rule sum.cong) auto
  also have "\<dots> = {#r#} + mset rs"
    using Cons by (simp only: sum.distrib) (simp add: sum.delta)
  finally show ?case by simp
qed simp

subsection \<open>Lists\<close>

lemma takeWhile_dropWhile_length: "length (dropWhile P xs) \<le> length xs"
  by (simp add: length_dropWhile_le)

lemma hd_dropWhile_not: "dropWhile P xs = y # ys \<Longrightarrow> \<not> P y"
  by (metis hd_dropWhile list.distinct(1) list.sel(1))

end
