(* ===== verification/Go_Errors.thy ===== *)
theory Go_Errors
  imports LF_Prelude
begin

section \<open>Go errors\<close>

text \<open>
  The error values of the program. The sentinel errors of the packages are constructors of
  their own, as the code compares them by identity (\<^verbatim>\<open>errors.Is\<close>); \<open>ErrMsg\<close> is an error made on
  the spot (\<^verbatim>\<open>errors.New\<close>, \<^verbatim>\<open>fmt.Errorf\<close> without \<^verbatim>\<open>%w\<close>); \<open>ErrWrap\<close> is
  \<^verbatim>\<open>fmt.Errorf("pre%wpost", err)\<close>. An operation that can fail returns \<open>goerr option\<close> when it
  returns only \<^verbatim>\<open>error\<close> and \<open>'a result\<close> when it returns \<^verbatim>\<open>(T, error)\<close>.
  \<open>NetErr timeout msg\<close> is an error of the network stack, \<open>OsErr notExist msg\<close> one of the
  operating system, as far as the code asks about them. \<open>JsonErr s\<close> is the error of decoding the
  JSON text \<open>s\<close>, \<open>TimeErr s\<close> that of \<^verbatim>\<open>time.Parse\<close>; their wording is not modelled (no code looks at it).
\<close>

datatype goerr =
    ErrMsg string
  | ErrWrap string goerr string
  | ContextCanceled
  | DeadlineExceeded
  | ErrProducerStopped
  | ErrProducerNotStarted
  | ErrQueueFull
  | ErrProducerCircuitOpen
  | ErrIngestionStopped
  | ErrProducerNotConfigured
  | ErrLogStoreNotConfigured
  | ErrUnsupportedContentType
  | ErrObjectNotFound
  | MaxBytesError
  | ErrTooLong
  | ErrServerClosed
  | NetErr bool string
  | OsErr bool string
  | JsonErr string
  | TimeErr string

type_synonym 'a result = "goerr + 'a"

abbreviation wrap :: "string \<Rightarrow> goerr \<Rightarrow> goerr" where
  "wrap pre e \<equiv> ErrWrap pre e []"

fun err_unwrap :: "goerr \<Rightarrow> goerr option" where
  "err_unwrap (ErrWrap _ e _) = Some e"
| "err_unwrap _ = None"

fun err_root :: "goerr \<Rightarrow> goerr" where
  "err_root (ErrWrap _ e _) = err_root e"
| "err_root e = e"

definition err_is :: "goerr \<Rightarrow> goerr \<Rightarrow> bool" where
  "err_is e target \<longleftrightarrow> err_root e = target"

fun err_text :: "goerr \<Rightarrow> string" where
  "err_text (ErrMsg m) = m"
| "err_text (ErrWrap pre e post) = pre @ err_text e @ post"
| "err_text ContextCanceled = ''context canceled''"
| "err_text DeadlineExceeded = ''context deadline exceeded''"
| "err_text ErrProducerStopped = ''producer stopped''"
| "err_text ErrProducerNotStarted = ''producer not started''"
| "err_text ErrQueueFull = ''producer queue full''"
| "err_text ErrProducerCircuitOpen = ''producer circuit open''"
| "err_text ErrIngestionStopped = ''ingestion service stopped''"
| "err_text ErrProducerNotConfigured = ''producer not configured''"
| "err_text ErrLogStoreNotConfigured = ''log store not configured''"
| "err_text ErrUnsupportedContentType = ''unsupported content-type''"
| "err_text ErrObjectNotFound = ''object not found''"
| "err_text MaxBytesError = ''http: request body too large''"
| "err_text ErrTooLong = ''bufio.Scanner: token too long''"
| "err_text ErrServerClosed = ''http: Server closed''"
| "err_text (NetErr _ m) = m"
| "err_text (OsErr _ m) = m"
| "err_text (JsonErr _) = ''json''"
| "err_text (TimeErr _) = ''parsing time''"

text \<open>\<^verbatim>\<open>%q\<close> of \<^verbatim>\<open>fmt\<close> in error texts, for text without characters that it escapes.\<close>

definition qstr :: "string \<Rightarrow> string" where
  "qstr s = CHR 0x22 # s @ [CHR 0x22]"

text \<open>
  A context is what its polls answer: \<open>ctx k\<close> is what the \<open>k\<close>-th call of
  \<^verbatim>\<open>ctx.Err()\<close> made by the operation returns. \<open>ctx_ok\<close> is \<^verbatim>\<open>context.Background()\<close>: it is
  never done. \<open>ctx_mono\<close> is the documented behaviour that a done context stays done.
\<close>

type_synonym ctx = "nat \<Rightarrow> goerr option"

definition ctx_ok :: ctx where
  "ctx_ok = (\<lambda>_. None)"

definition ctx_mono :: "ctx \<Rightarrow> bool" where
  "ctx_mono c \<longleftrightarrow> (\<forall>i j. i \<le> j \<longrightarrow> c i \<noteq> None \<longrightarrow> c j \<noteq> None)"

lemma err_is_wrap [simp]: "err_is (ErrWrap pre e post) t = err_is e t"
  by (simp add: err_is_def)

lemma ctx_ok_apply [simp]: "ctx_ok k = None"
  by (simp add: ctx_ok_def)

end
