(* ===== verification/Go_Strings.thy ===== *)
theory Go_Strings
  imports LF_Prelude
begin

section \<open>The string and path functions the program uses\<close>

text \<open>
  A Go string is a sequence of bytes, and HOL's \<open>char\<close> is a byte, so a string is a \<open>char list\<close>
  and \<open>length\<close> is \<^verbatim>\<open>len\<close>. Modelled here, as the code uses them, from package
  \<^verbatim>\<open>strings\<close> (\<open>TrimSpace\<close>, \<open>Trim\<close>, \<open>TrimPrefix\<close>, \<open>TrimSuffix\<close>, \<open>HasSuffix\<close>,
  \<open>Contains\<close>, \<open>Split\<close>, \<open>ToLower\<close>, \<open>EqualFold\<close>), \<^verbatim>\<open>unicode/utf8\<close> (\<open>decode_rune\<close>)
  and \<^verbatim>\<open>path\<close>/\<^verbatim>\<open>path/filepath\<close> on Unix (\<open>Clean\<close>, \<open>Join\<close>, \<open>Dir\<close>,
  \<open>Base\<close>, \<open>Rel\<close>).

  \<open>TrimSpace\<close> removes the Unicode white space of \<^verbatim>\<open>unicode.IsSpace\<close>; as UTF-8 is
  self-synchronising, the first (last) rune is a space exactly when the string starts (ends) with
  the encoding of one, and \<open>lead_space\<close> (\<open>trail_space\<close>, on the reversed string) gives the
  length of that encoding. \<open>ToLower\<close> maps the ASCII letters and the two other runes whose lower
  case is ASCII (U+0130, U+212A); the code only compares its result with ASCII literals or searches
  ASCII text in it, so further case pairs cannot change an outcome.
\<close>

subsection \<open>Bytes and runes\<close>

definition bv :: "char \<Rightarrow> nat" where
  "bv c = of_char c"

definition bc :: "nat \<Rightarrow> char" where
  "bc n = char_of n"

definition is_cont :: "char \<Rightarrow> bool" where
  "is_cont c \<longleftrightarrow> 128 \<le> bv c \<and> bv c \<le> 191"

definition rune_error :: nat where
  "rune_error = 65533"

fun decode_rune :: "string \<Rightarrow> nat \<times> nat" where
  "decode_rune [] = (rune_error, 0)"
| "decode_rune (a # s) =
     (if bv a < 128 then (bv a, 1)
      else if 194 \<le> bv a \<and> bv a \<le> 223 then
        (case s of b # _ \<Rightarrow> if is_cont b then ((bv a - 192) * 64 + (bv b - 128), 2) else (rune_error, 1)
                 | _ \<Rightarrow> (rune_error, 1))
      else if 224 \<le> bv a \<and> bv a \<le> 239 then
        (case s of b # c # _ \<Rightarrow>
             if is_cont b \<and> is_cont c \<and> (bv a = 224 \<longrightarrow> 160 \<le> bv b) \<and> (bv a = 237 \<longrightarrow> bv b \<le> 159)
             then ((bv a - 224) * 4096 + (bv b - 128) * 64 + (bv c - 128), 3) else (rune_error, 1)
           | _ \<Rightarrow> (rune_error, 1))
      else if 240 \<le> bv a \<and> bv a \<le> 244 then
        (case s of b # c # d # _ \<Rightarrow>
             if is_cont b \<and> is_cont c \<and> is_cont d \<and> (bv a = 240 \<longrightarrow> 144 \<le> bv b) \<and> (bv a = 244 \<longrightarrow> bv b \<le> 143)
             then ((bv a - 240) * 262144 + (bv b - 128) * 4096 + (bv c - 128) * 64 + (bv d - 128), 4)
             else (rune_error, 1)
           | _ \<Rightarrow> (rune_error, 1))
      else (rune_error, 1))"

definition encode_rune :: "nat \<Rightarrow> string" where
  "encode_rune r =
     (if r < 128 then [bc r]
      else if r < 2048 then [bc (192 + r div 64), bc (128 + r mod 64)]
      else if r < 65536 then [bc (224 + r div 4096), bc (128 + r div 64 mod 64), bc (128 + r mod 64)]
      else [bc (240 + r div 262144), bc (128 + r div 4096 mod 64), bc (128 + r div 64 mod 64),
            bc (128 + r mod 64)])"

lemma decode_rune_size: "s \<noteq> [] \<Longrightarrow> 1 \<le> snd (decode_rune s) \<and> snd (decode_rune s) \<le> length s"
  by (cases s) (auto split: list.splits)

lemma decode_rune_drop: "s \<noteq> [] \<Longrightarrow> length s - snd (decode_rune s) < length s"
  using decode_rune_size[of s] by (cases s) auto

text \<open>The runes of a string, as \<^verbatim>\<open>for _, r := range s\<close> visits them: each chunk is the encoding of a
  rune or a single byte that is not part of one.\<close>

function chunks :: "string \<Rightarrow> string list" where
  "chunks s = (if s = [] then [] else take (snd (decode_rune s)) s # chunks (drop (snd (decode_rune s)) s))"
  by pat_completeness auto
termination
  by (relation "measure length") (auto dest: decode_rune_drop)

declare chunks.simps [simp del]

subsection \<open>Trimming\<close>

definition ascii_space :: "char \<Rightarrow> bool" where
  "ascii_space c \<longleftrightarrow> bv c = 32 \<or> (9 \<le> bv c \<and> bv c \<le> 13)"

fun lead_space :: "string \<Rightarrow> nat" where
  "lead_space [] = 0"
| "lead_space (a # s) =
     (if ascii_space a then 1
      else case s of
        [] \<Rightarrow> 0
      | [b] \<Rightarrow> if bv a = 194 \<and> (bv b = 133 \<or> bv b = 160) then 2 else 0
      | b # c # _ \<Rightarrow>
          if bv a = 194 \<and> (bv b = 133 \<or> bv b = 160) then 2
          else if (bv a = 225 \<and> bv b = 154 \<and> bv c = 128)
            \<or> (bv a = 226 \<and> bv b = 128 \<and> (128 \<le> bv c \<and> bv c \<le> 138 \<or> bv c = 168 \<or> bv c = 169 \<or> bv c = 175))
            \<or> (bv a = 226 \<and> bv b = 129 \<and> bv c = 159)
            \<or> (bv a = 227 \<and> bv b = 128 \<and> bv c = 128) then 3
          else 0)"

fun trail_space :: "string \<Rightarrow> nat" where
  "trail_space [] = 0"
| "trail_space (z # s) =
     (if ascii_space z then 1
      else case s of
        [] \<Rightarrow> 0
      | [y] \<Rightarrow> if lead_space [y, z] = 2 then 2 else 0
      | y # x # _ \<Rightarrow> if lead_space [y, z] = 2 then 2 else if lead_space [x, y, z] = 3 then 3 else 0)"

lemma lead_space_drop: "0 < lead_space s \<Longrightarrow> length s - lead_space s < length s"
  by (cases s) auto

lemma trail_space_drop: "0 < trail_space s \<Longrightarrow> length s - trail_space s < length s"
  by (cases s) auto

function trim_left :: "string \<Rightarrow> string" where
  "trim_left s = (if lead_space s = 0 then s else trim_left (drop (lead_space s) s))"
  by pat_completeness auto
termination
  by (relation "measure length") (auto dest: lead_space_drop)

function trim_rev :: "string \<Rightarrow> string" where
  "trim_rev s = (if trail_space s = 0 then s else trim_rev (drop (trail_space s) s))"
  by pat_completeness auto
termination
  by (relation "measure length") (auto dest: trail_space_drop)

declare trim_left.simps [simp del] trim_rev.simps [simp del]

definition trim_right :: "string \<Rightarrow> string" where
  "trim_right s = rev (trim_rev (rev s))"

definition TrimSpace :: "string \<Rightarrow> string" where
  "TrimSpace s = trim_right (trim_left s)"

definition Trim :: "string \<Rightarrow> string \<Rightarrow> string" where
  "Trim s cutset = rev (dropWhile (\<lambda>c. c \<in> set cutset) (rev (dropWhile (\<lambda>c. c \<in> set cutset) s)))"

definition HasPrefix :: "string \<Rightarrow> string \<Rightarrow> bool" where
  "HasPrefix s p \<longleftrightarrow> take (length p) s = p"

definition HasSuffix :: "string \<Rightarrow> string \<Rightarrow> bool" where
  "HasSuffix s p \<longleftrightarrow> length p \<le> length s \<and> drop (length s - length p) s = p"

definition TrimPrefix :: "string \<Rightarrow> string \<Rightarrow> string" where
  "TrimPrefix s p = (if HasPrefix s p then drop (length p) s else s)"

definition TrimSuffix :: "string \<Rightarrow> string \<Rightarrow> string" where
  "TrimSuffix s p = (if HasSuffix s p then take (length s - length p) s else s)"

fun Contains :: "string \<Rightarrow> string \<Rightarrow> bool" where
  "Contains [] sub = (sub = [])"
| "Contains (c # s) sub = (HasPrefix (c # s) sub \<or> Contains s sub)"

subsection \<open>Splitting, case\<close>

fun split_on :: "char \<Rightarrow> string \<Rightarrow> string list" where
  "split_on sep [] = [[]]"
| "split_on sep (c # s) =
     (if c = sep then [] # split_on sep s
      else case split_on sep s of [] \<Rightarrow> [[c]] | w # ws \<Rightarrow> (c # w) # ws)"

fun join_with :: "char \<Rightarrow> string list \<Rightarrow> string" where
  "join_with sep [] = []"
| "join_with sep [w] = w"
| "join_with sep (w # v # ws) = w @ sep # join_with sep (v # ws)"

definition lower_byte :: "char \<Rightarrow> char" where
  "lower_byte c = (if 65 \<le> bv c \<and> bv c \<le> 90 then bc (bv c + 32) else c)"

fun ToLower :: "string \<Rightarrow> string" where
  "ToLower [] = []"
| "ToLower [a] = [lower_byte a]"
| "ToLower [a, b] =
     (if bv a = 196 \<and> bv b = 176 then [CHR ''i''] else [lower_byte a, lower_byte b])"
| "ToLower (a # b # c # s) =
     (if bv a = 196 \<and> bv b = 176 then CHR ''i'' # ToLower (c # s)
      else if bv a = 226 \<and> bv b = 132 \<and> bv c = 170 then CHR ''k'' # ToLower s
      else lower_byte a # ToLower (b # c # s))"

text \<open>\<open>EqualFold s t\<close> for a lower-case ASCII literal \<open>t\<close>: the only runes outside ASCII that
  fold to an ASCII letter are U+017F (to s) and U+212A (to k).\<close>

fun EqualFold :: "string \<Rightarrow> string \<Rightarrow> bool" where
  "EqualFold [] t = (t = [])"
| "EqualFold s [] = False"
| "EqualFold (a # s) (c # t) =
     (if lower_byte a = c then EqualFold s t
      else case s of
        b # s' \<Rightarrow>
          if c = CHR ''s'' \<and> bv a = 197 \<and> bv b = 191 then EqualFold s' t
          else (case s' of
            d # s'' \<Rightarrow> c = CHR ''k'' \<and> bv a = 226 \<and> bv b = 132 \<and> bv d = 170 \<and> EqualFold s'' t
          | [] \<Rightarrow> False)
      | [] \<Rightarrow> False)"

subsection \<open>Decimal numbers\<close>

definition digit :: "nat \<Rightarrow> char" where
  "digit n = bc (48 + n)"

definition is_digit :: "char \<Rightarrow> bool" where
  "is_digit c \<longleftrightarrow> 48 \<le> bv c \<and> bv c \<le> 57"

definition dval :: "char \<Rightarrow> nat" where
  "dval c = bv c - 48"

fun show_nat :: "nat \<Rightarrow> string" where
  "show_nat n = (if n < 10 then [digit n] else show_nat (n div 10) @ [digit (n mod 10)])"

declare show_nat.simps [simp del]

definition show_int :: "int \<Rightarrow> string" where
  "show_int i = (if i < 0 then CHR ''-'' # show_nat (nat (- i)) else show_nat (nat i))"

definition pad_left :: "nat \<Rightarrow> string \<Rightarrow> string" where
  "pad_left w s = replicate (w - length s) (CHR ''0'') @ s"

fun read_nat :: "nat \<Rightarrow> string \<Rightarrow> nat" where
  "read_nat acc [] = acc"
| "read_nat acc (c # s) = read_nat (10 * acc + dval c) s"

subsection \<open>Paths\<close>

abbreviation slash :: char where
  "slash \<equiv> CHR ''/''"

fun clean_comps :: "bool \<Rightarrow> string list \<Rightarrow> string list \<Rightarrow> string list" where
  "clean_comps rooted acc [] = rev acc"
| "clean_comps rooted acc (c # cs) =
     (if c = [] \<or> c = ''.'' then clean_comps rooted acc cs
      else if c = ''..'' then
        (case acc of
           [] \<Rightarrow> if rooted then clean_comps rooted [] cs else clean_comps rooted [''..''] cs
         | a # acc' \<Rightarrow> if a = ''..'' then clean_comps rooted (c # acc) cs
                      else clean_comps rooted acc' cs)
      else clean_comps rooted (c # acc) cs)"

definition is_rooted :: "string \<Rightarrow> bool" where
  "is_rooted p \<longleftrightarrow> HasPrefix p ''/''"

definition comps :: "string \<Rightarrow> string list" where
  "comps p = clean_comps (is_rooted p) [] (split_on slash p)"

definition path_of :: "bool \<Rightarrow> string list \<Rightarrow> string" where
  "path_of rooted cs =
     (if rooted then slash # join_with slash cs
      else if cs = [] then ''.'' else join_with slash cs)"

definition Clean :: "string \<Rightarrow> string" where
  "Clean p = path_of (is_rooted p) (comps p)"

definition Join :: "string list \<Rightarrow> string" where
  "Join es = (case dropWhile (\<lambda>e. e = []) es of [] \<Rightarrow> [] | es' \<Rightarrow> Clean (join_with slash es'))"

definition Base :: "string \<Rightarrow> string" where
  "Base p =
     (if p = [] then ''.''
      else case rev (dropWhile (\<lambda>c. c = slash) (rev p)) of
        [] \<Rightarrow> ''/''
      | q \<Rightarrow> last (split_on slash q))"

definition Dir :: "string \<Rightarrow> string" where
  "Dir p = Clean (rev (dropWhile (\<lambda>c. c \<noteq> slash) (rev p)))"

fun strip_common :: "string list \<Rightarrow> string list \<Rightarrow> string list \<times> string list" where
  "strip_common (b # bs) (t # ts) = (if b = t then strip_common bs ts else (b # bs, t # ts))"
| "strip_common bs ts = (bs, ts)"

definition targ_comps :: "string \<Rightarrow> string list" where
  "targ_comps t = (if Clean t = ''.'' then [''.''] else comps t)"

definition Rel :: "string \<Rightarrow> string \<Rightarrow> string option" where
  "Rel base targ =
     (if Clean base = Clean targ then Some ''.''
      else if is_rooted (Clean base) \<noteq> is_rooted (Clean targ) then None
      else case strip_common (comps base) (targ_comps targ) of
        ([], ts) \<Rightarrow> Some (join_with slash ts)
      | (b # bs, ts) \<Rightarrow> if b = ''..'' then None
                        else Some (join_with slash (replicate (length (b # bs)) ''..'' @ ts)))"

subsection \<open>Facts about trimming\<close>

lemma lead_space_trim_left [simp]: "lead_space (trim_left s) = 0"
  by (induction s rule: trim_left.induct) (subst trim_left.simps, simp)

lemma trail_space_trim_rev [simp]: "trail_space (trim_rev s) = 0"
  by (induction s rule: trim_rev.induct) (subst trim_rev.simps, simp)

lemma trim_left_id: "lead_space s = 0 \<Longrightarrow> trim_left s = s"
  by (simp add: trim_left.simps)

lemma trim_rev_id: "trail_space s = 0 \<Longrightarrow> trim_rev s = s"
  by (simp add: trim_rev.simps)

lemma trim_rev_suffix: "\<exists>k. trim_rev s = drop k s"
proof (induction s rule: trim_rev.induct)
  case (1 s)
  show ?case
  proof (cases "trail_space s = 0")
    case True
    then show ?thesis by (metis drop0 trim_rev_id)
  next
    case False
    with "1.IH" show ?thesis by (subst trim_rev.simps) (auto simp: drop_drop)
  qed
qed

lemma lead_space_take_mono: "lead_space s = 0 \<Longrightarrow> lead_space (take n s) = 0"
proof (cases s)
  case (Cons a t)
  assume z: "lead_space s = 0"
  show ?thesis
  proof (cases n)
    case (Suc m)
    consider "m = 0" | "m = 1" | k where "m = Suc (Suc k)"
      by (metis One_nat_def not0_implies_Suc)
    then show ?thesis
      using z Suc Cons by cases (auto split: list.splits if_splits)
  qed simp
qed simp

lemma trim_right_take: "\<exists>k. trim_right s = take k s"
proof -
  obtain k where "trim_rev (rev s) = drop k (rev s)" using trim_rev_suffix by blast
  then have "trim_right s = take (length s - k) s"
    by (simp add: trim_right_def drop_rev)
  then show ?thesis by blast
qed

lemma TrimSpace_idem [simp]: "TrimSpace (TrimSpace s) = TrimSpace s"
proof -
  obtain k where k: "TrimSpace s = take k (trim_left s)"
    using trim_right_take by (metis TrimSpace_def)
  have "lead_space (TrimSpace s) = 0" by (simp add: k lead_space_take_mono)
  then have "trim_left (TrimSpace s) = TrimSpace s" by (rule trim_left_id)
  moreover have "trim_right (TrimSpace s) = TrimSpace s"
    by (simp add: TrimSpace_def trim_right_def trim_rev_id)
  ultimately show ?thesis by (simp add: TrimSpace_def[of "TrimSpace s"])
qed

lemma TrimSpace_length: "length (TrimSpace s) \<le> length s"
proof -
  have "length (trim_left s) \<le> length s"
    by (induction s rule: trim_left.induct) (subst trim_left.simps, auto intro: le_trans)
  moreover obtain k where "TrimSpace s = take k (trim_left s)"
    using trim_right_take by (metis TrimSpace_def)
  ultimately show ?thesis by auto
qed

lemma TrimSpace_Nil [simp]: "TrimSpace [] = []"
  by (simp add: TrimSpace_def trim_right_def trim_left.simps trim_rev.simps)

subsection \<open>Facts about suffixes, splitting and joining\<close>

lemma HasSuffix_append [simp]: "HasSuffix (s @ p) p"
  by (simp add: HasSuffix_def)

lemma TrimSuffix_append [simp]: "TrimSuffix (s @ p) p = s"
  by (simp add: TrimSuffix_def)

lemma HasSuffixD: "HasSuffix s p \<Longrightarrow> \<exists>t. s = t @ p"
  by (metis HasSuffix_def append_take_drop_id)

lemma split_on_not_Nil [simp]: "split_on sep s \<noteq> []"
  by (induction s) (auto split: list.splits)

lemma split_on_no_sep: "sep \<notin> set w \<Longrightarrow> split_on sep w = [w]"
  by (induction w) auto

lemma split_on_append_sep:
  "split_on sep (w @ sep # s) = split_on sep w @ split_on sep s"
  by (induction w) (auto split: list.splits)

lemma split_on_join:
  "ws \<noteq> [] \<Longrightarrow> \<forall>w \<in> set ws. sep \<notin> set w \<Longrightarrow> split_on sep (join_with sep ws) = ws"
  by (induction sep ws rule: join_with.induct) (auto simp: split_on_append_sep split_on_no_sep)

lemma join_with_split_on [simp]: "join_with sep (split_on sep s) = s"
proof (induction s)
  case (Cons c s)
  then obtain w ws where ws: "split_on sep s = w # ws"
    by (meson neq_Nil_conv split_on_not_Nil)
  with Cons show ?case by (cases ws) auto
qed simp

lemma split_on_words: "w \<in> set (split_on sep s) \<Longrightarrow> sep \<notin> set w"
  by (induction s arbitrary: w) (auto split: list.splits if_splits)

lemma join_with_append:
  "xs \<noteq> [] \<Longrightarrow> ys \<noteq> [] \<Longrightarrow> join_with sep (xs @ ys) = join_with sep xs @ sep # join_with sep ys"
  by (induction sep xs rule: join_with.induct) (auto simp: neq_Nil_conv)

subsection \<open>Facts about decimal numbers\<close>

lemma bv_bc: "n < 256 \<Longrightarrow> bv (bc n) = n"
  by (simp add: bv_def bc_def)

lemma bc_bv [simp]: "bc (bv c) = c"
  by (simp add: bv_def bc_def)

lemma bv_less [simp]: "bv c < 256"
  by (simp add: bv_def)

lemma bv_inject [simp]: "bv c = bv d \<longleftrightarrow> c = d"
  by (metis bc_bv)

lemma dval_digit [simp]: "n < 10 \<Longrightarrow> dval (digit n) = n"
  by (simp add: dval_def digit_def bv_bc)

lemma is_digit_digit [simp]: "n < 10 \<Longrightarrow> is_digit (digit n)"
  by (simp add: is_digit_def digit_def bv_bc)

lemma dval_less: "is_digit c \<Longrightarrow> dval c < 10"
  by (auto simp: is_digit_def dval_def)

lemma digits_show_nat: "c \<in> set (show_nat n) \<Longrightarrow> is_digit c"
proof (induction n rule: show_nat.induct)
  case (1 n)
  then show ?case by (subst (asm) show_nat.simps) (auto split: if_splits)
qed

lemma read_nat_append: "read_nat acc (s @ t) = read_nat (read_nat acc s) t"
  by (induction acc s rule: read_nat.induct) auto

lemma read_nat_show [simp]: "read_nat 0 (show_nat n) = n"
proof (induction n rule: show_nat.induct)
  case (1 n)
  then show ?case by (subst show_nat.simps) (auto simp: read_nat_append)
qed

lemma read_nat_zeros [simp]: "read_nat 0 (replicate k (CHR ''0'')) = 0"
  by (induction k) (auto simp: dval_def bv_def)

lemma read_nat_pad [simp]: "read_nat 0 (pad_left w (show_nat n)) = n"
  by (simp add: pad_left_def read_nat_append)

lemma digits_pad: "c \<in> set (pad_left w (show_nat n)) \<Longrightarrow> is_digit c"
  by (auto simp: pad_left_def is_digit_def bv_def dest: digits_show_nat[unfolded is_digit_def bv_def]
      split: if_splits)

lemma read_nat_bound: "\<forall>c \<in> set s. is_digit c \<Longrightarrow> read_nat a s < (a + 1) * 10 ^ length s"
proof (induction s arbitrary: a)
  case (Cons c s)
  have "read_nat a (c # s) = read_nat (10 * a + dval c) s" by simp
  also have "\<dots> < (10 * a + dval c + 1) * 10 ^ length s" using Cons by simp
  also have "\<dots> \<le> ((a + 1) * 10) * 10 ^ length s" using dval_less[of c] Cons.prems by (intro mult_right_mono) auto
  finally show ?case by (simp add: algebra_simps)
qed simp

lemma show_nat_not_Nil [simp]: "show_nat n \<noteq> []"
  by (subst show_nat.simps) auto

lemma length_show_nat: "n < 10 ^ k \<Longrightarrow> 0 < k \<Longrightarrow> length (show_nat n) \<le> k"
proof (induction n arbitrary: k rule: show_nat.induct)
  case (1 n)
  show ?case
  proof (cases "n < 10")
    case True
    with "1.prems" show ?thesis by (subst show_nat.simps) simp
  next
    case False
    then obtain j where j: "k = Suc j" "0 < j"
      using "1.prems" by (cases k; cases "k = 1") auto
    then have "n div 10 < 10 ^ j" using "1.prems" by (simp add: less_mult_imp_div_less)
    then have "length (show_nat (n div 10)) \<le> j" using "1.IH" False j by blast
    with False j show ?thesis by (subst show_nat.simps) simp
  qed
qed

lemma length_pad [simp]: "n < 10 ^ k \<Longrightarrow> 0 < k \<Longrightarrow> length (pad_left k (show_nat n)) = k"
  using length_show_nat[of n k] by (simp add: pad_left_def)

lemma show_nat_inject [simp]: "show_nat m = show_nat n \<longleftrightarrow> m = n"
  by (metis read_nat_show)

lemma digit_not_slash: "is_digit c \<Longrightarrow> c \<noteq> slash"
  by (auto simp: is_digit_def bv_def)

subsection \<open>Facts about paths\<close>

definition plain_comp :: "string \<Rightarrow> bool" where
  "plain_comp c \<longleftrightarrow> c \<noteq> [] \<and> c \<noteq> ''.'' \<and> c \<noteq> ''..'' \<and> slash \<notin> set c"

definition clean_list :: "bool \<Rightarrow> string list \<Rightarrow> bool" where
  "clean_list r cs \<longleftrightarrow>
     (\<exists>n rest. cs = replicate n ''..'' @ rest \<and> (r \<longrightarrow> n = 0) \<and> (\<forall>c \<in> set rest. plain_comp c))"

lemma clean_list_Nil [simp]: "clean_list r []"
  by (auto simp: clean_list_def)

lemma clean_list_snoc: "clean_list r cs \<Longrightarrow> plain_comp c \<Longrightarrow> clean_list r (cs @ [c])"
proof -
  assume "clean_list r cs" "plain_comp c"
  then obtain n rest where "cs = replicate n ''..'' @ rest" "r \<longrightarrow> n = 0" "\<forall>c \<in> set rest. plain_comp c"
    by (auto simp: clean_list_def)
  with \<open>plain_comp c\<close> show ?thesis
    unfolding clean_list_def by (intro exI[of _ n] exI[of _ "rest @ [c]"]) auto
qed

lemma clean_list_butlast: "clean_list r cs \<Longrightarrow> clean_list r (butlast cs)"
proof -
  assume "clean_list r cs"
  then obtain n rest where c: "cs = replicate n ''..'' @ rest" "r \<longrightarrow> n = 0" "\<forall>c \<in> set rest. plain_comp c"
    by (auto simp: clean_list_def)
  show ?thesis
  proof (cases "rest = []")
    case True
    have "butlast (replicate n ''..'') = replicate (n - 1) ''..'' @ []"
      by (metis append_Nil2 butlast_conv_take length_replicate min_diff take_replicate min.absorb4
          min.cobounded2 diff_le_self min.absorb1)
    with True c show ?thesis unfolding clean_list_def by (metis append_Nil2 diff_0_eq_0 empty_iff list.set(1))
  next
    case False
    then have "butlast cs = replicate n ''..'' @ butlast rest" using c by (simp add: butlast_append)
    with c show ?thesis unfolding clean_list_def by (metis in_set_butlastD)
  qed
qed

lemma clean_list_dots: "clean_list False cs \<Longrightarrow> cs = [] \<or> last cs = ''..'' \<Longrightarrow> clean_list False (cs @ [''..''])"
proof -
  assume "clean_list False cs" and l: "cs = [] \<or> last cs = ''..''"
  then obtain n rest where c: "cs = replicate n ''..'' @ rest" "\<forall>c \<in> set rest. plain_comp c"
    by (auto simp: clean_list_def)
  have "rest = []" using c l by (cases rest rule: rev_cases) (auto simp: plain_comp_def)
  then have "cs @ [''..''] = replicate (Suc n) ''..'' @ []"
    using c by (simp add: replicate_append_same)
  then show ?thesis unfolding clean_list_def by (metis empty_iff list.set(1))
qed

lemma clean_list_rooted_last: "clean_list True cs \<Longrightarrow> cs \<noteq> [] \<Longrightarrow> last cs \<noteq> ''..''"
  by (auto simp: clean_list_def plain_comp_def)

lemma clean_comps_clean:
  "clean_list r (rev acc) \<Longrightarrow> \<forall>c \<in> set cs. slash \<notin> set c \<Longrightarrow> clean_list r (clean_comps r acc cs)"
proof (induction r acc cs rule: clean_comps.induct)
  case (2 r acc c cs)
  have 1: "clean_list r (rev acc @ [c])" if "c \<noteq> []" "c \<noteq> ''.''" "c \<noteq> ''..''"
    using 2 that by (auto intro!: clean_list_snoc simp: plain_comp_def)
  have 2: "clean_list r (rev acc')" if "acc = a # acc'" for a acc'
    using "2.prems"(1) clean_list_butlast[of r "rev acc"] that by simp
  have 3: "clean_list r (rev acc @ [''..''])" if "acc = ''..'' # acc'" for acc'
  proof -
    have "\<not> r" using "2.prems"(1) clean_list_rooted_last[of "rev acc"] that by (cases r) auto
    then show ?thesis using "2.prems"(1) clean_list_dots[of "rev acc"] that by simp
  qed
  show ?case
    using "2.IH" "2.prems" 1 2 3 clean_list_dots[of "[]"] by (auto split: list.splits)
qed auto

lemma clean_comps_id_aux:
  "\<forall>c \<in> set cs. plain_comp c \<Longrightarrow> clean_comps r acc (cs @ ds) = clean_comps r (rev cs @ acc) ds"
  by (induction cs arbitrary: acc) (auto simp: plain_comp_def)

lemma clean_comps_dots:
  "clean_comps False (replicate k ''..'') (replicate n ''..'' @ ds) = clean_comps False (replicate (k + n) ''..'') ds"
proof (induction n arbitrary: k)
  case (Suc n)
  have "clean_comps False (replicate k ''..'') (replicate (Suc n) ''..'' @ ds) =
      clean_comps False (replicate (Suc k) ''..'') (replicate n ''..'' @ ds)"
    by (cases k) auto
  then show ?case using Suc[of "Suc k"] by simp
qed simp

lemma clean_comps_id: "clean_list r cs \<Longrightarrow> clean_comps r [] cs = cs"
proof -
  assume "clean_list r cs"
  then obtain n rest where c: "cs = replicate n ''..'' @ rest" "r \<longrightarrow> n = 0" "\<forall>c \<in> set rest. plain_comp c"
    by (auto simp: clean_list_def)
  show ?thesis
  proof (cases r)
    case True
    then show ?thesis using c clean_comps_id_aux[of rest r "[]" "[]"] by simp
  next
    case False
    then show ?thesis
      using c clean_comps_dots[of 0 n rest] clean_comps_id_aux[of rest False "replicate n ''..''" "[]"]
      by simp
  qed
qed

lemma comps_clean: "clean_list (is_rooted p) (comps p)"
  unfolding comps_def by (rule clean_comps_clean) (auto dest: split_on_words)

lemma clean_list_no_slash:
  assumes "clean_list r cs" "c \<in> set cs"
  shows "slash \<notin> set c \<and> c \<noteq> []"
proof -
  obtain n rest where cs: "cs = replicate n ''..'' @ rest" and r: "\<forall>c \<in> set rest. plain_comp c"
    using assms(1) unfolding clean_list_def by blast
  have "c = ''..'' \<or> c \<in> set rest" using assms(2) unfolding cs by auto
  with r show ?thesis unfolding plain_comp_def by (elim disjE) (simp, blast)
qed

lemma is_rooted_path_of: "clean_list r cs \<Longrightarrow> is_rooted (path_of r cs) = r"
proof (cases "r \<or> cs = []")
  case False
  assume cl: "clean_list r cs"
  from False obtain c cs' where cs: "cs = c # cs'" by (cases cs) auto
  then obtain x c' where "c = x # c'" "x \<noteq> slash"
    using clean_list_no_slash[OF cl, of c] by (cases c) auto
  then show ?thesis using False cs by (cases cs') (auto simp: path_of_def is_rooted_def HasPrefix_def)
qed (auto simp: path_of_def is_rooted_def HasPrefix_def)

lemma comps_path_of: "clean_list r cs \<Longrightarrow> comps (path_of r cs) = cs"
proof -
  assume cl: "clean_list r cs"
  have sj: "cs \<noteq> [] \<Longrightarrow> split_on slash (join_with slash cs) = cs"
    using clean_list_no_slash[OF cl] by (intro split_on_join) auto
  have id: "clean_comps r [] cs = cs" by (rule clean_comps_id[OF cl])
  show ?thesis
    using is_rooted_path_of[OF cl] sj id by (cases "cs = []") (auto simp: comps_def path_of_def)
qed

lemma comps_join:
  assumes "\<forall>c \<in> set cs. plain_comp c" "cs \<noteq> []" "base \<noteq> []"
  shows "is_rooted (base @ slash # join_with slash cs) = is_rooted base"
    "comps (base @ slash # join_with slash cs) = comps base @ cs"
proof -
  show r: "is_rooted (base @ slash # join_with slash cs) = is_rooted base"
    using assms(3) by (cases base) (auto simp: is_rooted_def HasPrefix_def)
  have "split_on slash (base @ slash # join_with slash cs) = split_on slash base @ cs"
    using assms by (subst split_on_append_sep, subst split_on_join) (auto simp: plain_comp_def)
  moreover have "clean_comps q acc (xs @ ys) = clean_comps q (rev (clean_comps q acc xs)) ys" for q acc xs ys
    by (induction q acc xs rule: clean_comps.induct) (auto split: list.splits)
  moreover have "clean_comps q acc cs = rev acc @ cs" for q acc
    using clean_comps_id_aux[OF assms(1), of q acc "[]"] by simp
  ultimately show "comps (base @ slash # join_with slash cs) = comps base @ cs"
    by (simp add: comps_def r)
qed

lemma clean_list_append: "clean_list r cs \<Longrightarrow> \<forall>d \<in> set ds. plain_comp d \<Longrightarrow> clean_list r (cs @ ds)"
proof (induction ds rule: rev_induct)
  case (snoc d ds)
  then show ?case using clean_list_snoc[of r "cs @ ds" d] by simp
qed simp

lemma Join_plain:
  assumes "\<forall>c \<in> set cs. plain_comp c" "cs \<noteq> []"
  shows "Join (base # cs) = path_of (is_rooted base) (comps base @ cs)"
proof (cases "base = []")
  case True
  have "dropWhile (\<lambda>e. e = []) cs = cs"
    using assms by (cases cs) (auto simp: plain_comp_def)
  then have "Join (base # cs) = Clean (join_with slash cs)"
    using True assms(2) by (auto simp: Join_def split: list.split)
  moreover have "join_with slash cs = path_of False cs" using assms(2) by (simp add: path_of_def)
  moreover have "clean_list False cs" using clean_list_append[of False "[]" cs] assms(1) by simp
  ultimately have "Join (base # cs) = path_of False cs"
    by (simp add: Clean_def comps_path_of is_rooted_path_of)
  then show ?thesis using True by (simp add: is_rooted_def HasPrefix_def comps_def)
next
  case False
  have "join_with slash (base # cs) = base @ slash # join_with slash cs"
    using assms(2) by (cases cs) auto
  then show ?thesis
    using False comps_join[OF assms False] by (simp add: Join_def Clean_def)
qed

lemma strip_common_prefix: "strip_common bs (bs @ ts) = ([], ts)"
  by (induction bs) (cases ts; auto)+

lemma Rel_Join:
  assumes "\<forall>c \<in> set cs. plain_comp c" "cs \<noteq> []"
  shows "Rel base (Join (base # cs)) = Some (join_with slash cs)"
proof -
  let ?r = "is_rooted base" and ?p = "Join (base # cs)"
  have cb: "clean_list ?r (comps base)" by (rule comps_clean)
  have cp: "clean_list ?r (comps base @ cs)" using cb assms(1) by (rule clean_list_append)
  have p: "?p = path_of ?r (comps base @ cs)" by (rule Join_plain[OF assms])
  have rp: "is_rooted ?p = ?r" "comps ?p = comps base @ cs"
    using is_rooted_path_of[OF cp] comps_path_of[OF cp] by (simp_all add: p)
  have Cp: "Clean ?p = ?p" unfolding Clean_def rp by (rule p[symmetric])
  have rb: "is_rooted (Clean base) = ?r" "comps (Clean base) = comps base"
    using is_rooted_path_of[OF cb] comps_path_of[OF cb] by (simp_all add: Clean_def)
  have "Clean base \<noteq> Clean ?p" using rb(2) rp(2) Cp assms(2) by (metis append_self_conv)
  moreover have "Clean ?p \<noteq> ''.''"
    using rp(2) Cp assms(2) by (auto simp: comps_def is_rooted_def HasPrefix_def)
  ultimately show ?thesis
    using rb(1) rp Cp strip_common_prefix[of "comps base" cs] by (simp add: Rel_def targ_comps_def)
qed

lemma Dir_Base_two:
  assumes "plain_comp d" "plain_comp h"
  shows "Dir (d @ slash # h) = d" "Base (d @ slash # h) = h"
proof -
  have "dropWhile (\<lambda>c. c \<noteq> slash) (rev h @ slash # rev d) = slash # rev d"
    using assms by (subst dropWhile_append2) (auto simp: plain_comp_def)
  then have "Dir (d @ slash # h) = Clean (d @ [slash])" by (simp add: Dir_def)
  also have "\<dots> = d"
  proof -
    have "split_on slash (d @ [slash]) = [d, []]"
      using assms by (subst split_on_append_sep) (auto simp: split_on_no_sep plain_comp_def)
    moreover have "\<not> is_rooted (d @ [slash])"
      using assms by (cases d) (auto simp: is_rooted_def HasPrefix_def plain_comp_def)
    ultimately show ?thesis
      using assms by (simp add: Clean_def comps_def path_of_def plain_comp_def)
  qed
  finally show "Dir (d @ slash # h) = d" .
  obtain x h' where hx: "rev h = x # h'" "x \<noteq> slash"
    using assms by (cases "rev h") (auto simp: plain_comp_def)
  then have "rev (dropWhile (\<lambda>c. c = slash) (rev (d @ slash # h))) = d @ slash # h"
    by (simp add: rev_swap)
  then show "Base (d @ slash # h) = h"
    using assms by (cases d) (auto simp: Base_def split_on_append_sep split_on_no_sep plain_comp_def)
qed

subsection \<open>Facts about runes\<close>

definition wf_chunk :: "string \<Rightarrow> bool" where
  "wf_chunk ch \<longleftrightarrow> length ch = 1 \<or> (1 < length ch \<and> snd (decode_rune ch) = length ch)"

lemma decode_rune_append: "snd (decode_rune ch) = length ch \<Longrightarrow> 1 < length ch \<Longrightarrow> decode_rune (ch @ s) = decode_rune ch"
  by (cases ch) (auto split: list.splits if_splits)

lemma decode_rune_take: "1 < snd (decode_rune s) \<Longrightarrow> decode_rune (take (snd (decode_rune s)) s) = decode_rune s"
  by (cases s) (auto split: list.splits if_splits)

lemma concat_chunks: "concat (chunks s) = s"
proof (induction s rule: chunks.induct)
  case (1 s)
  then show ?case by (subst chunks.simps) simp
qed

lemma chunks_wf: "ch \<in> set (chunks s) \<Longrightarrow> wf_chunk ch"
proof (induction s rule: chunks.induct)
  case (1 s)
  show ?case
  proof (cases "s = []")
    case True
    with "1.prems" show ?thesis by (simp add: chunks.simps)
  next
    case False
    let ?n = "snd (decode_rune s)"
    have n: "1 \<le> ?n" "?n \<le> length s" using decode_rune_size[OF False] by auto
    have "wf_chunk (take ?n s)"
      using n decode_rune_take[of s] by (cases "?n = 1") (auto simp: wf_chunk_def)
    with "1.prems" "1.IH"[OF False] False show ?thesis
      by (subst (asm) chunks.simps) auto
  qed
qed

lemma chunk_cases:
  assumes "wf_chunk ch"
  obtains (ascii) c where "ch = [c]" "bv c < 128"
    | (bad) c where "ch = [c]" "128 \<le> bv c"
    | (multi) c d ch' where "ch = c # d # ch'" "128 \<le> bv c" "snd (decode_rune ch) = length ch"
proof -
  from assms consider "length ch = 1" | "1 < length ch" "snd (decode_rune ch) = length ch"
    by (auto simp: wf_chunk_def)
  then show ?thesis
  proof cases
    case 1
    then obtain c where "ch = [c]" by (auto simp: length_Suc_conv)
    then show ?thesis using ascii bad by (cases "bv c < 128") auto
  next
    case 2
    then obtain c d ch' where ch: "ch = c # d # ch'" by (cases ch; cases "tl ch") auto
    with 2 have "128 \<le> bv c" by (cases "bv c < 128") auto
    then show ?thesis using multi 2 ch by blast
  qed
qed

declare decode_rune.simps(2) [simp del] lead_space.simps(2) [simp del] trail_space.simps(2) [simp del]

subsection \<open>Code equations\<close>

text \<open>Equations that let the simplifier evaluate closed terms without unary arithmetic.\<close>

lemma ascii_digit7: "bv c < 128 \<longleftrightarrow> \<not> digit7 c"
  by (cases c) (simp add: bv_def)

lemma control_digits: "bv c < 32 \<longleftrightarrow> \<not> digit5 c \<and> \<not> digit6 c \<and> \<not> digit7 c"
  by (cases c) (simp add: bv_def)

lemma chunks_code [code]:
  "chunks [] = []"
  "chunks (c # r) = (if \<not> digit7 c then [c] # chunks r
       else let n = snd (decode_rune (c # r)) in take n (c # r) # chunks (drop n (c # r)))"
  by (subst chunks.simps; simp add: ascii_digit7[symmetric] Let_def decode_rune.simps)+

fun digit_z :: "int \<Rightarrow> char" where
  "digit_z i = (if i = 0 then CHR ''0'' else if i = 1 then CHR ''1'' else if i = 2 then CHR ''2'' else if i = 3 then CHR ''3''
     else if i = 4 then CHR ''4'' else if i = 5 then CHR ''5'' else if i = 6 then CHR ''6'' else if i = 7 then CHR ''7''
     else if i = 8 then CHR ''8'' else if i = 9 then CHR ''9'' else digit (nat i))"

lemma digit_z: "digit_z (int n) = digit n"
proof -
  have "bc 48 = CHR ''0''" "bc 49 = CHR ''1''" "bc 50 = CHR ''2''" "bc 51 = CHR ''3''" "bc 52 = CHR ''4''"
    "bc 53 = CHR ''5''" "bc 54 = CHR ''6''" "bc 55 = CHR ''7''" "bc 56 = CHR ''8''" "bc 57 = CHR ''9''"
    by code_simp+
  then show ?thesis by (auto simp: digit_def digit_z.simps)
qed

function show_z :: "int \<Rightarrow> string" where
  "show_z i = (if i < 10 then [digit_z i] else show_z (i div 10) @ [digit_z (i mod 10)])"
  by pat_completeness auto
termination
  by (relation "measure nat") auto

declare show_z.simps [simp del] digit_z.simps [simp del]

lemma show_z: "show_z (int n) = show_nat n"
proof (induction n rule: show_nat.induct)
  case (1 n)
  have "int n div 10 = int (n div 10)" "int n mod 10 = int (n mod 10)" by (simp_all add: zdiv_int zmod_int)
  then show ?case using 1 by (subst show_z.simps, subst show_nat.simps) (simp add: digit_z)
qed

subsection \<open>Lower case and trimming\<close>

text \<open>Lower case does not bring new white space to the ends of a string: what is no lower-case letter afterwards was there before.\<close>

definition low_letter :: "char \<Rightarrow> bool" where
  "low_letter c \<longleftrightarrow> 97 \<le> bv c \<and> bv c \<le> 122"

lemma lower_byte_id: "\<not> low_letter (lower_byte c) \<Longrightarrow> lower_byte c = c"
  by (auto simp: lower_byte_def low_letter_def bv_bc split: if_splits)

lemma low_letter_ik [simp]: "low_letter CHR ''i''" "low_letter CHR ''k''"
  by (simp_all add: low_letter_def bv_def)

lemma ToLower_eq_Nil [simp]: "ToLower s = [] \<longleftrightarrow> s = []"
  by (induction s rule: ToLower.induct) auto

lemma ToLower_high:
  assumes "ToLower (b # s) = d # t" "\<not> low_letter d"
  shows "b = d \<and> t = ToLower s"
proof (cases s)
  case Nil
  then show ?thesis using assms lower_byte_id[of b] by auto
next
  case (Cons x s1)
  show ?thesis
  proof (cases s1)
    case Nil
    then show ?thesis using assms Cons lower_byte_id[of b] by (auto split: if_splits)
  next
    case (Cons y s2)
    then show ?thesis using assms \<open>s = x # s1\<close> lower_byte_id[of b] by (auto split: if_splits)
  qed
qed

lemma ToLower_prefix: "ToLower s = v @ t \<Longrightarrow> list_all (\<lambda>c. \<not> low_letter c) v \<Longrightarrow> \<exists>s'. s = v @ s' \<and> t = ToLower s'"
proof (induction v arbitrary: s)
  case (Cons c v)
  then obtain b s1 where s: "s = b # s1" by (cases s) auto
  then have "b = c \<and> v @ t = ToLower s1" using ToLower_high[of b s1 c] Cons.prems by simp
  then show ?case using Cons.IH[of s1] Cons.prems s by fastforce
qed simp

lemma ToLower_all: "ToLower s = v \<Longrightarrow> list_all (\<lambda>c. \<not> low_letter c) v \<Longrightarrow> s = v"
  using ToLower_prefix[of s v "[]"] by (auto dest!: sym[of "[]"])

lemma ToLower_suffix: "ToLower s = u @ v \<Longrightarrow> list_all (\<lambda>c. \<not> low_letter c) v \<Longrightarrow> \<exists>s'. s = s' @ v"
proof (induction s arbitrary: u rule: ToLower.induct)
  case (2 a)
  then show ?case using ToLower_all[of "[a]" v] by (cases u) (auto intro: exI[of _ "[]"])
next
  case (3 a b)
  show ?case
  proof (cases u)
    case Nil
    then show ?thesis using ToLower_all[of "[a, b]" v] 3 by (intro exI[of _ "[]"]) simp
  next
    case (Cons x u1)
    show ?thesis
    proof (cases "u1 = [] \<and> v \<noteq> []")
      case True
      then have "v = [lower_byte b]" using 3(1) Cons by (auto split: if_splits)
      then show ?thesis using 3(2) lower_byte_id[of b] by auto
    next
      case False
      then have "v = []" using 3(1) Cons by (cases u1) (auto split: if_splits)
      then show ?thesis by simp
    qed
  qed
next
  case (4 a b c s)
  show ?case
  proof (cases u)
    case Nil
    then show ?thesis using ToLower_all[of "a # b # c # s" v] 4(4,5) by (intro exI[of _ "[]"]) simp
  next
    case (Cons x u1)
    consider "bv a = 196 \<and> bv b = 176" | "\<not> (bv a = 196 \<and> bv b = 176)" "bv a = 226 \<and> bv b = 132 \<and> bv c = 170"
      | "\<not> (bv a = 196 \<and> bv b = 176)" "\<not> (bv a = 226 \<and> bv b = 132 \<and> bv c = 170)" by blast
    then show ?thesis
    proof cases
      case 1
      then have "ToLower (c # s) = u1 @ v" using 4(4) Cons by simp
      from 4(1)[OF 1 this 4(5)] show ?thesis by (metis append_Cons)
    next
      case 2
      then have "ToLower s = u1 @ v" using 4(4) Cons by simp
      from 4(2)[OF 2 this 4(5)] show ?thesis by (metis append_Cons)
    next
      case 3
      then have "ToLower (b # c # s) = u1 @ v" using 4(4) Cons by (auto split: if_splits)
      from 4(3)[OF 3 this 4(5)] show ?thesis by (metis append_Cons)
    qed
  qed
qed simp

lemma ToLower_idem: "ToLower (ToLower s) = ToLower s"
proof (induction s rule: ToLower.induct)
  case (4 a b c s)
  have ik: "ToLower (CHR ''i'' # t) = CHR ''i'' # ToLower t" "ToLower (CHR ''k'' # t) = CHR ''k'' # ToLower t" for t
    by (cases t rule: remdups_adj.cases; simp add: lower_byte_def bv_def)+
  consider "bv a = 196 \<and> bv b = 176" | "\<not> (bv a = 196 \<and> bv b = 176)" "bv a = 226 \<and> bv b = 132 \<and> bv c = 170"
    | "\<not> (bv a = 196 \<and> bv b = 176)" "\<not> (bv a = 226 \<and> bv b = 132 \<and> bv c = 170)" by blast
  then show ?case
  proof cases
    case 3
    let ?t = "ToLower (b # c # s)"
    have "ToLower (lower_byte a # ?t) = lower_byte (lower_byte a) # ToLower ?t"
    proof -
      obtain x y where t: "?t = x # y" by (cases ?t) auto
      have x: "b = x \<and> y = ToLower (c # s)" if "128 \<le> bv x" using ToLower_high[OF t] that by (simp add: low_letter_def)
      have y: "c = z" if "128 \<le> bv z" "y = z # w" "128 \<le> bv x" for z w
        using ToLower_high[of c s z w] x that by (simp add: low_letter_def)
      have a: "lower_byte a = a" if "128 \<le> bv (lower_byte a)" using lower_byte_id[of a] that by (simp add: low_letter_def)
      have n1: "\<not> (bv (lower_byte a) = 196 \<and> bv x = 176)" using 3(1) x a by auto
      have n2: "\<not> (bv (lower_byte a) = 226 \<and> bv x = 132 \<and> bv z = 170)" if "y = z # w" for z w using 3(2) x y[of z w] a that by auto
      show ?thesis using t n1 n2 by (cases y) auto
    qed
    moreover have "lower_byte (lower_byte a) = lower_byte a" by (auto simp: lower_byte_def bv_bc)
    moreover have "ToLower (a # b # c # s) = lower_byte a # ?t" using 3 by auto
    ultimately show ?thesis using 4(3)[OF 3] by (simp only:)
  qed (use 4 ik in auto)
qed (auto simp: lower_byte_def bv_bc, auto simp: bv_def)

lemma lead_space_shape:
  assumes "0 < lead_space u"
  obtains v t where "u = v @ t" "list_all (\<lambda>c. \<not> low_letter c) v" "\<And>t'. 0 < lead_space (v @ t')"
proof -
  obtain a s where u: "u = a # s" using assms by (cases u) auto
  consider "ascii_space a" | b s1 where "s = b # s1" "bv a = 194" "bv b = 133 \<or> bv b = 160"
    | b c s1 where "s = b # c # s1" "lead_space [a, b, c] = 3" "128 \<le> bv a" "128 \<le> bv b" "128 \<le> bv c"
    using assms u by (cases s rule: remdups_adj.cases) (auto simp: lead_space.simps(2) split: if_splits)
  then show ?thesis
  proof cases
    case 1
    show ?thesis by (rule that[of "[a]" s]) (use 1 u in \<open>auto simp: lead_space.simps(2) low_letter_def ascii_space_def\<close>)
  next
    case (2 b s1)
    show ?thesis by (rule that[of "[a, b]" s1]) (use 2 u in \<open>auto simp: lead_space.simps(2) low_letter_def ascii_space_def split: list.splits\<close>)
  next
    case (3 b c s1)
    have "lead_space ([a, b, c] @ t') = 3" for t' using 3(2) by (auto simp: lead_space.simps(2) split: if_splits)
    then show ?thesis by (intro that[of "[a, b, c]" s1]) (use 3 u in \<open>auto simp: low_letter_def\<close>)
  qed
qed

lemma trail_space_shape:
  assumes "0 < trail_space u"
  obtains v t where "u = rev v @ t" "list_all (\<lambda>c. \<not> low_letter c) v" "\<And>t'. 0 < trail_space (rev v @ t')"
proof -
  obtain z s where u: "u = z # s" using assms by (cases u) auto
  consider "ascii_space z" | y s1 where "s = y # s1" "lead_space [y, z] = 2" "\<not> ascii_space z"
    | y x s1 where "s = y # x # s1" "lead_space [x, y, z] = 3" "\<not> ascii_space z"
    using assms u by (cases s rule: remdups_adj.cases) (auto simp: trail_space.simps(2) split: if_splits)
  then show ?thesis
  proof cases
    case 1
    show ?thesis by (rule that[of "[z]" s]) (use 1 u in \<open>auto simp: trail_space.simps(2) low_letter_def ascii_space_def\<close>)
  next
    case (2 y s1)
    have "0 < trail_space (z # y # t')" for t' using 2(2) by (auto simp: trail_space.simps(2) split: list.splits)
    moreover have "\<not> low_letter y" "\<not> low_letter z" using 2(2) by (auto simp: lead_space.simps(2) low_letter_def split: if_splits)
    ultimately show ?thesis by (intro that[of "[y, z]" s1]) (use 2 u in auto)
  next
    case (3 y x s1)
    have "0 < trail_space (z # y # x # t')" for t' using 3(2) by (auto simp: trail_space.simps(2))
    moreover have "\<not> low_letter x" "\<not> low_letter y" "\<not> low_letter z" using 3(2) by (auto simp: lead_space.simps(2) low_letter_def split: if_splits)
    ultimately show ?thesis by (intro that[of "[x, y, z]" s1]) (use 3 u in auto)
  qed
qed

lemma TrimSpace_iff: "TrimSpace s = s \<longleftrightarrow> lead_space s = 0 \<and> trail_space (rev s) = 0"
proof
  assume t: "TrimSpace s = s"
  have "length (trim_left s) \<le> length s"
  proof (induction s rule: trim_left.induct)
    case (1 s)
    then show ?case by (subst trim_left.simps) auto
  qed
  moreover obtain k where k: "TrimSpace s = take k (trim_left s)" using trim_right_take by (metis TrimSpace_def)
  ultimately have tl: "trim_left s = s" using t by (metis length_take min.absorb2 le_antisym min.cobounded1 min.cobounded2 nle_le take_all)
  then have "lead_space s = 0" by (metis lead_space_trim_left)
  moreover have "trim_right s = s" using t tl by (simp add: TrimSpace_def)
  then have "trail_space (rev s) = 0" by (metis trail_space_trim_rev trim_right_def rev_rev_ident)
  ultimately show "lead_space s = 0 \<and> trail_space (rev s) = 0" ..
next
  assume "lead_space s = 0 \<and> trail_space (rev s) = 0"
  then show "TrimSpace s = s" by (simp add: TrimSpace_def trim_left_id trim_right_def trim_rev_id)
qed

lemma TrimSpace_ToLower:
  assumes "TrimSpace s = s"
  shows "TrimSpace (ToLower s) = ToLower s"
proof -
  have "lead_space (ToLower s) = 0"
  proof (rule ccontr)
    assume "lead_space (ToLower s) \<noteq> 0"
    then obtain v t where v: "ToLower s = v @ t" "list_all (\<lambda>c. \<not> low_letter c) v" "\<And>t'. 0 < lead_space (v @ t')"
      by (auto elim: lead_space_shape)
    then show False using ToLower_prefix[OF v(1,2)] assms unfolding TrimSpace_iff by (metis not_gr_zero)
  qed
  moreover have "trail_space (rev (ToLower s)) = 0"
  proof (rule ccontr)
    assume "trail_space (rev (ToLower s)) \<noteq> 0"
    then obtain v t where v: "rev (ToLower s) = rev v @ t" "list_all (\<lambda>c. \<not> low_letter c) v" "\<And>t'. 0 < trail_space (rev v @ t')"
      by (auto elim: trail_space_shape)
    have "ToLower s = rev t @ v" using v(1) by (metis rev_append rev_rev_ident)
    then obtain s' where "s = s' @ v" using ToLower_suffix v(2) by blast
    then show False using v(3)[of "rev s'"] assms unfolding TrimSpace_iff by simp
  qed
  ultimately show ?thesis by (simp add: TrimSpace_iff)
qed

end
