(* ===== verification/Go_Time.thy ===== *)
theory Go_Time
  imports Go_Strings
begin

section \<open>Go's package time, as far as the program uses it\<close>

text \<open>
  An instant is a number of seconds since 0001-01-01T00:00:00Z (the zero \<^verbatim>\<open>time.Time\<close>) plus
  nanoseconds, with the offset of its location; \<^verbatim>\<open>UTC()\<close> changes the location only. Dates are
  of the proleptic Gregorian calendar.
  \<^item> \<open>civil_of_days\<close> is the calendar computation behind \<^verbatim>\<open>Format\<close>, by cycles of 400, 100, 4
    and 1 years; \<open>days_of_civil\<close> is the one behind \<^verbatim>\<open>time.Date\<close>.
  \<^item> \<open>format_date\<close>, \<open>format_hour\<close>, \<open>format_rfc3339\<close>, \<open>format_rfc3339nano\<close> are
    \<^verbatim>\<open>Format\<close> with the layouts \<open>2006-01-02\<close>, \<open>15\<close>, \<open>time.RFC3339\<close>, \<open>time.RFC3339Nano\<close>.
  \<^item> \<open>parse_date\<close>, \<open>parse_hour\<close>, \<open>parse_rfc3339\<close> are \<^verbatim>\<open>time.Parse\<close> with these
    layouts, with its leniencies: an hour of one digit, a comma before the fraction, a zone offset up
    to 24 hours and 60 minutes.
  The results: calendar and parsing invert formatting (\<open>days_of_civil_of_days\<close>,
  \<open>parse_date_format\<close>, \<open>parse_hour_format\<close>, \<open>parse_rfc3339_format\<close>).
\<close>

record gotime =
  t_sec :: int
  t_nsec :: nat
  t_off :: int

definition zero_time :: gotime where
  "zero_time = \<lparr>t_sec = 0, t_nsec = 0, t_off = 0\<rparr>"

definition IsZero :: "gotime \<Rightarrow> bool" where
  "IsZero t \<longleftrightarrow> t_sec t = 0 \<and> t_nsec t = 0"

definition UTC :: "gotime \<Rightarrow> gotime" where
  "UTC t = t\<lparr>t_off := 0\<rparr>"

definition wf_time :: "gotime \<Rightarrow> bool" where
  "wf_time t \<longleftrightarrow> t_nsec t < 1000000000"

text \<open>\<^verbatim>\<open>Before\<close> and \<^verbatim>\<open>After\<close> compare instants.\<close>

definition Before :: "gotime \<Rightarrow> gotime \<Rightarrow> bool" where
  "Before t u \<longleftrightarrow> t_sec t < t_sec u \<or> (t_sec t = t_sec u \<and> t_nsec t < t_nsec u)"

subsection \<open>Calendar\<close>

definition is_leap :: "int \<Rightarrow> bool" where
  "is_leap y \<longleftrightarrow> y mod 4 = 0 \<and> (y mod 100 \<noteq> 0 \<or> y mod 400 = 0)"

definition leap_shift :: "int \<Rightarrow> int" where
  "leap_shift y = (if is_leap y then 1 else 0)"

definition days_in :: "int \<Rightarrow> int \<Rightarrow> int" where
  "days_in m y =
     (if m = 2 then 28 + leap_shift y
      else if m = 4 \<or> m = 6 \<or> m = 9 \<or> m = 11 then 30 else 31)"

definition days_before :: "int \<Rightarrow> int" where
  "days_before m =
     (if m = 1 then 0 else if m = 2 then 31 else if m = 3 then 59 else if m = 4 then 90
      else if m = 5 then 120 else if m = 6 then 151 else if m = 7 then 181 else if m = 8 then 212
      else if m = 9 then 243 else if m = 10 then 273 else if m = 11 then 304 else 334)"

definition month_start :: "int \<Rightarrow> int \<Rightarrow> int" where
  "month_start y m = days_before m + (if 2 < m then leap_shift y else 0)"

definition year_start :: "int \<Rightarrow> int" where
  "year_start y = 365 * (y - 1) + (y - 1) div 4 - (y - 1) div 100 + (y - 1) div 400"

definition days_of_civil :: "int \<Rightarrow> int \<Rightarrow> int \<Rightarrow> int" where
  "days_of_civil y m d = year_start y + month_start y m + (d - 1)"

definition year_yday :: "int \<Rightarrow> int \<times> int" where
  "year_yday n =
     (let n400 = n div 146097; d = n mod 146097;
          c0 = d div 36524; c = c0 - c0 div 4; d1 = d - 36524 * c;
          q = d1 div 1461; d2 = d1 - 1461 * q;
          a0 = d2 div 365; a = a0 - a0 div 4
      in (400 * n400 + 100 * c + 4 * q + a + 1, d2 - 365 * a))"

fun find_month :: "int \<Rightarrow> int \<Rightarrow> int list \<Rightarrow> int" where
  "find_month y yd [] = 1"
| "find_month y yd (m # ms) = (if month_start y m \<le> yd then m else find_month y yd ms)"

definition civil_of_days :: "int \<Rightarrow> int \<times> int \<times> int" where
  "civil_of_days n =
     (let (y, yd) = year_yday n; m = find_month y yd [12, 11, 10, 9, 8, 7, 6, 5, 4, 3, 2, 1]
      in (y, m, yd - month_start y m + 1))"

subsection \<open>Clock fields of an instant in its location\<close>

definition local_sec :: "gotime \<Rightarrow> int" where
  "local_sec t = t_sec t + t_off t"

definition day_of :: "gotime \<Rightarrow> int" where
  "day_of t = local_sec t div 86400"

definition Year :: "gotime \<Rightarrow> int" where
  "Year t = fst (civil_of_days (day_of t))"

definition Hour :: "gotime \<Rightarrow> int" where
  "Hour t = local_sec t mod 86400 div 3600"

text \<open>\<^verbatim>\<open>time.Date(y, m, d, hh, mm, ss, nsec, time.UTC)\<close>.\<close>

definition mk_time :: "int \<Rightarrow> int \<Rightarrow> int \<Rightarrow> int \<Rightarrow> int \<Rightarrow> int \<Rightarrow> nat \<Rightarrow> gotime" where
  "mk_time y m d hh mm ss ns =
     \<lparr>t_sec = days_of_civil y m d * 86400 + hh * 3600 + mm * 60 + ss, t_nsec = ns, t_off = 0\<rparr>"

text \<open>\<^verbatim>\<open>Truncate(time.Hour)\<close> counts from the zero time, so it cuts the seconds within the hour.\<close>

definition TruncateHour :: "gotime \<Rightarrow> gotime" where
  "TruncateHour t = t\<lparr>t_sec := t_sec t - t_sec t mod 3600, t_nsec := 0\<rparr>"

subsection \<open>Format\<close>

definition show_int_pad :: "nat \<Rightarrow> int \<Rightarrow> string" where
  "show_int_pad w i =
     (if i < 0 then CHR ''-'' # pad_left w (show_nat (nat (- i))) else pad_left w (show_nat (nat i)))"

definition format_date :: "gotime \<Rightarrow> string" where
  "format_date t =
     (case civil_of_days (day_of t) of (y, m, d) \<Rightarrow>
        show_int_pad 4 y @ ''-'' @ show_int_pad 2 m @ ''-'' @ show_int_pad 2 d)"

definition format_hour :: "gotime \<Rightarrow> string" where
  "format_hour t = show_int_pad 2 (Hour t)"

definition format_clock :: "gotime \<Rightarrow> string" where
  "format_clock t =
     (let s = local_sec t mod 86400
      in show_int_pad 2 (s div 3600) @ '':'' @ show_int_pad 2 (s div 60 mod 60) @ '':'' @ show_int_pad 2 (s mod 60))"

definition format_zone :: "gotime \<Rightarrow> string" where
  "format_zone t =
     (if t_off t = 0 then ''Z''
      else let z = \<bar>t_off t\<bar> div 60
           in (if t_off t < 0 then ''-'' else ''+'') @ show_int_pad 2 (z div 60) @ '':'' @ show_int_pad 2 (z mod 60))"

definition format_frac :: "nat \<Rightarrow> string" where
  "format_frac ns =
     (if ns = 0 then []
      else CHR ''.'' # rev (dropWhile (\<lambda>c. c = CHR ''0'') (rev (pad_left 9 (show_nat ns)))))"

definition format_rfc3339 :: "gotime \<Rightarrow> string" where
  "format_rfc3339 t = format_date t @ ''T'' @ format_clock t @ format_zone t"

definition format_rfc3339nano :: "gotime \<Rightarrow> string" where
  "format_rfc3339nano t =
     format_date t @ ''T'' @ format_clock t @ format_frac (t_nsec t) @ format_zone t"

subsection \<open>Parse\<close>

definition getnum :: "bool \<Rightarrow> string \<Rightarrow> (nat \<times> string) option" where
  "getnum fixed s =
     (case s of
        [] \<Rightarrow> None
      | [a] \<Rightarrow> if is_digit a \<and> \<not> fixed then Some (dval a, []) else None
      | a # b # r \<Rightarrow>
          if \<not> is_digit a then None
          else if is_digit b then Some (10 * dval a + dval b, r)
          else if fixed then None else Some (dval a, b # r))"

definition get_year :: "string \<Rightarrow> (nat \<times> string) option" where
  "get_year s =
     (if 4 \<le> length s \<and> list_all is_digit (take 4 s) then Some (read_nat 0 (take 4 s), drop 4 s) else None)"

definition get_lit :: "char \<Rightarrow> string \<Rightarrow> string option" where
  "get_lit c s = (case s of [] \<Rightarrow> None | a # r \<Rightarrow> if a = c then Some r else None)"

definition get_date :: "string \<Rightarrow> ((int \<times> int \<times> int) \<times> string) option" where
  "get_date s0 =
     (case get_year s0 of None \<Rightarrow> None | Some (y, s1) \<Rightarrow>
      case get_lit (CHR ''-'') s1 of None \<Rightarrow> None | Some s2 \<Rightarrow>
      case getnum True s2 of None \<Rightarrow> None | Some (m, s3) \<Rightarrow>
      if m = 0 \<or> 12 < m then None else
      case get_lit (CHR ''-'') s3 of None \<Rightarrow> None | Some s4 \<Rightarrow>
      case getnum True s4 of None \<Rightarrow> None | Some (d, s5) \<Rightarrow>
      Some ((int y, int m, int d), s5))"

definition valid_day :: "int \<times> int \<times> int \<Rightarrow> bool" where
  "valid_day ymd \<longleftrightarrow> (case ymd of (y, m, d) \<Rightarrow> 1 \<le> d \<and> d \<le> days_in m y)"

definition parse_date :: "string \<Rightarrow> (int \<times> int \<times> int) option" where
  "parse_date s =
     (case get_date s of None \<Rightarrow> None
      | Some (ymd, r) \<Rightarrow> if r = [] \<and> valid_day ymd then Some ymd else None)"

definition parse_hour :: "string \<Rightarrow> int option" where
  "parse_hour s =
     (case getnum False s of None \<Rightarrow> None
      | Some (h, r) \<Rightarrow> if r = [] \<and> h < 24 then Some (int h) else None)"

definition get_clock :: "string \<Rightarrow> ((int \<times> int \<times> int) \<times> string) option" where
  "get_clock s0 =
     (case getnum False s0 of None \<Rightarrow> None | Some (h, s1) \<Rightarrow>
      if 24 \<le> h then None else
      case get_lit (CHR '':'') s1 of None \<Rightarrow> None | Some s2 \<Rightarrow>
      case getnum True s2 of None \<Rightarrow> None | Some (m, s3) \<Rightarrow>
      if 60 \<le> m then None else
      case get_lit (CHR '':'') s3 of None \<Rightarrow> None | Some s4 \<Rightarrow>
      case getnum True s4 of None \<Rightarrow> None | Some (s, s5) \<Rightarrow>
      if 60 \<le> s then None else Some ((int h, int m, int s), s5))"

definition get_frac :: "string \<Rightarrow> nat \<times> string" where
  "get_frac s =
     (case s of
        a # b # r \<Rightarrow>
          if (a = CHR ''.'' \<or> a = CHR '','') \<and> is_digit b then
            (let ds = takeWhile is_digit (b # r); k = take 9 ds
             in (read_nat 0 k * 10 ^ (9 - length k), dropWhile is_digit (b # r)))
          else (0, s)
      | _ \<Rightarrow> (0, s))"

definition get_zone :: "string \<Rightarrow> (int \<times> string) option" where
  "get_zone s =
     (case s of
        [] \<Rightarrow> None
      | a # r \<Rightarrow>
          if a = CHR ''Z'' then Some (0, r)
          else if length r < 5 \<or> r ! 2 \<noteq> CHR '':'' then None
          else case (getnum True (take 2 r), getnum True (take 2 (drop 3 r))) of
            (Some (h, _), Some (m, _)) \<Rightarrow>
              if 24 < h \<or> 60 < m then None
              else if a = CHR ''+'' then Some (int (h * 60 + m) * 60, drop 5 r)
              else if a = CHR ''-'' then Some (- (int (h * 60 + m) * 60), drop 5 r)
              else None
          | _ \<Rightarrow> None)"

definition parse_rfc3339 :: "string \<Rightarrow> gotime option" where
  "parse_rfc3339 s0 =
     (case get_date s0 of None \<Rightarrow> None | Some ((y, mo, d), s1) \<Rightarrow>
      case get_lit (CHR ''T'') s1 of None \<Rightarrow> None | Some s2 \<Rightarrow>
      case get_clock s2 of None \<Rightarrow> None | Some ((hh, mm, ss), s3) \<Rightarrow>
      case get_frac s3 of (ns, s4) \<Rightarrow>
      case get_zone s4 of None \<Rightarrow> None | Some (off, s5) \<Rightarrow>
      if s5 = [] \<and> valid_day (y, mo, d)
      then (let t = mk_time y mo d hh mm ss ns in Some (t\<lparr>t_sec := t_sec t - off, t_off := off\<rparr>))
      else None)"

lemma gotime_eqI: "t_sec a = t_sec b \<Longrightarrow> t_nsec a = t_nsec b \<Longrightarrow> t_off a = t_off b \<Longrightarrow> a = (b :: gotime)"
  by simp

lemma TruncateHour_sel:
  "t_sec (TruncateHour t) = t_sec t - t_sec t mod 3600" "t_nsec (TruncateHour t) = 0" "t_off (TruncateHour t) = t_off t"
  by (simp_all add: TruncateHour_def)

subsection \<open>The calendar is a bijection\<close>

lemma y_mod:
  fixes k c q a :: int
  shows "(400 * k + 100 * c + 4 * q + a + 1) mod 4 = (a + 1) mod 4"
    "(400 * k + 100 * c + 4 * q + a + 1) mod 100 = (4 * q + a + 1) mod 100"
    "(400 * k + 100 * c + 4 * q + a + 1) mod 400 = (100 * c + 4 * q + a + 1) mod 400"
proof -
  have "400 * k + 100 * c + 4 * q + a + 1 = (a + 1) + 4 * (100 * k + 25 * c + q)"
    "400 * k + 100 * c + 4 * q + a + 1 = (4 * q + a + 1) + 100 * (4 * k + c)"
    "400 * k + 100 * c + 4 * q + a + 1 = (100 * c + 4 * q + a + 1) + 400 * k"
    by (simp_all add: algebra_simps)
  then show "(400 * k + 100 * c + 4 * q + a + 1) mod 4 = (a + 1) mod 4"
    "(400 * k + 100 * c + 4 * q + a + 1) mod 100 = (4 * q + a + 1) mod 100"
    "(400 * k + 100 * c + 4 * q + a + 1) mod 400 = (100 * c + 4 * q + a + 1) mod 400"
    by (metis mod_mult_self2)+
qed

lemma leap_cases:
  fixes c q a :: int
  assumes "0 \<le> c" "c \<le> 3" "0 \<le> q" "q \<le> 24" "0 \<le> a" "a \<le> 3"
  shows "(a + 1) mod 4 = 0 \<and> ((4 * q + a + 1) mod 100 \<noteq> 0 \<or> (100 * c + 4 * q + a + 1) mod 400 = 0) \<longleftrightarrow>
    a = 3 \<and> (q \<noteq> 24 \<or> c = 3)"
proof -
  have "a = 0 \<or> a = 1 \<or> a = 2 \<or> a = 3" "c = 0 \<or> c = 1 \<or> c = 2 \<or> c = 3" using assms by auto
  moreover have "q \<noteq> 24 \<Longrightarrow> (4 * q + 4) mod 100 = 4 * q + 4"
    using assms by (intro mod_pos_pos_trivial) auto
  ultimately show ?thesis using assms by (cases "q = 24") auto
qed

lemma year_start_cycles:
  assumes "0 \<le> c" "c \<le> 3" "0 \<le> q" "q \<le> 24" "0 \<le> a" "a \<le> 3"
  shows "year_start (400 * k + 100 * c + 4 * q + a + 1) = 146097 * k + 36524 * c + 1461 * q + 365 * a"
    "is_leap (400 * k + 100 * c + 4 * q + a + 1) \<longleftrightarrow> a = 3 \<and> (q \<noteq> 24 \<or> c = 3)"
proof -
  have "(400 * k + 100 * c + 4 * q + a) div 4 = 100 * k + 25 * c + q"
    "(400 * k + 100 * c + 4 * q + a) div 100 = 4 * k + c"
    "(400 * k + 100 * c + 4 * q + a) div 400 = k"
    using assms by (simp_all add: div_pos_geq zdiv_eq_0_iff algebra_simps)
  then show "year_start (400 * k + 100 * c + 4 * q + a + 1) = 146097 * k + 36524 * c + 1461 * q + 365 * a"
    by (simp add: year_start_def algebra_simps)
  show "is_leap (400 * k + 100 * c + 4 * q + a + 1) \<longleftrightarrow> a = 3 \<and> (q \<noteq> 24 \<or> c = 3)"
    unfolding is_leap_def y_mod[of k c q a] using leap_cases[OF assms] by simp
qed

lemma int_div_bounds: "0 < (n::int) \<Longrightarrow> n * (d div n) \<le> d \<and> d < n * (d div n) + n"
proof -
  assume "0 < n"
  moreover have "n * (d div n) + d mod n = d" by simp
  ultimately show ?thesis using pos_mod_sign[of n d] pos_mod_bound[of n d] by linarith
qed

text \<open>A quotient that would be 4 on the last day of a cycle is cut to 3.\<close>

lemma cap_quot:
  fixes d n :: int
  assumes "0 \<le> d" "d \<le> 4 * n" "0 < n"
  defines "c \<equiv> d div n - d div n div 4"
  shows "0 \<le> c" "c \<le> 3" "0 \<le> d - n * c" "d - n * c \<le> n" "d - n * c = n \<longrightarrow> c = 3 \<and> d = 4 * n"
proof -
  have q: "0 \<le> d div n" using assms by (simp add: pos_imp_zdiv_nonneg_iff)
  have r: "n * (d div n) \<le> d" "d < n * (d div n) + n" using int_div_bounds[OF assms(3)] by simp_all
  have "d div n \<le> 4" using assms zdiv_mono1[of d "4 * n" n] by simp
  then consider "d div n = 0" | "d div n = 1" | "d div n = 2" | "d div n = 3" | "d div n = 4"
    using q by linarith
  then have "(c = d div n \<and> d div n \<le> 3) \<or> (c = 3 \<and> d div n = 4)"
    by cases (simp_all add: c_def)
  then show "0 \<le> c" "c \<le> 3" "0 \<le> d - n * c" "d - n * c \<le> n" "d - n * c = n \<longrightarrow> c = 3 \<and> d = 4 * n"
    using q r assms by auto
qed

lemma year_yday_spec:
  assumes "year_yday n = (y, yd)"
  shows "n = year_start y + yd" "0 \<le> yd" "yd < 365 + leap_shift y"
proof -
  define k d where "k = n div 146097" and "d = n mod 146097"
  define c where "c = d div 36524 - d div 36524 div 4"
  define d1 where "d1 = d - 36524 * c"
  define q where "q = d1 div 1461"
  define d2 where "d2 = d1 - 1461 * q"
  define a where "a = d2 div 365 - d2 div 365 div 4"
  have d: "0 \<le> d" "d < 146097" by (simp_all add: d_def)
  have c: "0 \<le> c" "c \<le> 3" "0 \<le> d1" "d1 \<le> 36524" "d1 = 36524 \<longrightarrow> c = 3"
    using cap_quot[of d 36524, folded c_def, folded d1_def] d by simp_all
  have q0: "1461 * q \<le> d1" "d1 < 1461 * q + 1461" using int_div_bounds[of 1461 d1, folded q_def] by simp_all
  have q: "0 \<le> q" "q \<le> 24" "0 \<le> d2" "d2 \<le> 1460" "q = 24 \<and> c \<noteq> 3 \<longrightarrow> d2 \<le> 1459"
    using c q0 unfolding d2_def by linarith+
  have a: "0 \<le> a" "a \<le> 3" "0 \<le> d2 - 365 * a" "d2 - 365 * a \<le> 365"
      "d2 - 365 * a = 365 \<longrightarrow> a = 3 \<and> d2 = 1460"
    using cap_quot[of d2 365, folded a_def] q by simp_all
  have yy: "year_yday n = (400 * k + 100 * c + 4 * q + a + 1, d2 - 365 * a)"
    unfolding year_yday_def Let_def a_def d2_def q_def d1_def c_def d_def k_def by (rule refl)
  have e: "y = 400 * k + 100 * c + 4 * q + a + 1" "yd = d2 - 365 * a"
    using assms yy by simp_all
  note cyc = year_start_cycles[OF c(1,2) q(1,2) a(1,2), of k]
  have "n = 146097 * k + d" by (simp add: k_def d_def)
  then show "n = year_start y + yd" using cyc(1) e d1_def d2_def by simp
  show "0 \<le> yd" using a(3) e by simp
  have "yd \<le> 365" using a(4) e(2) by simp
  moreover have "a = 3 \<and> (q \<noteq> 24 \<or> c = 3)" if "yd = 365"
    using a(5) q(5) e(2) that by linarith
  ultimately show "yd < 365 + leap_shift y"
    unfolding leap_shift_def e(1) cyc(2) by (cases "yd = 365") simp_all
qed

lemma find_month_spec:
  assumes "0 \<le> yd" "yd < 365 + leap_shift y"
    and m: "m = find_month y yd [12, 11, 10, 9, 8, 7, 6, 5, 4, 3, 2, 1]"
  shows "1 \<le> m" "m \<le> 12" "month_start y m \<le> yd" "yd < month_start y m + days_in m y"
proof -
  have l: "leap_shift y = 0 \<or> leap_shift y = 1" by (simp add: leap_shift_def)
  have "m = 1 \<or> m = 2 \<or> m = 3 \<or> m = 4 \<or> m = 5 \<or> m = 6 \<or> m = 7 \<or> m = 8 \<or> m = 9 \<or> m = 10 \<or> m = 11 \<or> m = 12"
    unfolding m by (simp split: if_split)
  then show "1 \<le> m" "m \<le> 12" by auto
  show "month_start y m \<le> yd" "yd < month_start y m + days_in m y"
    using assms l unfolding m by (auto simp: month_start_def days_before_def days_in_def)
qed

lemma civil_of_days_spec:
  assumes "civil_of_days n = (y, m, d)"
  shows "days_of_civil y m d = n" "1 \<le> m" "m \<le> 12" "1 \<le> d" "d \<le> days_in m y"
proof -
  obtain yd where yd: "year_yday n = (y, yd)"
      "m = find_month y yd [12, 11, 10, 9, 8, 7, 6, 5, 4, 3, 2, 1]" "d = yd - month_start y m + 1"
    using assms by (auto simp: civil_of_days_def Let_def simp del: find_month.simps split: prod.splits)
  note y = year_yday_spec[OF yd(1)]
  note ms = find_month_spec[OF y(2,3) yd(2)]
  show "days_of_civil y m d = n" using y(1) yd(3) by (simp add: days_of_civil_def)
  show "1 \<le> m" "m \<le> 12" by (rule ms)+
  show "1 \<le> d" "d \<le> days_in m y" using ms yd(3) by simp_all
qed

lemma days_of_civil_of_days: "(case civil_of_days n of (y, m, d) \<Rightarrow> days_of_civil y m d) = n"
  by (cases "civil_of_days n") (simp add: civil_of_days_spec)

lemma civil_of_days_inject: "civil_of_days n = civil_of_days k \<Longrightarrow> n = k"
  by (metis days_of_civil_of_days)

lemma valid_day_civil: "valid_day (civil_of_days n)"
  by (cases "civil_of_days n") (simp add: valid_day_def civil_of_days_spec)

lemma days_in_le: "days_in m y \<le> 31"
  by (simp add: days_in_def leap_shift_def)

subsection \<open>Parsing inverts formatting\<close>

lemma show_int_pad_nat: "0 \<le> i \<Longrightarrow> show_int_pad w i = pad_left w (show_nat (nat i))"
  by (simp add: show_int_pad_def)

lemma two_digits:
  assumes "0 \<le> i" "i < 100"
  obtains a b where "show_int_pad 2 i = [a, b]" "is_digit a" "is_digit b" "nat i = 10 * dval a + dval b"
proof -
  let ?s = "show_int_pad 2 i"
  have s: "?s = pad_left 2 (show_nat (nat i))" using assms by (simp add: show_int_pad_nat)
  have "length ?s = 2" using length_pad[of "nat i" 2] assms s by simp
  then obtain a b where ab: "?s = [a, b]" by (auto simp: length_Suc_conv numeral_2_eq_2)
  have "is_digit a" "is_digit b" using digits_pad[of _ 2 "nat i"] ab s by auto
  moreover have "read_nat 0 ?s = nat i" unfolding s by (rule read_nat_pad)
  then have "nat i = 10 * dval a + dval b" using ab by simp
  ultimately show ?thesis using ab that by blast
qed

lemma getnum_show:
  assumes "0 \<le> i" "i < 100"
  shows "getnum f (show_int_pad 2 i @ r) = Some (nat i, r)"
proof -
  obtain a b where "show_int_pad 2 i = [a, b]" "is_digit a" "is_digit b" "nat i = 10 * dval a + dval b"
    using two_digits[OF assms] .
  then show ?thesis by (simp add: getnum_def)
qed

lemma get_year_show:
  assumes "0 \<le> y" "y \<le> 9999"
  shows "get_year (show_int_pad 4 y @ r) = Some (nat y, r)"
proof -
  let ?s = "pad_left 4 (show_nat (nat y))"
  have l: "length ?s = 4" using length_pad[of "nat y" 4] assms by simp
  have "list_all is_digit ?s" using digits_pad by (auto simp: list_all_iff)
  then show ?thesis using l assms by (simp add: get_year_def show_int_pad_nat)
qed

lemma get_date_format:
  assumes "0 \<le> Year t" "Year t \<le> 9999"
  shows "get_date (format_date t @ r) = Some (civil_of_days (day_of t), r)"
proof -
  obtain y m d where c: "civil_of_days (day_of t) = (y, m, d)" by (cases "civil_of_days (day_of t)")
  note s = civil_of_days_spec[OF c]
  have "d < 100" using s(5) days_in_le[of m y] by linarith
  then show ?thesis
    using assms s c by (simp add: get_date_def format_date_def Year_def get_year_show getnum_show get_lit_def)
qed

lemma parse_date_format:
  assumes "0 \<le> Year t" "Year t \<le> 9999"
  shows "parse_date (format_date t) = Some (civil_of_days (day_of t))"
  using get_date_format[OF assms, of "[]"] by (simp add: parse_date_def valid_day_civil)

lemma div_upper: "0 < (n::int) \<Longrightarrow> r < n * k \<Longrightarrow> r div n < k"
  using int_div_bounds[of n r] by (metis le_less_trans mult_less_cancel_left_pos)

lemma hour_range: "0 \<le> s mod 86400 div 3600" "s mod 86400 div 3600 < (24::int)"
proof -
  have "0 \<le> s mod 86400" "s mod 86400 < 86400" by simp_all
  then show "0 \<le> s mod 86400 div 3600" "s mod 86400 div 3600 < (24::int)"
    using div_upper[of 3600 "s mod 86400" 24] by (simp_all only: pos_imp_zdiv_nonneg_iff zero_less_numeral)
qed

lemma Hour_bounds: "0 \<le> Hour t" "Hour t < 24"
  unfolding Hour_def using hour_range[of "local_sec t"] by simp_all

lemma parse_hour_format: "parse_hour (format_hour t) = Some (Hour t)"
  using getnum_show[of "Hour t" False "[]"] Hour_bounds[of t]
  by (simp add: parse_hour_def format_hour_def)

lemma get_clock_show:
  assumes "0 \<le> h" "h < 24" "0 \<le> m" "m < 60" "0 \<le> e" "e < 60"
  shows "get_clock (show_int_pad 2 h @ '':'' @ show_int_pad 2 m @ '':'' @ show_int_pad 2 e @ r) = Some ((h, m, e), r)"
proof -
  have "nat h < 24" "nat m < 60" "nat e < 60" using assms by linarith+
  then show ?thesis using assms by (simp add: get_clock_def getnum_show get_lit_def not_le)
qed

lemma get_clock_format:
  "get_clock (format_clock t @ r) =
     Some ((local_sec t mod 86400 div 3600, local_sec t mod 86400 div 60 mod 60, local_sec t mod 86400 mod 60), r)"
proof -
  note hour_range[of "local_sec t"]
  moreover have "0 \<le> k mod 60" "k mod 60 < 60" for k :: int by simp_all
  ultimately show ?thesis
    unfolding format_clock_def Let_def append_assoc by (intro get_clock_show)
qed

lemma read_nat_zeros_right: "read_nat n (replicate k (CHR ''0'')) = n * 10 ^ k"
  by (induction k arbitrary: n) (auto simp: dval_def bv_def)

lemma strip_zeros:
  "\<exists>k. s = rev (dropWhile (\<lambda>c. c = CHR ''0'') (rev s)) @ replicate k (CHR ''0'')"
proof (induction s rule: rev_induct)
  case (snoc c s)
  then obtain k where k: "s = rev (dropWhile (\<lambda>c. c = CHR ''0'') (rev s)) @ replicate k (CHR ''0'')"
    by blast
  show ?case
  proof (cases "c = CHR ''0''")
    case True
    with k have "s @ [c] = rev (dropWhile (\<lambda>c. c = CHR ''0'') (rev (s @ [c]))) @ replicate (Suc k) (CHR ''0'')"
      by (simp add: replicate_append_same) (metis append_assoc replicate_append_same)
    then show ?thesis by blast
  next
    case False
    then show ?thesis by (intro exI[of _ 0]) simp
  qed
qed simp

lemma get_frac_format:
  assumes "ns < 1000000000"
  shows "get_frac (format_frac ns @ CHR ''Z'' # r) = (ns, CHR ''Z'' # r)"
proof (cases "ns = 0")
  case True
  then show ?thesis by (auto simp: get_frac_def format_frac_def split: list.split)
next
  case False
  define p where "p = pad_left 9 (show_nat ns)"
  define z where "z = rev (dropWhile (\<lambda>c. c = CHR ''0'') (rev p))"
  obtain k where k: "p = z @ replicate k (CHR ''0'')" using strip_zeros[of p] z_def by blast
  have lp: "length p = 9" using length_pad[of ns 9] assms by (simp add: p_def)
  have dz: "\<forall>c \<in> set z. is_digit c" using digits_pad[of _ 9 ns] k p_def by auto
  have "read_nat 0 p = ns" by (simp add: p_def)
  then have rd: "read_nat 0 z * 10 ^ k = ns" unfolding k by (simp add: read_nat_append read_nat_zeros_right)
  have "z \<noteq> []" using rd False by (cases z) auto
  then obtain b z' where z': "z = b # z'" by (cases z) auto
  have nz: "\<not> is_digit (CHR ''Z'')" by (simp add: is_digit_def bv_def)
  have tw: "takeWhile is_digit (z @ CHR ''Z'' # r) = z" "dropWhile is_digit (z @ CHR ''Z'' # r) = CHR ''Z'' # r"
    using dz nz by (simp_all add: takeWhile_append2 dropWhile_append2)
  have lz: "length z + k = 9" using lp k by simp
  have "format_frac ns @ CHR ''Z'' # r = CHR ''.'' # z @ CHR ''Z'' # r"
    using False by (simp add: format_frac_def z_def p_def)
  moreover have "is_digit b" using dz z' by simp
  moreover have "take 9 z = z" "9 - length z = k" using lz by simp_all
  ultimately show ?thesis
    using tw rd unfolding get_frac_def z' by (simp add: Let_def)
qed

lemma sec_split: "s div 86400 * 86400 + s mod 86400 div 3600 * 3600 + s mod 86400 div 60 mod 60 * 60 + s mod 86400 mod 60 = (s::int)"
proof -
  define r where "r = s mod 86400"
  have "s div 86400 * 86400 + r = s" unfolding r_def by (rule div_mult_mod_eq)
  moreover have "r div 60 * 60 + r mod 60 = r" by (rule div_mult_mod_eq)
  moreover have "r div 60 div 60 * 60 + r div 60 mod 60 = r div 60" by (rule div_mult_mod_eq)
  moreover have "r div 60 div 60 = r div 3600" by (simp flip: zdiv_zmult2_eq)
  moreover obtain h m where "r div 3600 = h" "r div 60 mod 60 = m" by blast
  ultimately show ?thesis unfolding r_def[symmetric] by (simp only:)
qed

lemma parse_rfc3339_format:
  assumes "0 \<le> Year t" "Year t \<le> 9999" "t_off t = 0" "wf_time t"
  shows "parse_rfc3339 (format_rfc3339nano t) = Some t"
proof -
  obtain y m d where c: "civil_of_days (day_of t) = (y, m, d)" by (cases "civil_of_days (day_of t)")
  have v: "valid_day (y, m, d)" using valid_day_civil[of "day_of t"] c by simp
  have n: "days_of_civil y m d = local_sec t div 86400"
    using civil_of_days_spec(1)[OF c] by (simp add: day_of_def)
  have ns: "t_nsec t < 1000000000" using assms(4) by (simp add: wf_time_def)
  have z: "format_zone t = ''Z''" using assms(3) by (simp add: format_zone_def)
  have ls: "local_sec t = t_sec t" using assms(3) by (simp add: local_sec_def)
  have "parse_rfc3339 (format_rfc3339nano t) =
      Some ((mk_time y m d (t_sec t mod 86400 div 3600) (t_sec t mod 86400 div 60 mod 60)
         (t_sec t mod 86400 mod 60) (t_nsec t))\<lparr>t_off := 0\<rparr>)"
    using v ls get_date_format[OF assms(1,2)] c get_frac_format[OF ns, of "[]"]
    by (simp add: parse_rfc3339_def format_rfc3339nano_def z get_clock_format get_zone_def get_lit_def Let_def
        mk_time_def)
  also have "\<dots> = Some t"
    unfolding option.inject
    by (rule gotime_eqI) (simp_all only: mk_time_def gotime.simps n ls sec_split assms(3))
  finally show ?thesis .
qed

subsection \<open>The names of hours\<close>

lemma show_int_pad_chars: "c \<in> set (show_int_pad w i) \<Longrightarrow> is_digit c \<or> c = CHR ''-''"
  by (auto simp: show_int_pad_def dest: digits_pad split: if_splits)

lemma show_int_pad_Cons: "0 < w \<Longrightarrow> \<exists>c s. show_int_pad w i = c # s \<and> c \<noteq> CHR ''.''"
proof -
  assume "0 < w"
  then have "show_int_pad w i \<noteq> []" by (auto simp: show_int_pad_def pad_left_def)
  then obtain c s where cs: "show_int_pad w i = c # s" by (cases "show_int_pad w i") auto
  then have "is_digit c \<or> c = CHR ''-''" using show_int_pad_chars[of c w i] by simp
  then show ?thesis using cs by (auto simp: is_digit_def bv_def)
qed

lemma plain_format_date: "plain_comp (format_date t)"
proof -
  obtain y m d where c: "civil_of_days (day_of t) = (y, m, d)" by (cases "civil_of_days (day_of t)")
  have "slash \<notin> set (format_date t)"
    using show_int_pad_chars digit_not_slash by (fastforce simp: format_date_def c)
  moreover obtain x s where "format_date t = x # s" "x \<noteq> CHR ''.''"
    using show_int_pad_Cons[of 4 y] by (auto simp: format_date_def c)
  ultimately show ?thesis by (auto simp: plain_comp_def)
qed

lemma plain_format_hour: "plain_comp (format_hour t @ ''.log.json'')" "plain_comp (format_hour t)"
proof -
  have "slash \<notin> set (format_hour t)"
    using show_int_pad_chars digit_not_slash by (fastforce simp: format_hour_def)
  moreover obtain x s where "format_hour t = x # s" "x \<noteq> CHR ''.''"
    using show_int_pad_Cons[of 2 "Hour t"] by (auto simp: format_hour_def)
  ultimately show "plain_comp (format_hour t @ ''.log.json'')" "plain_comp (format_hour t)"
    by (auto simp: plain_comp_def)
qed

lemma hour_split: "s div 86400 * 86400 + s mod 86400 div 3600 * 3600 = s - s mod (3600::int)"
proof -
  have "s div 86400 * 86400 + s mod 86400 = s" by (rule div_mult_mod_eq)
  moreover have "s mod 86400 div 3600 * 3600 + s mod 86400 mod 3600 = s mod 86400" by (rule div_mult_mod_eq)
  moreover have "s mod 86400 mod 3600 = s mod 3600" by (rule mod_mod_cancel) simp
  ultimately show ?thesis by (simp only:)
qed

lemma TruncateHour_Hour:
  assumes "t_off t = 0"
  shows "(case civil_of_days (day_of t) of (y, m, d) \<Rightarrow> mk_time y m d (Hour t) 0 0 0) = TruncateHour t"
proof -
  obtain y m d where c: "civil_of_days (day_of t) = (y, m, d)" by (cases "civil_of_days (day_of t)")
  have ls: "local_sec t = t_sec t" using assms by (simp add: local_sec_def)
  have n: "days_of_civil y m d = t_sec t div 86400"
    using civil_of_days_spec(1)[OF c] by (simp add: day_of_def ls)
  have "mk_time y m d (Hour t) 0 0 0 = TruncateHour t"
    by (rule gotime_eqI)
      (simp_all only: mk_time_def Hour_def gotime.simps n ls hour_split TruncateHour_sel assms mult_zero_left add_0_right)
  then show ?thesis by (simp add: c)
qed

lemma div_mod_split: "0 \<le> r \<Longrightarrow> r < n \<Longrightarrow> (a * n + r) div n = (a::int) \<and> (a * n + r) mod n = r"
  by simp

lemma TruncateHour_fields:
  assumes "t_off t = 0"
  shows "day_of (TruncateHour t) = day_of t" "Hour (TruncateHour t) = Hour t"
proof -
  define a h where "a = t_sec t div 86400" and "h = t_sec t mod 86400 div 3600"
  have h: "0 \<le> h" "h < 24" unfolding h_def by (rule hour_range)+
  have s: "t_sec t - t_sec t mod 3600 = a * 86400 + h * 3600" unfolding a_def h_def by (rule hour_split[symmetric])
  have "0 \<le> h * 3600" "h * 3600 < 86400" using h by simp_all
  then have d: "(a * 86400 + h * 3600) div 86400 = a" "(a * 86400 + h * 3600) mod 86400 = h * 3600"
    using div_mod_split by blast+
  have l: "local_sec (TruncateHour t) = a * 86400 + h * 3600"
    using assms s by (simp add: local_sec_def TruncateHour_sel)
  have lt: "local_sec t = t_sec t" using assms by (simp add: local_sec_def)
  show "day_of (TruncateHour t) = day_of t"
    using d(1) by (simp only: day_of_def l lt a_def)
  have "h * 3600 div 3600 = h" by (rule nonzero_mult_div_cancel_right) simp
  then show "Hour (TruncateHour t) = Hour t"
    unfolding Hour_def l d lt unfolding h_def .
qed

lemma same_hour:
  assumes "t_off t = 0" "t_off u = 0" "TruncateHour t = TruncateHour u"
  shows "day_of t = day_of u \<and> Hour t = Hour u"
  using TruncateHour_fields[OF assms(1)] TruncateHour_fields[OF assms(2)] assms(3) by simp

subsection \<open>Ranges of parsed dates\<close>

lemma div_step: "0 < n \<Longrightarrow> y div n = (y - 1) div n + (if y mod n = 0 then 1 else (0::int))"
proof -
  assume n: "0 < n"
  define q r where "q = (y - 1) div n" and "r = (y - 1) mod n"
  have r: "0 \<le> r" "r < n" using n by (simp_all add: r_def)
  have y: "y = q * n + (r + 1)" unfolding q_def r_def using div_mult_mod_eq[of "y - 1" n] by simp
  show ?thesis
  proof (cases "r + 1 = n")
    case True
    then have "y = (q + 1) * n" using y by (simp add: distrib_right)
    then have "y div n = q + 1" "y mod n = 0" using n by simp_all
    then show ?thesis unfolding q_def[symmetric] by simp
  next
    case False
    then have "y div n = q" "y mod n = r + 1" using r y div_mod_split[of "r + 1" n q] by simp_all
    then show ?thesis unfolding q_def[symmetric] using r by simp
  qed
qed

lemma leap_shift_sum:
  "leap_shift y = (if y mod 4 = 0 then 1 else 0) - (if y mod 100 = 0 then 1 else 0) + (if y mod 400 = 0 then 1 else 0)"
proof -
  have c: "4 dvd (100::int)" "100 dvd (400::int)" by simp_all
  have d: "100 dvd y \<Longrightarrow> 4 dvd y" by (rule dvd_trans[OF c(1)])
  have e: "400 dvd y \<Longrightarrow> 100 dvd y" by (rule dvd_trans[OF c(2)])
  have p: "(if A \<and> (\<not> B \<or> C) then 1 else 0) = (if A then 1 else 0) - (if B then 1 else 0) + (if C then 1 else (0::int))"
    if "B \<longrightarrow> A" "C \<longrightarrow> B" for A B C :: bool using that by (cases A; cases B; cases C) simp_all
  show ?thesis unfolding leap_shift_def is_leap_def mod_eq_0_iff_dvd by (rule p) (use d e in blast)+
qed

lemma year_start_Suc: "year_start (y + 1) = year_start y + 365 + leap_shift y"
proof -
  have add: "365 * z + (a + e) - (b + f) + (c + g) = 365 * (z - 1) + a - b + c + 365 + (e - f + g)" for z a b c e f g :: int by simp
  have s: "y + 1 - 1 = y" by simp
  note d = div_step[of 4 y] div_step[of 100 y] div_step[of 400 y]
  show ?thesis unfolding year_start_def leap_shift_sum s d(1)[OF zero_less_numeral] d(2)[OF zero_less_numeral] d(3)[OF zero_less_numeral]
    by (rule add)
qed

lemma year_start_mono: "y \<le> z \<Longrightarrow> year_start y \<le> year_start z"
proof (induction z rule: int_ge_induct)
  case (step z)
  moreover have "year_start z \<le> year_start (z + 1)" using year_start_Suc[of z] by (simp add: leap_shift_def)
  ultimately show ?case by simp
qed simp

lemma year_start_unique:
  assumes "year_start y \<le> n" "n < year_start (y + 1)" "year_start z \<le> n" "n < year_start (z + 1)"
  shows "y = z"
proof (rule ccontr)
  assume "y \<noteq> z"
  then consider "y + 1 \<le> z" | "z + 1 \<le> y" by linarith
  then show False using year_start_mono[of "y + 1" z] year_start_mono[of "z + 1" y] assms by cases linarith+
qed

lemma month_day_range:
  assumes "1 \<le> m" "m \<le> 12" "1 \<le> d" "d \<le> days_in m y"
  shows "0 \<le> month_start y m + (d - 1)" "month_start y m + (d - 1) < 365 + leap_shift y"
proof -
  have "m = 1 \<or> m = 2 \<or> m = 3 \<or> m = 4 \<or> m = 5 \<or> m = 6 \<or> m = 7 \<or> m = 8 \<or> m = 9 \<or> m = 10 \<or> m = 11 \<or> m = 12"
    using assms(1,2) by presburger
  then show "0 \<le> month_start y m + (d - 1)" "month_start y m + (d - 1) < 365 + leap_shift y"
    using assms(3,4) unfolding month_start_def days_before_def days_in_def leap_shift_def by auto
qed

lemma year_of_civil:
  assumes "1 \<le> m" "m \<le> 12" "1 \<le> d" "d \<le> days_in m y"
  shows "fst (civil_of_days (days_of_civil y m d)) = y"
proof -
  let ?n = "days_of_civil y m d"
  obtain z yd where z: "year_yday ?n = (z, yd)" by fastforce
  have "fst (civil_of_days ?n) = z" using z by (simp add: civil_of_days_def Let_def)
  moreover have "z = y"
    using year_yday_spec[OF z] month_day_range[OF assms] year_start_Suc[of y] year_start_Suc[of z]
    by (intro year_start_unique[of z ?n y]) (simp_all add: days_of_civil_def)
  ultimately show ?thesis by simp
qed

lemma parse_date_range:
  assumes "parse_date s = Some (y, m, d)"
  shows "0 \<le> y" "y \<le> 9999" "1 \<le> m" "m \<le> 12" "1 \<le> d" "d \<le> days_in m y"
proof -
  have g: "\<exists>r. get_date s = Some ((y, m, d), r)" "valid_day (y, m, d)"
    using assms by (auto simp: parse_date_def split: option.splits prod.splits if_splits)
  then show "1 \<le> d" "d \<le> days_in m y" by (simp_all add: valid_day_def)
  obtain y' r' where y: "get_year s = Some (y', r')" "y = int y'" and m: "1 \<le> m" "m \<le> 12"
    using g(1) by (auto simp: get_date_def split: option.splits prod.splits if_splits)
  show "0 \<le> y" "1 \<le> m" "m \<le> 12" using y m by simp_all
  have "y' < 10000"
    using y(1) read_nat_bound[of "take 4 s" 0] by (auto simp: get_year_def list_all_iff split: if_splits)
  then show "y \<le> 9999" using y(2) by simp
qed

subsection \<open>Code equations\<close>

lemma show_int_pad_code [code]:
  "show_int_pad w i = (if i < 0 then CHR ''-'' # pad_left w (show_z (- i)) else pad_left w (show_z i))"
proof (cases "i < 0")
  case True
  then show ?thesis using show_z[of "nat (- i)"] by (simp add: show_int_pad_def)
next
  case False
  then show ?thesis using show_z[of "nat i"] by (simp add: show_int_pad_def)
qed

end
