(* ===== verification/Model_Types.thy ===== *)
theory Model_Types
  imports Go_Errors Go_Time
begin

section \<open>Shared types of the pipeline (package model)\<close>

text \<open>
  \<open>LogRecord\<close> and \<open>ConsumedMessage\<close> of \<^verbatim>\<open>model/model.go\<close>. A record's timestamp is an instant of
  \<open>Go_Time\<close>; the strings are byte sequences. The \<^verbatim>\<open>Commit\<close> closure of a consumed message is
  present or nil; what it does (commit of that message's offset by the reader that fetched it) is
  an argument of the code that calls it.
\<close>

record LogRecord =
  Timestamp :: gotime
  Path :: string
  UserAgent :: string

record ConsumedMessage =
  Record :: LogRecord
  Partition :: int
  Offset :: int
  HasCommit :: bool

definition zero_record :: LogRecord where
  "zero_record = \<lparr>Timestamp = zero_time, Path = [], UserAgent = []\<rparr>"

text \<open>\<^verbatim>\<open>rec.Timestamp = rec.Timestamp.UTC()\<close>, as every writer of records does.\<close>

definition utc_record :: "LogRecord \<Rightarrow> LogRecord" where
  "utc_record r = r\<lparr>Timestamp := UTC (Timestamp r)\<rparr>"

lemma utc_record_sel [simp]:
  "Timestamp (utc_record r) = UTC (Timestamp r)" "Path (utc_record r) = Path r"
  "UserAgent (utc_record r) = UserAgent r"
  by (simp_all add: utc_record_def)

lemma UTC_simps [simp]: "t_off (UTC t) = 0" "t_sec (UTC t) = t_sec t" "t_nsec (UTC t) = t_nsec t"
  by (simp_all add: UTC_def)

lemma UTC_id: "t_off t = 0 \<Longrightarrow> UTC t = t"
  by (simp add: UTC_def)

lemma UTC_UTC [simp]: "UTC (UTC t) = UTC t"
  by (simp add: UTC_def)

lemma utc_record_idem [simp]: "utc_record (utc_record r) = utc_record r"
  by (simp add: utc_record_def)

end
