(* ===== verification/Go_Json.thy ===== *)
theory Go_Json
  imports Model_Types
begin

section \<open>Package encoding/json on log records\<close>

text \<open>
  \<^item> \<open>quote\<close> is the encoder's string quoting with HTML escaping (invalid UTF-8 becomes the escape of
    U+FFFD); \<open>marshal_record\<close> is \<^verbatim>\<open>json.Marshal\<close> of a \<open>LogRecord\<close>, which fails exactly when
    \<^verbatim>\<open>Time.MarshalJSON\<close> does (year or zone out of range).
  \<^item> \<open>p_value\<close> is the JSON grammar with the library's nesting limit. A result distinguishes a
    complete value, a syntax error, and input that ended inside the value (\<open>PMore\<close>), because the
    streaming decoder of the HTTP handler reports a read error only in the last case. The fuel
    bounds the recursion; \<open>p_value_fuel\<close> shows that twice the length of the input plus one is
    always enough, so \<open>PFuel\<close> never arises from \<open>parse_json\<close>.
  \<^item> \<open>decode_record\<close> and \<open>decode_records\<close> are the decoder's assignment of a parsed value to a
    \<open>LogRecord\<close> and to a slice of them: keys match case-insensitively, unknown keys are skipped,
    null leaves a field alone, a value of the wrong type is an error.
  The main result is \<open>unmarshal_marshal\<close>: decoding an encoded record gives the record back, its
  strings made valid UTF-8.
\<close>

abbreviation dquote :: char where "dquote \<equiv> CHR 0x22"
abbreviation bslash :: char where "bslash \<equiv> CHR 0x5C"
abbreviation newline :: char where "newline \<equiv> CHR 0x0A"

subsection \<open>Encoding\<close>

definition hexdig :: "nat \<Rightarrow> char" where
  "hexdig n = (if n < 10 then bc (48 + n) else bc (87 + n))"

definition esc_ascii :: "char \<Rightarrow> string" where
  "esc_ascii c =
     (if c = dquote \<or> c = bslash then [bslash, c]
      else if bv c = 8 then [bslash, CHR ''b''] else if bv c = 12 then [bslash, CHR ''f'']
      else if bv c = 10 then [bslash, CHR ''n''] else if bv c = 13 then [bslash, CHR ''r'']
      else if bv c = 9 then [bslash, CHR ''t'']
      else if bv c < 32 \<or> c = CHR ''<'' \<or> c = CHR ''>'' \<or> c = CHR ''&''
        then bslash # ''u00'' @ [hexdig (bv c div 16), hexdig (bv c mod 16)]
      else [c])"

definition quote_chunk :: "string \<Rightarrow> string" where
  "quote_chunk ch =
     (case ch of
        [c] \<Rightarrow> if bv c < 128 then esc_ascii c else bslash # ''ufffd''
      | _ \<Rightarrow> if fst (decode_rune ch) = 8232 then bslash # ''u2028''
             else if fst (decode_rune ch) = 8233 then bslash # ''u2029'' else ch)"

definition quote_body :: "string \<Rightarrow> string" where
  "quote_body s = concat (map quote_chunk (chunks s))"

definition quote :: "string \<Rightarrow> string" where
  "quote s = dquote # quote_body s @ [dquote]"

definition marshal_time :: "gotime \<Rightarrow> string option" where
  "marshal_time t =
     (if Year t < 0 \<or> 9999 < Year t \<or> 24 \<le> \<bar>t_off t\<bar> div 3600 then None
      else Some (dquote # format_rfc3339nano t @ [dquote]))"

definition marshal_record :: "LogRecord \<Rightarrow> string option" where
  "marshal_record r =
     (case marshal_time (Timestamp r) of
        None \<Rightarrow> None
      | Some ts \<Rightarrow> Some (CHR ''{'' # quote ''timestamp'' @ '':'' @ ts @ '','' @ quote ''path'' @ '':'' @ quote (Path r)
                    @ '','' @ quote ''userAgent'' @ '':'' @ quote (UserAgent r) @ ''}''))"

definition marshal_err :: goerr where
  "marshal_err = ErrMsg ''json: error calling MarshalJSON for type time.Time: year outside of range [0,9999]''"

subsection \<open>Grammar\<close>

datatype json = JNull | JBool bool | JNum string | JStr string | JArr "json list" | JObj "(string \<times> json) list"

datatype 'a pres = POk 'a string | PBad | PMore | PFuel

fun pmap :: "('a \<Rightarrow> 'b) \<Rightarrow> 'a pres \<Rightarrow> 'b pres" where
  "pmap f (POk v r) = POk (f v) r"
| "pmap f PBad = PBad"
| "pmap f PMore = PMore"
| "pmap f PFuel = PFuel"

definition json_ws :: "char \<Rightarrow> bool" where
  "json_ws c \<longleftrightarrow> c = CHR '' '' \<or> bv c = 9 \<or> bv c = 10 \<or> bv c = 13"

definition skip_ws :: "string \<Rightarrow> string" where
  "skip_ws s = dropWhile json_ws s"

definition is_hex :: "char \<Rightarrow> bool" where
  "is_hex c \<longleftrightarrow> is_digit c \<or> (97 \<le> bv c \<and> bv c \<le> 102) \<or> (65 \<le> bv c \<and> bv c \<le> 70)"

definition simple_esc :: "char \<Rightarrow> bool" where
  "simple_esc c \<longleftrightarrow> c \<in> set (dquote # bslash # ''/bfnrt'')"

fun scan_hex :: "nat \<Rightarrow> string \<Rightarrow> string pres" where
  "scan_hex 0 s = POk [] s"
| "scan_hex (Suc n) [] = PMore"
| "scan_hex (Suc n) (c # s) = (if is_hex c then pmap ((#) c) (scan_hex n s) else PBad)"

lemma scan_hex_length: "scan_hex n s = POk h r \<Longrightarrow> length r \<le> length s"
  by (induction n s arbitrary: h r rule: scan_hex.induct) (fastforce split: if_splits elim: pmap.elims)+

function scan_str :: "string \<Rightarrow> string pres" where
  "scan_str [] = PMore"
| "scan_str (c # r) =
     (if c = dquote then POk [] r
      else if c = bslash then
        (case r of
           [] \<Rightarrow> PMore
         | e # r' \<Rightarrow>
             if simple_esc e then pmap (\<lambda>b. c # e # b) (scan_str r')
             else if e = CHR ''u'' then
               (case scan_hex 4 r' of
                  POk h r'' \<Rightarrow> pmap (\<lambda>b. c # e # h @ b) (scan_str r'')
                | PMore \<Rightarrow> PMore | _ \<Rightarrow> PBad)
             else PBad)
      else if bv c < 32 then PBad
      else pmap ((#) c) (scan_str r))"
  by pat_completeness auto
termination
  by (relation "measure length") (auto dest: scan_hex_length)

declare scan_str.simps(2) [simp del]

fun p_lit :: "string \<Rightarrow> 'a \<Rightarrow> string \<Rightarrow> 'a pres" where
  "p_lit [] v s = POk v s"
| "p_lit (c # l) v [] = PMore"
| "p_lit (c # l) v (d # s) = (if c = d then p_lit l v s else PBad)"

definition scan_digits :: "string \<Rightarrow> string pres" where
  "scan_digits s =
     (case s of
        [] \<Rightarrow> PMore
      | c # _ \<Rightarrow> if is_digit c then POk (takeWhile is_digit s) (dropWhile is_digit s) else PBad)"

definition scan_int :: "string \<Rightarrow> string pres" where
  "scan_int s =
     (case s of c # r \<Rightarrow> if c = CHR ''0'' then POk [c] r else scan_digits s | [] \<Rightarrow> PMore)"

definition scan_fraction :: "string \<Rightarrow> string pres" where
  "scan_fraction s =
     (case s of c # r \<Rightarrow> if c = CHR ''.'' then pmap ((#) c) (scan_digits r) else POk [] s | [] \<Rightarrow> POk [] [])"

definition scan_exponent :: "string \<Rightarrow> string pres" where
  "scan_exponent s =
     (case s of
        c # r \<Rightarrow>
          if c = CHR ''e'' \<or> c = CHR ''E'' then
            (case r of
               d # r' \<Rightarrow> if d = CHR ''+'' \<or> d = CHR ''-'' then pmap (\<lambda>x. c # d # x) (scan_digits r')
                         else pmap ((#) c) (scan_digits r)
             | [] \<Rightarrow> PMore)
          else POk [] s
      | [] \<Rightarrow> POk [] [])"

fun pbind :: "'a pres \<Rightarrow> ('a \<Rightarrow> string \<Rightarrow> 'b pres) \<Rightarrow> 'b pres" where
  "pbind (POk v r) f = f v r"
| "pbind PBad f = PBad"
| "pbind PMore f = PMore"
| "pbind PFuel f = PFuel"

definition p_num :: "string \<Rightarrow> json pres" where
  "p_num s =
     (let (sign, s0) = (case s of c # r \<Rightarrow> if c = CHR ''-'' then ([c], r) else ([], s) | [] \<Rightarrow> ([], []))
      in pbind (scan_int s0) (\<lambda>i s1.
         pbind (scan_fraction s1) (\<lambda>f s2.
         pmap (\<lambda>e. JNum (sign @ i @ f @ e)) (scan_exponent s2))))"

definition p_open :: "char \<Rightarrow> (string \<Rightarrow> 'a list pres) \<Rightarrow> string \<Rightarrow> 'a list pres" where
  "p_open close cont r =
     (case skip_ws r of
        [] \<Rightarrow> PMore
      | c # r' \<Rightarrow> if c = close then POk [] r' else cont (c # r'))"

definition p_next :: "char \<Rightarrow> 'a \<Rightarrow> (string \<Rightarrow> 'a list pres) \<Rightarrow> string \<Rightarrow> 'a list pres" where
  "p_next close v cont r =
     (case skip_ws r of
        [] \<Rightarrow> PMore
      | c # r' \<Rightarrow> if c = CHR '','' then pmap ((#) v) (cont r')
                  else if c = close then POk [v] r' else PBad)"

definition p_colon :: "string \<Rightarrow> string \<Rightarrow> string pres" where
  "p_colon k r = (case skip_ws r of [] \<Rightarrow> PMore | c # r' \<Rightarrow> if c = CHR '':'' then POk k r' else PBad)"

definition p_key :: "string \<Rightarrow> string pres" where
  "p_key s =
     (case skip_ws s of
        [] \<Rightarrow> PMore
      | q # r \<Rightarrow> if q = dquote then pbind (scan_str r) p_colon else PBad)"

fun p_value :: "nat \<Rightarrow> nat \<Rightarrow> string \<Rightarrow> json pres"
and p_elems :: "nat \<Rightarrow> nat \<Rightarrow> string \<Rightarrow> json list pres"
and p_members :: "nat \<Rightarrow> nat \<Rightarrow> string \<Rightarrow> (string \<times> json) list pres" where
  "p_value 0 d s = PFuel"
| "p_value (Suc n) d s =
     (case skip_ws s of
        [] \<Rightarrow> PMore
      | c # r \<Rightarrow>
          if c = CHR ''{'' then
            (if d = 0 then PBad else pmap JObj (p_open (CHR ''}'') (p_members n (d - 1)) r))
          else if c = CHR ''['' then
            (if d = 0 then PBad else pmap JArr (p_open (CHR '']'') (p_elems n (d - 1)) r))
          else if c = dquote then pmap JStr (scan_str r)
          else if c = CHR ''t'' then p_lit ''rue'' (JBool True) r
          else if c = CHR ''f'' then p_lit ''alse'' (JBool False) r
          else if c = CHR ''n'' then p_lit ''ull'' JNull r
          else p_num (c # r))"
| "p_elems 0 d s = PFuel"
| "p_elems (Suc n) d s = pbind (p_value n d s) (\<lambda>v. p_next (CHR '']'') v (p_elems n d))"
| "p_members 0 d s = PFuel"
| "p_members (Suc n) d s =
     pbind (p_key s) (\<lambda>k r. pbind (p_value n d r) (\<lambda>v. p_next (CHR ''}'') (k, v) (p_members n d)))"

definition max_depth :: nat where
  "max_depth = 10000"

definition parse_json :: "string \<Rightarrow> json pres" where
  "parse_json s = p_value (2 * length s + 1) max_depth s"

subsection \<open>Decoding\<close>

definition hexval :: "char \<Rightarrow> nat" where
  "hexval c = (if is_digit c then dval c else if 97 \<le> bv c then bv c - 87 else bv c - 55)"

definition hex4 :: "string \<Rightarrow> nat" where
  "hex4 h = foldl (\<lambda>a c. 16 * a + hexval c) 0 h"

definition unesc :: "char \<Rightarrow> char" where
  "unesc e =
     (if e = CHR ''b'' then bc 8 else if e = CHR ''f'' then bc 12 else if e = CHR ''n'' then bc 10
      else if e = CHR ''r'' then bc 13 else if e = CHR ''t'' then bc 9 else e)"

definition bad_utf8 :: string where
  "bad_utf8 = encode_rune rune_error"

definition low_pair :: "string \<Rightarrow> nat option" where
  "low_pair s =
     (case s of
        b # u # r \<Rightarrow>
          if b = bslash \<and> u = CHR ''u'' \<and> 4 \<le> length r \<and> list_all is_hex (take 4 r)
             \<and> 56320 \<le> hex4 (take 4 r) \<and> hex4 (take 4 r) \<le> 57343
          then Some (hex4 (take 4 r)) else None
      | _ \<Rightarrow> None)"

function unquote :: "string \<Rightarrow> string" where
  "unquote [] = []"
| "unquote (c # r) =
     (if c = bslash then
        (case r of
           [] \<Rightarrow> []
         | e # r' \<Rightarrow>
             if e = CHR ''u'' then
               (let h = hex4 (take 4 r'); r'' = drop 4 r'
                in if 55296 \<le> h \<and> h \<le> 57343 then
                     (case low_pair r'' of
                        Some l \<Rightarrow> if h \<le> 56319
                          then encode_rune (65536 + (h - 55296) * 1024 + (l - 56320)) @ unquote (drop 6 r'')
                          else bad_utf8 @ unquote r''
                      | None \<Rightarrow> bad_utf8 @ unquote r'')
                   else encode_rune h @ unquote r'')
             else unesc e # unquote r')
      else if bv c < 128 then c # unquote r
      else if snd (decode_rune (c # r)) = 1 then bad_utf8 @ unquote r
      else take (snd (decode_rune (c # r))) (c # r) @ unquote (drop (snd (decode_rune (c # r)) - 1) r))"
  by pat_completeness auto
termination
  by (relation "measure length") auto

declare unquote.simps(2) [simp del]

datatype rec_res = RecOk LogRecord | RecType LogRecord | RecAbort

definition set_field :: "string \<Rightarrow> json \<Rightarrow> LogRecord \<Rightarrow> rec_res" where
  "set_field key v rec =
     (if EqualFold key ''timestamp'' then
        (case v of
           JNull \<Rightarrow> RecOk rec
         | JStr raw \<Rightarrow> (case parse_rfc3339 raw of None \<Rightarrow> RecAbort | Some t \<Rightarrow> RecOk (rec\<lparr>Timestamp := t\<rparr>))
         | _ \<Rightarrow> RecAbort)
      else if EqualFold key ''path'' then
        (case v of JNull \<Rightarrow> RecOk rec | JStr raw \<Rightarrow> RecOk (rec\<lparr>Path := unquote raw\<rparr>) | _ \<Rightarrow> RecType rec)
      else if EqualFold key ''useragent'' then
        (case v of JNull \<Rightarrow> RecOk rec | JStr raw \<Rightarrow> RecOk (rec\<lparr>UserAgent := unquote raw\<rparr>) | _ \<Rightarrow> RecType rec)
      else RecOk rec)"

fun set_fields :: "(string \<times> json) list \<Rightarrow> LogRecord \<Rightarrow> rec_res" where
  "set_fields [] rec = RecOk rec"
| "set_fields ((k, v) # ms) rec =
     (case set_field (unquote k) v rec of
        RecOk rec' \<Rightarrow> set_fields ms rec'
      | RecType rec' \<Rightarrow> (case set_fields ms rec' of RecAbort \<Rightarrow> RecAbort | RecOk r \<Rightarrow> RecType r | RecType r \<Rightarrow> RecType r)
      | RecAbort \<Rightarrow> RecAbort)"

fun decode_record :: "json \<Rightarrow> LogRecord \<Rightarrow> rec_res" where
  "decode_record JNull rec = RecOk rec"
| "decode_record (JObj ms) rec = set_fields ms rec"
| "decode_record _ rec = RecType rec"

fun decode_elems :: "json list \<Rightarrow> LogRecord list option" where
  "decode_elems [] = Some []"
| "decode_elems (v # vs) =
     (case (decode_record v zero_record, decode_elems vs) of
        (RecOk r, Some rs) \<Rightarrow> Some (r # rs)
      | _ \<Rightarrow> None)"

fun decode_records :: "json \<Rightarrow> LogRecord list option" where
  "decode_records JNull = Some []"
| "decode_records (JArr vs) = decode_elems vs"
| "decode_records _ = None"

text \<open>\<^verbatim>\<open>json.Unmarshal(data, &rec)\<close> into a zero record.\<close>

definition unmarshal_record :: "string \<Rightarrow> LogRecord option" where
  "unmarshal_record s =
     (case parse_json s of
        POk v r \<Rightarrow> if skip_ws r = [] then (case decode_record v zero_record of RecOk rec \<Rightarrow> Some rec | _ \<Rightarrow> None) else None
      | _ \<Rightarrow> None)"

definition valid_chunk :: "string \<Rightarrow> string" where
  "valid_chunk ch = (case ch of [c] \<Rightarrow> if bv c < 128 then ch else bad_utf8 | _ \<Rightarrow> ch)"

text \<open>What survives of a string in JSON: every byte that is not part of valid UTF-8 becomes U+FFFD.\<close>

definition to_valid :: "string \<Rightarrow> string" where
  "to_valid s = concat (map valid_chunk (chunks s))"

definition valid_record :: "LogRecord \<Rightarrow> LogRecord" where
  "valid_record r = r\<lparr>Path := to_valid (Path r), UserAgent := to_valid (UserAgent r)\<rparr>"

subsection \<open>Parsing is total and ends\<close>

text \<open>\<open>pgood k p\<close>: the parse did not run out of fuel, and if it succeeded less than \<open>k\<close>
  characters are left.\<close>

fun pgood :: "nat \<Rightarrow> 'a pres \<Rightarrow> bool" where
  "pgood k (POk v r) = (length r < k)"
| "pgood k PFuel = False"
| "pgood k _ = True"

lemma pgood_pmap [simp]: "pgood k (pmap f p) = pgood k p"
  by (cases p) auto

lemma pmap_comp [simp]: "pmap f (pmap g p) = pmap (\<lambda>x. f (g x)) p"
  by (cases p) auto

lemma pgood_mono: "pgood j p \<Longrightarrow> j \<le> k \<Longrightarrow> pgood k p"
  by (cases p) auto

lemma pgood_bind:
  assumes "pgood k p" "\<And>v r. p = POk v r \<Longrightarrow> length r < k \<Longrightarrow> pgood j (f v r)"
  shows "pgood j (pbind p f)"
  using assms by (cases p) auto

lemma pgood_scan_hex: "pgood (Suc (length s)) (scan_hex n s)"
  by (induction n s rule: scan_hex.induct) (auto intro: pgood_mono)

lemma pgood_hex_str:
  assumes "\<And>h r. scan_hex 4 s = POk h r \<Longrightarrow> pgood (Suc (length r)) (f h r)"
  shows "pgood (Suc (length s)) (case scan_hex 4 s of POk h r \<Rightarrow> f h r | PMore \<Rightarrow> PMore | _ \<Rightarrow> PBad)"
  using pgood_scan_hex[of s 4] assms
  by (cases "scan_hex 4 s") (auto intro: pgood_mono)

lemma pgood_scan_str: "pgood (Suc (length s)) (scan_str s)"
proof (induction s rule: scan_str.induct)
  case (2 c r)
  have u: "pgood (Suc (length r')) (case scan_hex 4 r' of POk h r'' \<Rightarrow> pmap (\<lambda>b. c # e # h @ b) (scan_str r'')
      | PMore \<Rightarrow> PMore | _ \<Rightarrow> PBad)" if "c \<noteq> dquote" "c = bslash" "r = e # r'" "\<not> simple_esc e" "e = CHR ''u''" for e r'
    using "2.IH"(2)[OF that] by (intro pgood_hex_str) auto
  show ?case
  proof (cases "c = bslash")
    case True
    show ?thesis
    proof (cases r)
      case (Cons e r')
      have "pgood (Suc (length (c # r))) (scan_str r')" if "simple_esc e"
        using pgood_mono[OF "2.IH"(1)[OF _ True Cons that], of "Suc (length (c # r))"] True Cons by simp
      moreover have "pgood (Suc (length (c # r))) (case scan_hex 4 r' of POk h r'' \<Rightarrow> pmap (\<lambda>b. c # e # h @ b) (scan_str r'')
         | PMore \<Rightarrow> PMore | _ \<Rightarrow> PBad)" if "\<not> simple_esc e" "e = CHR ''u''"
        using pgood_mono[OF u[OF _ True Cons that], of "Suc (length (c # r))"] True Cons by simp
      ultimately show ?thesis using True Cons by (auto simp: scan_str.simps)
    qed (simp add: scan_str.simps True)
  next
    case False
    then show ?thesis
      using "2.IH"(3) by (auto simp: scan_str.simps intro: pgood_mono)
  qed
qed simp

lemma pgood_lit: "pgood (Suc (length s)) (p_lit l v s)"
  by (induction l v s rule: p_lit.induct) (auto intro: pgood_mono)

lemma pgood_digits: "pgood (length s) (scan_digits s)"
  by (auto simp: scan_digits_def length_dropWhile_le le_imp_less_Suc split: list.splits)

lemma pgood_int: "pgood (length s) (scan_int s)"
  using pgood_digits[of s] by (cases s) (auto simp: scan_int_def)

lemma pgood_fraction: "pgood (Suc (length s)) (scan_fraction s)"
  using pgood_digits[of "tl s"] by (cases s) (auto simp: scan_fraction_def intro: pgood_mono)

lemma pgood_exponent: "pgood (Suc (length s)) (scan_exponent s)"
  using pgood_digits[of "tl s"] pgood_digits[of "tl (tl s)"]
  by (cases s; cases "tl s") (auto simp: scan_exponent_def intro: pgood_mono)

lemma pgood_num: "pgood (length s) (p_num s)"
proof -
  have *: "pgood (length s0) (pbind (scan_int s0) (\<lambda>i s1. pbind (scan_fraction s1) (\<lambda>f s2.
      pmap (\<lambda>e. JNum (sign @ i @ f @ e)) (scan_exponent s2))))" for s0 sign
  proof (rule pgood_bind[OF pgood_int])
    fix i s1 :: string assume "length s1 < length s0"
    then show "pgood (length s0) (pbind (scan_fraction s1) (\<lambda>f s2. pmap (\<lambda>e. JNum (sign @ i @ f @ e)) (scan_exponent s2)))"
      by (intro pgood_bind[OF pgood_fraction]) (auto intro: pgood_mono[OF pgood_exponent])
  qed
  show ?thesis
    using *[of s "[]"] *[of "tl s" "[hd s]"] by (cases s) (auto simp: p_num_def intro: pgood_mono)
qed

lemma skip_ws_length: "length (skip_ws s) \<le> length s"
  by (simp add: skip_ws_def length_dropWhile_le)

lemma skip_ws_Cons: "skip_ws s = c # r \<Longrightarrow> length r < length s"
  using skip_ws_length[of s] by simp

lemma pgood_open:
  assumes "\<And>r'. length r' \<le> length r \<Longrightarrow> pgood (length r') (cont r')"
  shows "pgood (length r) (p_open close cont r)"
  using assms[of "skip_ws r"] skip_ws_length[of r]
  by (auto simp: p_open_def intro: pgood_mono split: list.splits)

lemma pgood_next:
  assumes "\<And>r'. length r' < length r \<Longrightarrow> pgood (length r') (cont r')"
  shows "pgood (length r) (p_next close v cont r)"
  using assms[of "tl (skip_ws r)"] skip_ws_length[of r]
  by (auto simp: p_next_def intro: pgood_mono split: list.splits)

lemma pgood_colon: "pgood (length r) (p_colon k r)"
  using skip_ws_length[of r] by (auto simp: p_colon_def split: list.splits)

lemma pgood_key: "pgood (length s) (p_key s)"
proof (cases "skip_ws s")
  case (Cons q r)
  have "pgood (length s) (pbind (scan_str r) p_colon)"
    by (rule pgood_bind[OF pgood_scan_str]) (use skip_ws_Cons[OF Cons] in \<open>auto intro: pgood_mono[OF pgood_colon]\<close>)
  then show ?thesis by (simp add: p_key_def Cons)
qed (simp add: p_key_def)

text \<open>Enough fuel: two units per character left, one more for a list of elements or members.\<close>

lemma p_good:
  "2 * length s < n \<Longrightarrow> pgood (length s) (p_value n d s)"
  "2 * length s + 1 < n \<Longrightarrow> pgood (length s) (p_elems n d s)"
  "2 * length s + 1 < n \<Longrightarrow> pgood (length s) (p_members n d s)"
proof (induction n arbitrary: d s)
  case (Suc n)
  { case 1
    show ?case
    proof (cases "skip_ws s")
      case (Cons c r)
      have r: "length r < length s" by (rule skip_ws_Cons[OF Cons])
      have "pgood (length s) (p_open cl (p_members n d') r)" "pgood (length s) (p_open cl (p_elems n d') r)" for cl d'
        by (rule pgood_mono[OF pgood_open], rule Suc.IH, use 1 r in simp_all)+
      moreover have "pgood (length s) (scan_str r)" "pgood (length s) (p_lit l v r)" "pgood (length s) (p_num (c # r))" for l and v :: json
        using r pgood_num[of "c # r"]
        by (auto intro: pgood_mono[OF pgood_scan_str] pgood_mono[OF pgood_lit] pgood_mono)
      ultimately show ?thesis by (simp add: Cons)
    qed simp
  next
    case 2
    have "pgood (length s) (p_next cl v (p_elems n d) r)" if "length r < length s" for cl v r
      by (rule pgood_mono[OF pgood_next]) (use 2 that Suc.IH(2) in auto)
    then show ?case using 2 Suc.IH(1)[of s d] by (auto intro: pgood_bind)
  next
    case 3
    have n: "pgood (length s) (p_next cl v (p_members n d) r)" if "length r < length s" for cl v r
      by (rule pgood_mono[OF pgood_next]) (use 3 that Suc.IH(3) in auto)
    have "pgood (length s) (pbind (p_value n d r) (\<lambda>v. p_next cl (k, v) (p_members n d)))" if "length r < length s" for cl k r
      by (rule pgood_bind, rule Suc.IH(1)) (use 3 that n in auto)
    then show ?case by (auto intro: pgood_bind[OF pgood_key])
  }
qed auto

lemma parse_json_total: "parse_json s \<noteq> PFuel"
proof -
  have "pgood (length s) (parse_json s)" unfolding parse_json_def by (rule p_good) simp
  then show ?thesis by auto
qed

subsection \<open>Quoting and unquoting\<close>

lemma multi_bytes:
  assumes "snd (decode_rune ch) = length ch" "1 < length ch" "c \<in> set ch"
  shows "128 \<le> bv c"
  using assms by (cases ch) (auto simp: decode_rune.simps is_cont_def split: list.splits if_splits)

lemma chunk_cases_json:
  assumes "wf_chunk ch"
  obtains (ascii) c where "ch = [c]" "bv c < 128"
    | (bad) c where "ch = [c]" "128 \<le> bv c" "quote_chunk ch = bslash # ''ufffd''" "valid_chunk ch = bad_utf8"
    | (sep) c d ch' where "ch = c # d # ch'" "quote_chunk ch = bslash # ''u2028''" "fst (decode_rune ch) = 8232"
        "snd (decode_rune ch) = length ch"
    | (sep2) c d ch' where "ch = c # d # ch'" "quote_chunk ch = bslash # ''u2029''" "fst (decode_rune ch) = 8233"
        "snd (decode_rune ch) = length ch"
    | (multi) c d ch' where "ch = c # d # ch'" "128 \<le> bv c" "snd (decode_rune ch) = length ch" "quote_chunk ch = ch"
        "valid_chunk ch = ch"
  using assms
proof (cases rule: chunk_cases)
  case (multi c d ch')
  consider "fst (decode_rune ch) = 8232" | "fst (decode_rune ch) = 8233"
    | "fst (decode_rune ch) \<noteq> 8232" "fst (decode_rune ch) \<noteq> 8233" by blast
  then show ?thesis
    using multi by cases (rule that(3-5), auto simp: quote_chunk_def valid_chunk_def)+
qed (auto simp: quote_chunk_def valid_chunk_def intro: that)

lemma sep_digits: "x * 4096 + y * 64 + z = 8232 + k \<Longrightarrow> y \<le> 63 \<Longrightarrow> z \<le> 63 \<Longrightarrow> k < 2 \<Longrightarrow> x = 2 \<and> y = 0 \<and> z = 40 + (k::nat)"
proof -
  assume a: "x * 4096 + y * 64 + z = 8232 + k" "y \<le> 63" "z \<le> 63" "k < 2"
  then have "x \<le> 2" "2 \<le> x" by linarith+
  then have x: "x = 2" by simp
  then have "y < 1" using a by linarith
  then have "y = 0" by simp
  then show ?thesis using a(1) x by (intro conjI) simp_all
qed

lemma sep_bytes:
  assumes "decode_rune (c # d # ch) = (8232 + k, n)" "n = Suc (Suc (length ch))" "k < 2"
  shows "c # d # ch = encode_rune (8232 + k)"
proof -
  have "n \<noteq> 2"
    using assms by (auto simp: decode_rune.simps is_cont_def split: if_splits list.splits)
  moreover have "n \<noteq> 4"
    using assms by (auto simp: decode_rune.simps is_cont_def rune_error_def split: if_splits list.splits)
  ultimately obtain e where e: "ch = [e]" "224 \<le> bv c" "is_cont d" "is_cont e"
      "(bv c - 224) * 4096 + (bv d - 128) * 64 + (bv e - 128) = 8232 + k"
    using assms by (auto simp: decode_rune.simps rune_error_def split: if_splits list.splits)
  then have "bv c - 224 = 2 \<and> bv d - 128 = 0 \<and> bv e - 128 = 40 + k"
    using assms(3) unfolding is_cont_def by (intro sep_digits) auto
  then have "bv c = 226" "bv d = 128" "bv e = 168 + k"
    using e(2-4) unfolding is_cont_def by linarith+
  then have "c = bc 226" "d = bc 128" "e = bc (168 + k)" by (metis bc_bv)+
  moreover have "k = 0 \<or> k = 1" using assms(3) by auto
  ultimately show ?thesis using e(1) by (auto simp: encode_rune_def)
qed

lemma is_hex_hexdig: "n < 16 \<Longrightarrow> is_hex (hexdig n)" "n < 16 \<Longrightarrow> hexval (hexdig n) = n"
  by (auto simp: is_hex_def hexdig_def hexval_def is_digit_def dval_def bv_bc)

lemma bv_lits: "bv (CHR ''0'') = 48" "bv (CHR ''u'') = 117" "bv (CHR ''f'') = 102" "bv (CHR ''d'') = 100"
  "bv (CHR ''2'') = 50" "bv (CHR ''8'') = 56" "bv (CHR ''9'') = 57" "bv bslash = 92" "bv dquote = 34"
  by (simp_all add: bv_def)

lemma simple_esc_lits: "simple_esc (CHR ''b'')" "simple_esc (CHR ''f'')" "simple_esc (CHR ''n'')" "simple_esc (CHR ''r'')"
  "simple_esc (CHR ''t'')" "simple_esc dquote" "simple_esc bslash" "\<not> simple_esc (CHR ''u'')"
  by (simp_all add: simple_esc_def)

lemma scan_u: "list_all is_hex h \<Longrightarrow> length h = 4 \<Longrightarrow> scan_str (bslash # CHR ''u'' # h @ s) = pmap ((@) (bslash # CHR ''u'' # h)) (scan_str s)"
proof -
  assume h: "list_all is_hex h" "length h = 4"
  have "scan_hex (length h) (h @ s) = POk h s" using h(1) by (induction h) auto
  then show ?thesis using h by (cases "scan_str s") (simp_all add: scan_str.simps simple_esc_lits)
qed

lemma esc_ascii_cases:
  "esc_ascii c = bslash # CHR ''u'' # [CHR ''0'', CHR ''0'', hexdig (bv c div 16), hexdig (bv c mod 16)]
   \<or> (\<exists>e. esc_ascii c = [bslash, e] \<and> simple_esc e \<and> unesc e = c)
   \<or> (esc_ascii c = [c] \<and> c \<noteq> bslash \<and> c \<noteq> dquote \<and> 32 \<le> bv c)"
proof -
  have b: "bv d = k \<Longrightarrow> bc k = d" for d k by (metis bc_bv)
  show ?thesis by (auto simp: esc_ascii_def unesc_def simple_esc_def intro: b)
qed

lemma scan_esc_ascii: "bv c < 128 \<Longrightarrow> scan_str (esc_ascii c @ s) = pmap ((@) (esc_ascii c)) (scan_str s)"
proof -
  assume c: "bv c < 128"
  let ?h = "[CHR ''0'', CHR ''0'', hexdig (bv c div 16), hexdig (bv c mod 16)]"
  have "list_all is_hex ?h"
    using c by (auto simp: is_hex_hexdig) (auto simp: is_hex_def is_digit_def bv_lits)
  then have "scan_str ((bslash # CHR ''u'' # ?h) @ s) = pmap ((@) (bslash # CHR ''u'' # ?h)) (scan_str s)"
    using scan_u[of ?h s] by simp
  moreover have "scan_str ([bslash, e] @ s) = pmap ((@) [bslash, e]) (scan_str s)" if "simple_esc e" for e
    using that by (cases "scan_str s") (simp_all add: scan_str.simps)
  moreover have "scan_str ([c] @ s) = pmap ((@) [c]) (scan_str s)" if "c \<noteq> bslash \<and> c \<noteq> dquote \<and> 32 \<le> bv c"
    using that by (cases "scan_str s") (simp_all add: scan_str.simps)
  ultimately show ?thesis using esc_ascii_cases[of c] by metis
qed

lemma scan_high: "\<forall>c \<in> set ch. 128 \<le> bv c \<Longrightarrow> scan_str (ch @ s) = pmap ((@) ch) (scan_str s)"
proof (induction ch)
  case Nil
  show ?case by (cases "scan_str s") auto
next
  case (Cons c ch)
  then have "c \<noteq> dquote" "c \<noteq> bslash" by (auto simp: bv_def)
  with Cons show ?case by (simp add: scan_str.simps)
qed

lemma scan_chunk:
  assumes "wf_chunk ch"
  shows "scan_str (quote_chunk ch @ s) = pmap ((@) (quote_chunk ch)) (scan_str s)"
  using assms
proof (cases rule: chunk_cases_json)
  case (ascii c)
  then show ?thesis using scan_esc_ascii by (simp add: quote_chunk_def)
next
  case (multi c d ch')
  then have "\<forall>c \<in> set ch. 128 \<le> bv c" using multi_bytes[of ch] by auto
  then show ?thesis unfolding multi(4) by (rule scan_high)
qed (use scan_u[of "''fffd''" s] scan_u[of "''2028''" s] scan_u[of "''2029''" s] in
      \<open>simp_all add: is_hex_def is_digit_def bv_lits\<close>)

lemma scan_quote: "scan_str (quote_body x @ dquote # s) = POk (quote_body x) s"
proof -
  have "(\<forall>ch \<in> set chs. wf_chunk ch) \<Longrightarrow>
      scan_str (concat (map quote_chunk chs) @ dquote # s) = POk (concat (map quote_chunk chs)) s" for chs
    by (induction chs) (simp_all add: scan_str.simps scan_chunk)
  then show ?thesis using chunks_wf unfolding quote_body_def by blast
qed

lemma hex4_byte: "n < 256 \<Longrightarrow> hex4 [CHR ''0'', CHR ''0'', hexdig (n div 16), hexdig (n mod 16)] = n"
proof -
  assume "n < 256"
  then have "n div 16 < 16" "n mod 16 < 16" by simp_all
  then show ?thesis by (simp add: hex4_def is_hex_hexdig hexval_def[of "CHR ''0''"] is_digit_def dval_def bv_lits)
qed

lemma unquote_u: "length h = 4 \<Longrightarrow> hex4 h < 55296 \<or> 57343 < hex4 h \<Longrightarrow>
   unquote (bslash # CHR ''u'' # h @ s) = encode_rune (hex4 h) @ unquote s"
  by (auto simp: unquote.simps Let_def)

lemma unquote_esc_ascii: "bv c < 128 \<Longrightarrow> unquote (esc_ascii c @ s) = c # unquote s"
proof -
  assume c: "bv c < 128"
  let ?h = "[CHR ''0'', CHR ''0'', hexdig (bv c div 16), hexdig (bv c mod 16)]"
  have "encode_rune (bv c) = [c]" using c by (simp add: encode_rune_def)
  then have "unquote ((bslash # CHR ''u'' # ?h) @ s) = c # unquote s"
    using unquote_u[of ?h s] hex4_byte[of "bv c"] c by simp
  moreover have "unquote ([bslash, e] @ s) = unesc e # unquote s" if "simple_esc e" for e
    using that simple_esc_lits(8) by (auto simp: unquote.simps)
  moreover have "unquote ([c] @ s) = c # unquote s" if "c \<noteq> bslash"
    using that c by (simp add: unquote.simps)
  ultimately show ?thesis using esc_ascii_cases[of c] by metis
qed

lemma unquote_chunk:
  assumes "wf_chunk ch"
  shows "unquote (quote_chunk ch @ s) = valid_chunk ch @ unquote s"
  using assms
proof (cases rule: chunk_cases_json)
  case (ascii c)
  then show ?thesis using unquote_esc_ascii by (simp add: quote_chunk_def valid_chunk_def)
next
  case (bad c)
  have "hex4 ''fffd'' = rune_error" by (simp add: hex4_def hexval_def is_digit_def bv_lits rune_error_def dval_def)
  then show ?thesis using bad unquote_u[of "''fffd''" s] by (simp add: bad_utf8_def rune_error_def)
next
  case (sep c d ch')
  have "hex4 ''2028'' = 8232" by (simp add: hex4_def hexval_def is_digit_def bv_lits dval_def)
  moreover have "ch = encode_rune 8232"
    using sep sep_bytes[of c d ch' 0] by (metis add.right_neutral length_Cons prod.collapse zero_less_numeral)
  moreover have "valid_chunk ch = ch" by (simp add: valid_chunk_def sep(1))
  ultimately show ?thesis using unquote_u[of "''2028''" s] unfolding sep(2) by simp
next
  case (sep2 c d ch')
  have "hex4 ''2029'' = 8233" by (simp add: hex4_def hexval_def is_digit_def bv_lits dval_def)
  moreover have "ch = encode_rune 8233"
    using sep2 sep_bytes[of c d ch' 1] by (metis length_Cons one_less_numeral_iff numeral_plus_one prod.collapse semiring_norm(2,5,6,8,76))
  moreover have "valid_chunk ch = ch" by (simp add: valid_chunk_def sep2(1))
  ultimately show ?thesis using unquote_u[of "''2029''" s] unfolding sep2(2) by simp
next
  case (multi c d ch')
  have d: "decode_rune (c # d # ch' @ s) = decode_rune ch"
    using decode_rune_append[of ch s] multi by simp
  moreover have "c \<noteq> bslash" using multi(2) by (auto simp: bv_def)
  ultimately show ?thesis
    using multi by (simp add: unquote.simps(2)[of c])
qed

lemma unquote_quote: "unquote (quote_body x) = to_valid x"
proof -
  have "(\<forall>ch \<in> set chs. wf_chunk ch) \<Longrightarrow>
      unquote (concat (map quote_chunk chs)) = concat (map valid_chunk chs)" for chs
    by (induction chs) (simp_all add: unquote_chunk)
  then show ?thesis using chunks_wf unfolding quote_body_def to_valid_def by blast
qed

subsection \<open>The record round trip\<close>

definition plain_char :: "char \<Rightarrow> bool" where
  "plain_char c \<longleftrightarrow> 32 \<le> bv c \<and> bv c < 128 \<and> c \<notin> set (dquote # bslash # ''<>&'')"

lemma chunks_ascii: "\<forall>c \<in> set s. bv c < 128 \<Longrightarrow> chunks s = map (\<lambda>c. [c]) s"
proof (induction s)
  case (Cons c s)
  then show ?case by (subst chunks.simps) (simp add: decode_rune.simps)
qed (simp add: chunks.simps)

lemma quote_plain: "\<forall>c \<in> set s. plain_char c \<Longrightarrow> quote_body s = s"
  by (simp add: quote_body_def chunks_ascii plain_char_def)
    (induction s, auto simp: quote_chunk_def esc_ascii_def plain_char_def)

lemma to_valid_ascii: "\<forall>c \<in> set s. bv c < 128 \<Longrightarrow> to_valid s = s"
  by (simp add: to_valid_def chunks_ascii) (induction s, auto simp: valid_chunk_def)

lemma quote_chars: "c \<in> set (quote_body s) \<Longrightarrow> 32 \<le> bv c"
proof -
  have "32 \<le> bv c" if "wf_chunk ch" "c \<in> set (quote_chunk ch)" for ch
    using that(1)
  proof (cases rule: chunk_cases_json)
    case (ascii d)
    then show ?thesis
      using that(2) esc_ascii_cases[of d]
      by (auto simp: quote_chunk_def simple_esc_def bv_lits hexdig_def bv_bc split: if_splits) (simp_all add: bv_def)
  next
    case (multi d e ch')
    then show ?thesis using that(2) multi_bytes[of ch c] by auto
  qed (use that(2) in \<open>auto simp: bv_lits\<close>)
  moreover assume "c \<in> set (quote_body s)"
  ultimately show ?thesis using chunks_wf by (auto simp: quote_body_def)
qed

lemma plain_digit: "is_digit c \<Longrightarrow> plain_char c"
  by (auto simp: is_digit_def plain_char_def bv_def)

lemma plain_show_int_pad: "c \<in> set (show_int_pad w i) \<Longrightarrow> plain_char c"
  using show_int_pad_chars[of c w i] plain_digit by (auto simp: plain_char_def bv_def)

lemma plain_frac: "c \<in> set (format_frac ns) \<Longrightarrow> plain_char c"
proof -
  assume c: "c \<in> set (format_frac ns)"
  let ?p = "pad_left 9 (show_nat ns)"
  have "c = CHR ''.'' \<or> c \<in> set (dropWhile (\<lambda>c. c = CHR ''0'') (rev ?p))"
    using c unfolding format_frac_def by (cases "ns = 0") auto
  then have "c = CHR ''.'' \<or> c \<in> set ?p" using set_dropWhileD[of c _ "rev ?p"] by auto
  then show ?thesis using digits_pad[of c 9 ns] plain_digit[of c] by (auto simp: plain_char_def bv_def)
qed

lemma plain_lits: "plain_char (CHR ''-'')" "plain_char (CHR '':'')" "plain_char (CHR ''T'')" "plain_char (CHR ''Z'')"
  "plain_char (CHR ''+'')"
  by (simp_all add: plain_char_def bv_def)

lemma plain_rfc3339nano: "list_all plain_char (format_rfc3339nano t)"
proof -
  have p: "list_all plain_char (show_int_pad w i)" for w i using plain_show_int_pad by (auto simp: list_all_iff)
  have "list_all plain_char (format_frac (t_nsec t))" using plain_frac by (auto simp: list_all_iff)
  moreover have "list_all plain_char (format_date t)"
    by (cases "civil_of_days (day_of t)") (simp add: format_date_def p plain_lits)
  moreover have "list_all plain_char (format_clock t)" "list_all plain_char (format_zone t)"
    unfolding format_clock_def format_zone_def Let_def
    by (simp_all only: list_all_append p plain_lits list.pred_inject split: if_split) simp_all
  ultimately show ?thesis by (simp add: format_rfc3339nano_def plain_lits)
qed

lemma marshal_time_quote:
  "marshal_time t = Some s \<Longrightarrow> s = quote (format_rfc3339nano t) \<and> quote_body (format_rfc3339nano t) = format_rfc3339nano t"
  using quote_plain[of "format_rfc3339nano t"] plain_rfc3339nano[of t]
  by (auto simp: marshal_time_def quote_def list_all_iff split: if_splits)

lemma skip_ws_plain: "\<not> json_ws c \<Longrightarrow> skip_ws (c # s) = c # s"
  by (simp add: skip_ws_def)

lemma json_ws_lits [simp]: "\<not> json_ws dquote" "\<not> json_ws (CHR '':'')" "\<not> json_ws (CHR '','')" "\<not> json_ws (CHR ''{'')" "\<not> json_ws (CHR ''}'')"
  by (simp_all add: json_ws_def bv_def)

lemma p_member_str:
  "p_members (Suc (Suc n)) d (quote k @ CHR '':'' # quote v @ s) =
     p_next (CHR ''}'') (quote_body k, JStr (quote_body v)) (p_members (Suc n) d) s"
  using scan_quote by (simp add: p_key_def p_colon_def quote_def skip_ws_plain)

lemma p_next_lits: "p_next cl v k (CHR '','' # s) = pmap ((#) v) (k s)" "p_next (CHR ''}'') v k (CHR ''}'' # s) = POk [v] s"
  by (simp_all add: p_next_def skip_ws_plain)

lemma p_record:
  "p_value (Suc (Suc (Suc (Suc (Suc n))))) (Suc d)
     (CHR ''{'' # quote a @ CHR '':'' # quote x @ CHR '','' # quote b @ CHR '':'' # quote y @ CHR '','' # quote c @ CHR '':'' # quote z @ [CHR ''}'']) =
   POk (JObj [(quote_body a, JStr (quote_body x)), (quote_body b, JStr (quote_body y)), (quote_body c, JStr (quote_body z))]) []"
proof -
  have q: "quote k @ s = dquote # quote_body k @ dquote # s" for k s by (simp add: quote_def)
  have o: "p_open (CHR ''}'') f (quote k @ s) = f (quote k @ s)" for f :: "string \<Rightarrow> (string \<times> json) list pres" and k s
    by (simp add: p_open_def q skip_ws_plain)
  show ?thesis
    unfolding p_value.simps(2)[of "Suc (Suc (Suc (Suc n)))"]
    by (simp add: skip_ws_plain o p_member_str p_next_lits del: p_members.simps p_value.simps)
qed

lemma field_names:
  "EqualFold ''timestamp'' ''timestamp''" "\<not> EqualFold ''path'' ''timestamp''" "\<not> EqualFold ''userAgent'' ''timestamp''"
  "EqualFold ''path'' ''path''" "\<not> EqualFold ''userAgent'' ''path''" "EqualFold ''userAgent'' ''useragent''"
  by code_simp+

lemma unquote_names: "unquote (quote_body ''timestamp'') = ''timestamp''" "unquote (quote_body ''path'') = ''path''"
  "unquote (quote_body ''userAgent'') = ''userAgent''"
  by (simp_all add: unquote_quote to_valid_ascii bv_def)

lemma unmarshal_marshal:
  assumes "marshal_record r = Some s" "t_off (Timestamp r) = 0" "wf_time (Timestamp r)"
  shows "unmarshal_record s = Some (valid_record r)"
proof -
  let ?f = "format_rfc3339nano (Timestamp r)"
  obtain ts where ts: "marshal_time (Timestamp r) = Some ts"
    using assms(1) by (auto simp: marshal_record_def split: option.splits)
  have q: "ts = quote ?f" "quote_body ?f = ?f" using marshal_time_quote[OF ts] by simp_all
  have y: "0 \<le> Year (Timestamp r)" "Year (Timestamp r) \<le> 9999"
    using ts by (simp_all add: marshal_time_def split: if_splits)
  have s: "s = CHR ''{'' # quote ''timestamp'' @ CHR '':'' # quote ?f @ CHR '','' # quote ''path'' @ CHR '':'' # quote (Path r)
      @ CHR '','' # quote ''userAgent'' @ CHR '':'' # quote (UserAgent r) @ [CHR ''}'']"
    using assms(1) ts q by (simp add: marshal_record_def)
  have len: "5 \<le> length s" unfolding s by (simp add: quote_def)
  define n where "n = 2 * length s - 4"
  have n: "2 * length s + 1 = Suc (Suc (Suc (Suc (Suc n))))" using len by (simp add: n_def)
  have "parse_json s = POk (JObj [(quote_body ''timestamp'', JStr ?f), (quote_body ''path'', JStr (quote_body (Path r))),
      (quote_body ''userAgent'', JStr (quote_body (UserAgent r)))]) []"
    unfolding parse_json_def n max_depth_def
    using p_record[of n 9999] q(2) by (simp add: s numeral_eq_Suc)
  moreover have "parse_rfc3339 ?f = Some (Timestamp r)" using y assms(2,3) by (rule parse_rfc3339_format)
  ultimately show ?thesis
    by (simp add: unmarshal_record_def skip_ws_def set_field_def unquote_names field_names unquote_quote[of "Path r"]
        unquote_quote[of "UserAgent r"] valid_record_def zero_record_def
        del: EqualFold.simps)
qed

lemma marshal_no_newline: "marshal_record r = Some s \<Longrightarrow> newline \<notin> set s"
proof -
  assume m: "marshal_record r = Some s"
  then obtain ts where ts: "marshal_time (Timestamp r) = Some ts"
    by (auto simp: marshal_record_def split: option.splits)
  then have "ts = quote (format_rfc3339nano (Timestamp r))" by (simp add: marshal_time_quote)
  moreover have "newline \<notin> set (quote x)" for x
    using quote_chars[of newline x] by (auto simp: quote_def bv_def)
  ultimately show ?thesis using m ts by (auto simp: marshal_record_def)
qed

lemma marshal_record_None: "marshal_record r = None \<longleftrightarrow> marshal_time (Timestamp r) = None"
  by (simp add: marshal_record_def split: option.splits)

subsection \<open>Indented output\<close>

text \<open>\<^verbatim>\<open>json.MarshalIndent(v, "", "  ")\<close>: an object or array at nesting level \<open>n\<close>, given its rendered
  parts; an empty one stays on one line.\<close>

definition indent :: "nat \<Rightarrow> string" where
  "indent n = concat (replicate n ''  '')"

fun join_lines :: "string list \<Rightarrow> string" where
  "join_lines [] = []"
| "join_lines [x] = x"
| "join_lines (x # y # xs) = x @ CHR '','' # newline # join_lines (y # xs)"

definition json_block :: "nat \<Rightarrow> string \<Rightarrow> string \<Rightarrow> string list \<Rightarrow> string" where
  "json_block n opn cls items =
     (if items = [] then opn @ cls
      else opn @ [newline] @ join_lines (map (\<lambda>s. indent (Suc n) @ s) items) @ [newline] @ indent n @ cls)"

definition json_object :: "nat \<Rightarrow> (string \<times> string) list \<Rightarrow> string" where
  "json_object n ms = json_block n ''{'' ''}'' (map (\<lambda>(k, v). quote k @ '': '' @ v) ms)"

definition json_array :: "nat \<Rightarrow> string list \<Rightarrow> string" where
  "json_array n vs = json_block n ''['' '']'' vs"

definition record_indented :: "nat \<Rightarrow> LogRecord \<Rightarrow> string option" where
  "record_indented n r =
     (case marshal_time (Timestamp r) of
        None \<Rightarrow> None
      | Some ts \<Rightarrow> Some (json_object n [(''timestamp'', ts), (''path'', quote (Path r)), (''userAgent'', quote (UserAgent r))]))"

fun all_some :: "'a option list \<Rightarrow> 'a list option" where
  "all_some [] = Some []"
| "all_some (None # xs) = None"
| "all_some (Some x # xs) = map_option ((#) x) (all_some xs)"

lemma all_some_None_iff: "all_some xs = None \<longleftrightarrow> None \<in> set xs"
  by (induction xs rule: all_some.induct) auto

lemma record_indented_None: "record_indented n r = None \<longleftrightarrow> marshal_record r = None"
  by (simp add: record_indented_def marshal_record_def split: option.splits)

subsection \<open>Code equations\<close>

text \<open>As in \<open>Go_Strings\<close>: equations that let the simplifier evaluate closed terms without unary arithmetic.\<close>

lemma esc_ascii_code [code]:
  "esc_ascii c =
     (if c = dquote \<or> c = bslash then [bslash, c]
      else if c = CHR 0x08 then [bslash, CHR ''b''] else if c = CHR 0x0C then [bslash, CHR ''f'']
      else if c = CHR 0x0A then [bslash, CHR ''n''] else if c = CHR 0x0D then [bslash, CHR ''r'']
      else if c = CHR 0x09 then [bslash, CHR ''t'']
      else if \<not> digit5 c \<and> \<not> digit6 c \<and> \<not> digit7 c \<or> c = CHR ''<'' \<or> c = CHR ''>'' \<or> c = CHR ''&''
        then bslash # ''u00'' @ [hexdig (bv c div 16), hexdig (bv c mod 16)]
      else [c])"
proof -
  have "bv c = 8 \<longleftrightarrow> c = CHR 0x08" "bv c = 12 \<longleftrightarrow> c = CHR 0x0C" "bv c = 10 \<longleftrightarrow> c = CHR 0x0A"
    "bv c = 13 \<longleftrightarrow> c = CHR 0x0D" "bv c = 9 \<longleftrightarrow> c = CHR 0x09"
    by (cases c; simp add: bv_def)+
  then show ?thesis by (simp only: esc_ascii_def control_digits)
qed

lemma quote_chunk_code [code]:
  "quote_chunk [] = []"
  "quote_chunk [c] = (if \<not> digit7 c then esc_ascii c else bslash # ''ufffd'')"
  "quote_chunk (a # b # ch) =
     (if fst (decode_rune (a # b # ch)) = 8232 then bslash # ''u2028''
      else if fst (decode_rune (a # b # ch)) = 8233 then bslash # ''u2029'' else a # b # ch)"
  by (simp_all add: quote_chunk_def ascii_digit7 rune_error_def)

end
