(* ===== verification/Go_Io.thy ===== *)
theory Go_Io
  imports Go_Json "HOL-Library.Sublist"
begin

section \<open>Files and line scanning\<close>

text \<open>
  The part of \<^verbatim>\<open>os\<close> and \<^verbatim>\<open>bufio\<close> the program uses. A file system is the list of its
  files (content and modification time) and of its directories, by cleaned path. What the operating
  system answers is the record \<open>os_env\<close>, an argument of every operation: the error of a
  \<^verbatim>\<open>MkdirAll\<close>, \<^verbatim>\<open>Stat\<close> or open of a path, the result of the \<open>k\<close>-th write on a handle
  (\<open>None\<close>: complete; \<open>Some (n, e)\<close>: \<open>n\<close> bytes and the error \<open>e\<close>), the point at which reading a
  file breaks off (\<open>None\<close>: never; \<open>Some (n, e)\<close>: after \<open>n\<close> bytes with the error \<open>e\<close>) and the clock
  for modification times. Opening for writing fails with ENOENT when the directory is missing.
  Of \<^verbatim>\<open>MkdirAll\<close> only the directory itself is recorded: the code never asks for its ancestors.

  \<open>scan_lines\<close> is \<^verbatim>\<open>bufio.Scanner\<close> with \<^verbatim>\<open>ScanLines\<close> and a buffer of \<open>mx\<close> bytes:
  a line with its newline has to fit into the buffer, a line that does not ends the scan with
  \<open>ErrTooLong\<close>; a trailing carriage return is dropped; an empty rest at the end of the input is no
  line. \<open>scan_handle\<close> is the scan of an open file: when a read fails, the scanner still returns the lines of
  the bytes it has, the last one cut off, and then reports that error, unless a line was too long before.
\<close>

record fdata =
  fcontent :: string
  fmtime :: int

record fsys =
  fs_files :: "(string \<times> fdata) list"
  fs_dirs :: "string list"

record os_env =
  mkdir_err :: "string \<Rightarrow> goerr option"
  stat_err :: "string \<Rightarrow> goerr option"
  open_err :: "string \<Rightarrow> goerr option"
  write_out :: "string \<Rightarrow> nat \<Rightarrow> (nat \<times> goerr) option"
  read_err :: "string \<Rightarrow> (nat \<times> goerr) option"
  clock :: int

definition os_fine :: "int \<Rightarrow> os_env" where
  "os_fine now = \<lparr>mkdir_err = (\<lambda>_. None), stat_err = (\<lambda>_. None), open_err = (\<lambda>_. None),
     write_out = (\<lambda>_ _. None), read_err = (\<lambda>_. None), clock = now\<rparr>"

definition ENOENT :: goerr where
  "ENOENT = OsErr True ''no such file or directory''"

fun IsNotExist :: "goerr \<Rightarrow> bool" where
  "IsNotExist (OsErr ne _) = ne"
| "IsNotExist _ = False"

definition fs_file :: "fsys \<Rightarrow> string \<Rightarrow> fdata option" where
  "fs_file fs p = alookup (fs_files fs) p"

definition fs_content :: "fsys \<Rightarrow> string \<Rightarrow> string" where
  "fs_content fs p = (case fs_file fs p of None \<Rightarrow> [] | Some f \<Rightarrow> fcontent f)"

definition fs_put :: "string \<Rightarrow> string \<Rightarrow> int \<Rightarrow> fsys \<Rightarrow> fsys" where
  "fs_put p s now fs = fs\<lparr>fs_files := aset p \<lparr>fcontent = s, fmtime = now\<rparr> (fs_files fs)\<rparr>"

definition MkdirAll :: "os_env \<Rightarrow> string \<Rightarrow> fsys \<Rightarrow> fsys \<times> goerr option" where
  "MkdirAll os p fs =
     (case mkdir_err os p of
        Some e \<Rightarrow> (fs, Some e)
      | None \<Rightarrow> (fs\<lparr>fs_dirs := List.insert p (fs_dirs fs)\<rparr>, None))"

definition Stat :: "os_env \<Rightarrow> string \<Rightarrow> fsys \<Rightarrow> int result" where
  "Stat os p fs =
     (case stat_err os p of
        Some e \<Rightarrow> Inl e
      | None \<Rightarrow> (case fs_file fs p of None \<Rightarrow> Inl ENOENT | Some f \<Rightarrow> Inr (fmtime f)))"

definition Open :: "os_env \<Rightarrow> string \<Rightarrow> fsys \<Rightarrow> string result" where
  "Open os p fs =
     (case open_err os p of
        Some e \<Rightarrow> Inl e
      | None \<Rightarrow> (case fs_file fs p of None \<Rightarrow> Inl ENOENT | Some f \<Rightarrow> Inr (fcontent f)))"

text \<open>\<^verbatim>\<open>OpenFile(p, O_CREATE|O_WRONLY|O_APPEND)\<close>: the file is created when it is missing.\<close>

definition OpenAppend :: "os_env \<Rightarrow> string \<Rightarrow> fsys \<Rightarrow> fsys \<times> goerr option" where
  "OpenAppend os p fs =
     (case open_err os p of
        Some e \<Rightarrow> (fs, Some e)
      | None \<Rightarrow>
          if Dir p \<notin> set (fs_dirs fs) then (fs, Some ENOENT)
          else (case fs_file fs p of None \<Rightarrow> (fs_put p [] (clock os) fs, None) | Some _ \<Rightarrow> (fs, None)))"

text \<open>The \<open>k\<close>-th \<^verbatim>\<open>Write\<close> on a handle opened for appending.\<close>

definition WriteAppend :: "os_env \<Rightarrow> string \<Rightarrow> nat \<Rightarrow> string \<Rightarrow> fsys \<Rightarrow> fsys \<times> goerr option" where
  "WriteAppend os p k bs fs =
     (case write_out os p k of
        None \<Rightarrow> (fs_put p (fs_content fs p @ bs) (clock os) fs, None)
      | Some (n, e) \<Rightarrow> (fs_put p (fs_content fs p @ take n bs) (clock os) fs, Some e))"

text \<open>\<^verbatim>\<open>os.WriteFile\<close>: truncate or create, then one write.\<close>

definition WriteFile :: "os_env \<Rightarrow> string \<Rightarrow> string \<Rightarrow> fsys \<Rightarrow> fsys \<times> goerr option" where
  "WriteFile os p bs fs =
     (case open_err os p of
        Some e \<Rightarrow> (fs, Some e)
      | None \<Rightarrow>
          if Dir p \<notin> set (fs_dirs fs) then (fs, Some ENOENT)
          else (case write_out os p 0 of
                  None \<Rightarrow> (fs_put p bs (clock os) fs, None)
                | Some (n, e) \<Rightarrow> (fs_put p (take n bs) (clock os) fs, Some e)))"

subsection \<open>bufio.Scanner\<close>

definition drop_cr :: "string \<Rightarrow> string" where
  "drop_cr l = (if l \<noteq> [] \<and> last l = CHR 0x0D then butlast l else l)"

definition raw_lines :: "string \<Rightarrow> string list" where
  "raw_lines s = (let ls = split_on newline s in if last ls = [] then butlast ls else ls)"

fun scan_tokens :: "int \<Rightarrow> string list \<Rightarrow> string list \<times> goerr option" where
  "scan_tokens mx [] = ([], None)"
| "scan_tokens mx (l # ls) =
     (if int (length l) < mx then (case scan_tokens mx ls of (ts, e) \<Rightarrow> (drop_cr l # ts, e))
      else ([], Some ErrTooLong))"

definition scan_lines :: "int \<Rightarrow> string \<Rightarrow> string list \<times> goerr option" where
  "scan_lines mx s = scan_tokens mx (raw_lines s)"

definition scan_handle :: "int \<Rightarrow> os_env \<Rightarrow> string \<Rightarrow> string \<Rightarrow> string list \<times> goerr option" where
  "scan_handle mx os p s =
     (case read_err os p of
        None \<Rightarrow> scan_lines mx s
      | Some (n, e) \<Rightarrow>
          (case scan_lines mx (take n s) of
             (tokens, None) \<Rightarrow> (tokens, Some e)
           | (tokens, Some long) \<Rightarrow> (tokens, Some long)))"

subsection \<open>NDJSON content\<close>

text \<open>The lines of a file that are complete, and the records they hold; \<open>ends_line s\<close>: the next
  append starts a new line.\<close>

definition ends_line :: "string \<Rightarrow> bool" where
  "ends_line s \<longleftrightarrow> s = [] \<or> last s = newline"

definition complete_lines :: "string \<Rightarrow> string list" where
  "complete_lines s = butlast (split_on newline s)"

definition line_records :: "string list \<Rightarrow> LogRecord list" where
  "line_records ls = List.map_filter unmarshal_record ls"

definition file_records :: "string \<Rightarrow> LogRecord list" where
  "file_records s = line_records (complete_lines s)"

subsection \<open>Lemmas\<close>

lemma fs_file_put [simp]: "fs_file (fs_put p s now fs) q = (if p = q then Some \<lparr>fcontent = s, fmtime = now\<rparr> else fs_file fs q)"
  by (simp add: fs_file_def fs_put_def)

lemma fs_content_put [simp]: "fs_content (fs_put p s now fs) q = (if p = q then s else fs_content fs q)"
  by (simp add: fs_content_def)

lemma fs_dirs_put [simp]: "fs_dirs (fs_put p s now fs) = fs_dirs fs"
  by (simp add: fs_put_def)

lemma fs_file_dirs [simp]: "fs_file (fs\<lparr>fs_dirs := ds\<rparr>) q = fs_file fs q"
  by (simp add: fs_file_def)

lemma fs_content_dirs [simp]: "fs_content (fs\<lparr>fs_dirs := ds\<rparr>) q = fs_content fs q"
  by (simp add: fs_content_def)

lemma ends_line_Nil [simp]: "ends_line []"
  by (simp add: ends_line_def)

lemma ends_line_snoc [simp]: "ends_line (s @ [newline])"
  by (simp add: ends_line_def)

lemma ends_line_append: "ends_line s \<Longrightarrow> ends_line t \<Longrightarrow> ends_line (s @ t)"
  by (cases "t = []") (auto simp: ends_line_def)

lemma complete_lines_Nil [simp]: "complete_lines [] = []"
  by (simp add: complete_lines_def)

lemma ends_lineE:
  assumes "ends_line s"
  obtains "s = []" | t where "s = t @ [newline]"
  using assms by (metis append_butlast_last_id ends_line_def)

lemma complete_lines_snoc: "complete_lines (t @ [newline]) = split_on newline t"
  by (simp add: complete_lines_def split_on_append_sep)

lemma complete_lines_append:
  assumes "ends_line s"
  shows "complete_lines (s @ t) = complete_lines s @ complete_lines t"
  using assms
proof (cases rule: ends_lineE)
  case (2 u)
  then show ?thesis by (simp add: complete_lines_def split_on_append_sep butlast_append)
qed simp

lemma complete_lines_no_newline: "newline \<notin> set w \<Longrightarrow> complete_lines w = []"
  by (simp add: complete_lines_def split_on_no_sep)

lemma complete_lines_line: "newline \<notin> set w \<Longrightarrow> complete_lines (w @ [newline]) = [w]"
  by (simp add: complete_lines_snoc split_on_no_sep)

lemma complete_lines_prefix: "prefix (complete_lines s) (complete_lines (s @ t))"
proof (induction s)
  case (Cons c s)
  obtain w ws where w: "split_on newline s = w # ws" by (cases "split_on newline s") auto
  obtain v vs where v: "split_on newline (s @ t) = v # vs" by (cases "split_on newline (s @ t)") auto
  show ?case
  proof (cases "c = newline")
    case True
    then show ?thesis using Cons w v by (simp add: complete_lines_def)
  next
    case False
    then show ?thesis using Cons w v by (cases ws; cases vs) (auto simp: complete_lines_def)
  qed
qed simp

lemma raw_lines_complete:
  assumes "ends_line s"
  shows "raw_lines s = complete_lines s"
  using assms
proof (cases rule: ends_lineE)
  case (2 u)
  then show ?thesis by (simp add: raw_lines_def complete_lines_def split_on_append_sep Let_def)
qed (simp add: raw_lines_def complete_lines_def)

lemma line_records_simps [simp]:
  "line_records [] = []"
  "line_records (l # ls) = (case unmarshal_record l of None \<Rightarrow> line_records ls | Some r \<Rightarrow> r # line_records ls)"
  "line_records (ls @ ms) = line_records ls @ line_records ms"
  by (simp_all add: line_records_def List.map_filter_def split: option.splits)

lemma file_records_append: "ends_line s \<Longrightarrow> file_records (s @ t) = file_records s @ file_records t"
  by (simp add: file_records_def complete_lines_append)

lemma file_records_Nil [simp]: "file_records [] = []"
  by (simp add: file_records_def)

lemma file_records_prefix: "prefix (file_records s) (file_records (s @ t))"
  using complete_lines_prefix[of s t] by (auto simp: file_records_def prefix_def)

lemma mset_prefix: "prefix xs ys \<Longrightarrow> mset xs \<subseteq># mset ys"
  by (auto simp: prefix_def)

lemma scan_handle_read [simp]: "read_err os p = None \<Longrightarrow> scan_handle mx os p s = scan_lines mx s"
  by (simp add: scan_handle_def)

lemma scan_handle_ok: "scan_handle mx os p s = (ts, None) \<Longrightarrow> scan_lines mx s = (ts, None)"
  by (auto simp: scan_handle_def split: option.splits prod.splits)

lemma scan_tokens_ok:
  "\<forall>l \<in> set ls. int (length l) < mx \<Longrightarrow> scan_tokens mx ls = (map drop_cr ls, None)"
  by (induction ls) auto

lemma scan_tokens_long:
  assumes "l \<in> set ls" "mx \<le> int (length l)"
  shows "snd (scan_tokens mx ls) = Some ErrTooLong"
  using assms by (induction ls) (auto split: prod.splits)

lemma scan_tokens_result: "snd (scan_tokens mx ls) = (if \<forall>l \<in> set ls. int (length l) < mx then None else Some ErrTooLong)"
  by (induction ls) (auto split: prod.splits)

end
