(* ===== verification/Repository.thy ===== *)
theory Repository
  imports Go_Json
begin

section \<open>The repository interface (repo/repo.go)\<close>

text \<open>
  The contract of \<^verbatim>\<open>Repository.SaveBatch\<close>, on which the ingestion service and the consumer rely.
  \<open>save\<close> takes what the environment answers during the call (\<open>'e\<close>: context, operating system
  or object store, iteration order of maps) and the state (\<open>'s\<close>), and returns the new state and the
  error. \<open>stored\<close> is the multiset of records that can be read back, \<open>canon\<close> how a record looks
  when it is read back. \<open>inv n\<close> is the invariant of the stored data with room for \<open>n\<close> more records (a repository may have a
  bound, such as a counter that must not wrap): a successful call adds exactly the batch, keeps the invariant and uses up at most the room
  of its records; a failed call adds a part of the batch.
\<close>

locale repository =
  fixes save :: "'e \<Rightarrow> LogRecord list \<Rightarrow> 's \<Rightarrow> 's \<times> goerr option"
    and env_ok :: "'e \<Rightarrow> bool"
    and rec_ok :: "LogRecord \<Rightarrow> bool"
    and canon :: "LogRecord \<Rightarrow> LogRecord"
    and inv :: "nat \<Rightarrow> 's \<Rightarrow> bool"
    and stored :: "'s \<Rightarrow> LogRecord multiset"
  assumes save_empty: "save e [] s = (s, None)"
    and save_ok: "env_ok e \<Longrightarrow> inv (n + length rs) s \<Longrightarrow> list_all rec_ok rs \<Longrightarrow> save e rs s = (s', None) \<Longrightarrow>
      inv n s' \<and> stored s' = stored s + mset (map canon rs)"
    and save_err: "env_ok e \<Longrightarrow> inv (length rs) s \<Longrightarrow> list_all rec_ok rs \<Longrightarrow> save e rs s = (s', Some err) \<Longrightarrow>
      \<exists>part. part \<subseteq># mset (map canon rs) \<and> stored s' = stored s + part"
    and inv_less: "inv (n + k) s \<Longrightarrow> inv n s"
begin

text \<open>A sequence of batches, each saved in its own environment; the results in order.\<close>

primrec save_seq :: "('e \<times> LogRecord list) list \<Rightarrow> 's \<Rightarrow> 's \<times> goerr option list" where
  "save_seq [] s = (s, [])"
| "save_seq (b # bs) s =
     (case save (fst b) (snd b) s of (s1, res) \<Rightarrow> case save_seq bs s1 of (s2, rest) \<Rightarrow> (s2, res # rest))"

lemma save_seq_ok:
  assumes "list_all (\<lambda>b. env_ok (fst b) \<and> list_all rec_ok (snd b)) bs" "inv (n + length (concat (map snd bs))) s"
    and "save_seq bs s = (s', res)" "list_all (\<lambda>r. r = None) res"
  shows "inv n s' \<and> stored s' = stored s + mset (map canon (concat (map snd bs)))"
  using assms
proof (induction bs arbitrary: s s' res)
  case (Cons b bs)
  obtain s1 r1 where s1: "save (fst b) (snd b) s = (s1, r1)" by fastforce
  obtain s2 rest where s2: "save_seq bs s1 = (s2, rest)" by fastforce
  from Cons.prems s1 s2 have r: "s' = s2" "r1 = None" "list_all (\<lambda>r. r = None) rest" by auto
  have room: "n + length (concat (map snd (b # bs))) = n + length (concat (map snd bs)) + length (snd b)" by simp
  have "inv (n + length (concat (map snd bs))) s1 \<and> stored s1 = stored s + mset (map canon (snd b))"
    using save_ok[of "fst b" "n + length (concat (map snd bs))" "snd b" s s1] Cons.prems(1,2)[unfolded room] s1 r(2) by simp
  moreover from this have "inv n s2 \<and> stored s2 = stored s1 + mset (map canon (concat (map snd bs)))"
    using Cons.IH[of s1 s2 rest] s2 Cons.prems r by simp
  ultimately show ?case using r by simp
qed simp

lemma save_bounds:
  assumes "env_ok e" "inv (length rs) s" "list_all rec_ok rs" "save e rs s = (s', res)"
  shows "stored s \<subseteq># stored s' \<and> stored s' \<subseteq># stored s + mset (map canon rs)"
proof (cases res)
  case None
  then show ?thesis using save_ok[of e 0 rs s s'] assms by simp
next
  case (Some err)
  then show ?thesis using save_err[OF assms(1-3)] assms(4) by fastforce
qed

end

text \<open>A repository that only appends loses no record, whatever it held and whatever fails.\<close>

locale append_only_repository = repository save env_ok rec_ok canon inv stored
  for save :: "'e \<Rightarrow> LogRecord list \<Rightarrow> 's \<Rightarrow> 's \<times> goerr option" and env_ok rec_ok canon inv stored +
  assumes save_mono: "env_ok e \<Longrightarrow> save e rs s = (s', res) \<Longrightarrow> stored s \<subseteq># stored s'"
begin

lemma save_seq_mono:
  "list_all (\<lambda>b. env_ok (fst b)) bs \<Longrightarrow> save_seq bs s = (s', res) \<Longrightarrow> stored s \<subseteq># stored s' \<and> length res = length bs"
proof (induction bs arbitrary: s s' res)
  case (Cons b bs)
  obtain s1 r1 where s1: "save (fst b) (snd b) s = (s1, r1)" by fastforce
  obtain s2 rest where s2: "save_seq bs s1 = (s2, rest)" by fastforce
  from Cons.prems s1 s2 have r: "s' = s2" "res = r1 # rest" by auto
  have "stored s \<subseteq># stored s1" using Cons.prems s1 save_mono by auto
  then show ?case using Cons.IH[of s1 s2 rest] s2 Cons.prems r by (auto intro: subset_mset.trans)
qed simp

end

end
