(* ===== verification/File_Repo.thy ===== *)
theory File_Repo
  imports Go_Io Repository
begin

section \<open>The file repository (repo/file_repo.go)\<close>

text \<open>
  \<open>FileRepo\<close> keeps the base directory and the table of per-file locks (a lock is its address, a
  number). \<open>SaveBatch\<close> groups the records by the path of their UTC hour and appends every
  group as JSON lines. The range over the map \<^verbatim>\<open>grouped\<close> takes its order \<open>ord\<close> as an argument,
  the polls of the context are numbered, and the operating system is an \<open>os_env\<close>.
  The lock is taken and released inside \<open>appendRecords\<close>; the machine at the end of the theory
  runs several calls side by side.
\<close>

record FileRepo =
  baseDir :: string
  fileLocks :: "(string \<times> nat) list"

definition NewFileRepo :: "string \<Rightarrow> FileRepo" where
  "NewFileRepo dir = \<lparr>baseDir = dir, fileLocks = []\<rparr>"

definition hour_path :: "string \<Rightarrow> gotime \<Rightarrow> string" where
  "hour_path base t = Join [base, format_date t, format_hour t @ ''.log.json'']"

definition lockFor :: "string \<Rightarrow> FileRepo \<Rightarrow> FileRepo \<times> nat" where
  "lockFor p s =
     (case alookup (fileLocks s) p of
        Some l \<Rightarrow> (s, l)
      | None \<Rightarrow> (let l = length (fileLocks s) in (s\<lparr>fileLocks := fileLocks s @ [(p, l)]\<rparr>, l)))"

fun append_loop :: "os_env \<Rightarrow> string \<Rightarrow> nat \<Rightarrow> LogRecord list \<Rightarrow> fsys \<Rightarrow> fsys \<times> goerr option" where
  "append_loop os p k [] fs = (fs, None)"
| "append_loop os p k (r # rs) fs =
     (case marshal_record r of
        None \<Rightarrow> (fs, Some (wrap ''marshal log record: '' marshal_err))
      | Some d \<Rightarrow>
          (case WriteAppend os p k (d @ [newline]) fs of
             (fs', Some e) \<Rightarrow> (fs', Some (wrap ''write log record: '' e))
           | (fs', None) \<Rightarrow> append_loop os p (Suc k) rs fs'))"

definition appendRecords ::
  "os_env \<Rightarrow> string \<Rightarrow> LogRecord list \<Rightarrow> FileRepo \<times> fsys \<Rightarrow> (FileRepo \<times> fsys) \<times> goerr option" where
  "appendRecords os p rs st =
     (case st of (s, fs) \<Rightarrow>
        let s' = fst (lockFor p s) in
        case OpenAppend os p fs of
          (fs1, Some e) \<Rightarrow> ((s', fs1), Some (wrap ''open log file: '' e))
        | (fs1, None) \<Rightarrow> (case append_loop os p 0 rs fs1 of (fs2, res) \<Rightarrow> ((s', fs2), res)))"

fun group_records ::
  "ctx \<Rightarrow> nat \<Rightarrow> string \<Rightarrow> LogRecord list \<Rightarrow> (string \<times> LogRecord list) list \<Rightarrow> (string \<times> LogRecord list) list result" where
  "group_records ctx k base [] m = Inr m"
| "group_records ctx k base (r # rs) m =
     (case ctx k of
        Some e \<Rightarrow> Inl e
      | None \<Rightarrow> (let r' = utc_record r
                 in group_records ctx (Suc k) base rs (grp_add (hour_path base (Timestamp r')) r' m)))"

fun save_groups ::
  "os_env \<Rightarrow> (string \<times> LogRecord list) list \<Rightarrow> FileRepo \<times> fsys \<Rightarrow> (FileRepo \<times> fsys) \<times> goerr option" where
  "save_groups os [] st = (st, None)"
| "save_groups os ((p, g) # gs) st =
     (case MkdirAll os (Dir p) (snd st) of
        (fs', Some e) \<Rightarrow> ((fst st, fs'), Some (wrap ''create log directory: '' e))
      | (fs', None) \<Rightarrow>
          (case appendRecords os p g (fst st, fs') of
             (st', Some e) \<Rightarrow> (st', Some e)
           | (st', None) \<Rightarrow> save_groups os gs st'))"

type_synonym map_order = "(string \<times> LogRecord list) list \<Rightarrow> (string \<times> LogRecord list) list"

record save_env =
  se_ctx :: ctx
  se_os :: os_env
  se_ord :: map_order

definition SaveBatch :: "save_env \<Rightarrow> LogRecord list \<Rightarrow> FileRepo \<times> fsys \<Rightarrow> (FileRepo \<times> fsys) \<times> goerr option" where
  "SaveBatch env rs st =
     (if rs = [] then (st, None)
      else case group_records (se_ctx env) 0 (baseDir (fst st)) rs [] of
             Inl e \<Rightarrow> (st, Some e)
           | Inr grouped \<Rightarrow> save_groups (se_os env) (se_ord env grouped) st)"

subsection \<open>Specification vocabulary\<close>

text \<open>The bytes a record adds to its file, the records of a batch that belong to a path, and what
  can be read back from the log files of a file system.\<close>

definition line_of :: "LogRecord \<Rightarrow> string" where
  "line_of r = (case marshal_record r of None \<Rightarrow> [] | Some d \<Rightarrow> d @ [newline])"

definition lines_of :: "LogRecord list \<Rightarrow> string" where
  "lines_of rs = concat (map line_of rs)"

definition batch_at :: "string \<Rightarrow> LogRecord list \<Rightarrow> string \<Rightarrow> LogRecord list" where
  "batch_at base rs p = filter (\<lambda>r. hour_path base (Timestamp r) = p) (map utc_record rs)"

definition is_log :: "string \<Rightarrow> bool" where
  "is_log p \<longleftrightarrow> HasSuffix p ''.log.json''"

definition stored_files :: "FileRepo \<times> fsys \<Rightarrow> LogRecord multiset" where
  "stored_files st =
     (\<Sum>p \<in> set (map fst (fs_files (snd st))). if is_log p then mset (file_records (fs_content (snd st) p)) else {#})"

definition logs_clean :: "FileRepo \<times> fsys \<Rightarrow> bool" where
  "logs_clean st \<longleftrightarrow> (\<forall>p \<in> set (map fst (fs_files (snd st))). is_log p \<longrightarrow> ends_line (fs_content (snd st) p))"

definition readable :: "LogRecord \<Rightarrow> LogRecord" where
  "readable r = valid_record (utc_record r)"

subsection \<open>Grouping\<close>

lemma group_records_ok:
  assumes "group_records ctx k base rs m = Inr m'"
  shows "m' = grp_all (\<lambda>r. hour_path base (Timestamp r)) (map utc_record rs) m"
  using assms by (induction ctx k base rs m rule: group_records.induct) (auto simp: Let_def split: option.splits)

lemma group_records_total: "(\<forall>i. ctx i = None) \<Longrightarrow> group_records ctx k base rs m =
    Inr (grp_all (\<lambda>r. hour_path base (Timestamp r)) (map utc_record rs) m)"
  by (induction ctx k base rs m rule: group_records.induct) (auto simp: Let_def)

lemma group_records_err: "group_records ctx k base rs m = Inl e \<Longrightarrow> \<exists>i. k \<le> i \<and> i < k + length rs \<and> ctx i = Some e"
proof (induction ctx k base rs m rule: group_records.induct)
  case (2 ctx k base r rs m)
  show ?case
  proof (cases "ctx k")
    case None
    with 2 obtain i where "Suc k \<le> i" "i < Suc k + length rs" "ctx i = Some e" by (auto simp: Let_def)
    then show ?thesis by (intro exI[of _ i]) auto
  next
    case (Some e')
    with 2 show ?thesis by (intro exI[of _ k]) auto
  qed
qed simp

subsection \<open>Appending\<close>

lemma lines_of_simps [simp]:
  "lines_of [] = []" "lines_of (r # rs) = line_of r @ lines_of rs" "lines_of (rs @ qs) = lines_of rs @ lines_of qs"
  by (simp_all add: lines_of_def)

lemma prefix_append_take: "prefix (take n (d @ [c])) (d @ c # t)"
  using take_is_prefix[of n "d @ [c]"] by (metis append.assoc append_Cons append_Nil prefix_prefix)

lemma append_loop_Cons_ok:
  "append_loop os p k (r # rs) fs = (fs', None) \<longleftrightarrow>
     (\<exists>d. marshal_record r = Some d \<and> write_out os p k = None \<and>
        append_loop os p (Suc k) rs (fs_put p (fs_content fs p @ d @ [newline]) (clock os) fs) = (fs', None))"
  by (auto simp: WriteAppend_def split: option.splits)

lemma append_loop_frame:
  assumes "append_loop os p k rs fs = (fs', res)"
  shows "fs_dirs fs' = fs_dirs fs \<and> (\<forall>q. q \<noteq> p \<longrightarrow> fs_file fs' q = fs_file fs q)"
  using assms
  by (induction os p k rs fs arbitrary: fs' res rule: append_loop.induct)
    (fastforce simp: WriteAppend_def split: option.splits)+

lemma append_loop_prefix:
  assumes "append_loop os p k rs fs = (fs', res)"
  shows "\<exists>t. prefix t (lines_of rs) \<and> fs_content fs' p = fs_content fs p @ t"
  using assms
proof (induction os p k rs fs arbitrary: fs' res rule: append_loop.induct)
  case (2 os p k r rs fs)
  show ?case
  proof (cases "marshal_record r")
    case None
    with 2 show ?thesis by (intro exI[of _ "[]"]) auto
  next
    case (Some d)
    show ?thesis
    proof (cases "write_out os p k")
      case None
      then have w: "WriteAppend os p k (d @ [newline]) fs = (fs_put p (fs_content fs p @ d @ [newline]) (clock os) fs, None)"
        by (simp add: WriteAppend_def)
      with 2 Some obtain t where "prefix t (lines_of rs)"
          "fs_content fs' p = fs_content fs p @ (d @ [newline]) @ t"
        by fastforce
      then show ?thesis using Some by (intro exI[of _ "(d @ [newline]) @ t"]) (simp add: line_of_def)
    next
      case (Some x)
      with 2 \<open>marshal_record r = Some d\<close> show ?thesis
        by (cases x; intro exI[of _ "take (fst x) (d @ [newline])"])
          (auto simp: WriteAppend_def line_of_def simp del: take_append intro!: prefix_append_take)
    qed
  qed
qed auto

lemma append_loop_ok:
  assumes "append_loop os p k rs fs = (fs', None)"
  shows "fs_content fs' p = fs_content fs p @ lines_of rs \<and> (\<forall>r \<in> set rs. marshal_record r \<noteq> None)"
  using assms
proof (induction rs arbitrary: k fs)
  case (Cons r rs)
  then obtain d where "marshal_record r = Some d"
      "append_loop os p (Suc k) rs (fs_put p (fs_content fs p @ d @ [newline]) (clock os) fs) = (fs', None)"
    by (auto simp only: append_loop_Cons_ok)
  with Cons.IH show ?case by (fastforce simp: line_of_def)
qed simp

lemma append_loop_total:
  "\<forall>i. write_out os p i = None \<Longrightarrow> \<forall>r \<in> set rs. marshal_record r \<noteq> None \<Longrightarrow> snd (append_loop os p k rs fs) = None"
  by (induction os p k rs fs rule: append_loop.induct) (auto simp: WriteAppend_def)

lemma appendRecords_effect:
  assumes "appendRecords os p rs (s, fs) = ((s', fs'), res)"
  shows "s' = fst (lockFor p s)" "fs_dirs fs' = fs_dirs fs" "q \<noteq> p \<Longrightarrow> fs_file fs' q = fs_file fs q"
    "\<exists>t. prefix t (lines_of rs) \<and> fs_content fs' p = fs_content fs p @ t"
    "res = None \<Longrightarrow> fs_content fs' p = fs_content fs p @ lines_of rs"
proof -
  obtain fs1 r1 where o: "OpenAppend os p fs = (fs1, r1)" by fastforce
  have fs1: "fs_dirs fs1 = fs_dirs fs" "q \<noteq> p \<Longrightarrow> fs_file fs1 q = fs_file fs q" "fs_content fs1 p = fs_content fs p" for q
    using o by (auto simp: OpenAppend_def fs_content_def split: option.splits if_splits)
  show "s' = fst (lockFor p s)" using assms o by (auto simp: appendRecords_def Let_def split: option.splits prod.splits)
  have c: "(r1 \<noteq> None \<and> fs' = fs1 \<and> res \<noteq> None) \<or> append_loop os p 0 rs fs1 = (fs', res)"
    using assms o by (auto simp: appendRecords_def Let_def split: option.splits prod.splits)
  show "fs_dirs fs' = fs_dirs fs" "q \<noteq> p \<Longrightarrow> fs_file fs' q = fs_file fs q"
    using c append_loop_frame[of os p 0 rs fs1 fs' res] fs1 by auto
  show "\<exists>t. prefix t (lines_of rs) \<and> fs_content fs' p = fs_content fs p @ t"
    using c append_loop_prefix[of os p 0 rs fs1 fs' res] fs1 by (metis Nil_prefix append_Nil2)
  show "res = None \<Longrightarrow> fs_content fs' p = fs_content fs p @ lines_of rs"
    using c append_loop_ok[of os p 0 rs fs1 fs'] fs1 by auto
qed

lemma MkdirAll_effect:
  "MkdirAll os d fs = (fs', res) \<Longrightarrow> fs_file fs' q = fs_file fs q \<and> fs_content fs' q = fs_content fs q
     \<and> (res = None \<longrightarrow> d \<in> set (fs_dirs fs'))"
  by (auto simp: MkdirAll_def split: option.splits)

lemma lockFor_baseDir [simp]: "baseDir (fst (lockFor p s)) = baseDir s"
  by (simp add: lockFor_def Let_def split: option.splits)

text \<open>The groups are written one after the other: every file grows by a prefix of its group's lines,
  by all of them when the call succeeds.\<close>

lemma save_groups_effect:
  assumes "save_groups os gs (s, fs) = ((s', fs'), res)" "distinct (map fst gs)"
  shows "baseDir s' = baseDir s \<and> (p \<notin> fst ` set gs \<longrightarrow> fs_file fs' p = fs_file fs p)
    \<and> (\<exists>t. prefix t (lines_of (agroup gs p)) \<and> fs_content fs' p = fs_content fs p @ t)
    \<and> (res = None \<longrightarrow> fs_content fs' p = fs_content fs p @ lines_of (agroup gs p))"
  using assms
proof (induction gs arbitrary: s fs)
  case (Cons pg gs)
  obtain q g where pg: "pg = (q, g)" by fastforce
  obtain fs1 r1 where m: "MkdirAll os (Dir q) fs = (fs1, r1)" by fastforce
  note m1 = MkdirAll_effect[OF m]
  show ?case
  proof (cases r1)
    case (Some e)
    then show ?thesis using Cons.prems m m1 pg by auto
  next
    case None
    obtain s2 fs2 r2 where a: "appendRecords os q g (s, fs1) = ((s2, fs2), r2)" by (metis prod.exhaust)
    note a1 = appendRecords_effect[OF a]
    have f: "q \<noteq> p \<Longrightarrow> fs_file fs2 p = fs_file fs p" using a1(3)[of p] m1 by simp
    have c: "q \<noteq> p \<Longrightarrow> fs_content fs2 p = fs_content fs p" using f by (simp add: fs_content_def)
    show ?thesis
    proof (cases r2)
      case (Some e)
      then have e: "s' = s2" "fs' = fs2" "res = Some e" using Cons.prems m a None pg by auto
      show ?thesis
        using a1(1,4) m1[of q] f c by (cases "q = p") (auto simp: e pg agroup_Cons)
    next
      case None
      then have n: "save_groups os gs (s2, fs2) = ((s', fs'), res)"
        using Cons.prems m a \<open>r1 = None\<close> pg by auto
      note ih = Cons.IH[OF n]
      have d: "distinct (map fst gs)" "q \<notin> fst ` set gs" using Cons.prems(2) pg by auto
      show ?thesis
      proof (cases "q = p")
        case True
        have "fs_content fs' p = fs_content fs2 p" using ih[OF d(1)] d(2) True by (simp add: fs_content_def)
        then show ?thesis
          using ih[OF d(1)] a1(1,5) m1[of p] None True by (auto simp: pg agroup_Cons)
      next
        case False
        then show ?thesis using ih[OF d(1)] a1(1) f c by (auto simp: pg agroup_Cons)
      qed
    qed
  qed
qed auto

subsection \<open>SaveBatch\<close>

lemma SaveBatch_effect:
  assumes "SaveBatch env rs (s, fs) = ((s', fs'), res)" "reorders (se_ord env)"
  shows "baseDir s' = baseDir s \<and> (batch_at (baseDir s) rs p = [] \<longrightarrow> fs_file fs' p = fs_file fs p)
    \<and> (\<exists>t. prefix t (lines_of (batch_at (baseDir s) rs p)) \<and> fs_content fs' p = fs_content fs p @ t)
    \<and> (res = None \<longrightarrow> fs_content fs' p = fs_content fs p @ lines_of (batch_at (baseDir s) rs p))"
proof (cases "rs = []")
  case True
  then show ?thesis using assms by (auto simp: SaveBatch_def batch_at_def)
next
  case False
  show ?thesis
  proof (cases "group_records (se_ctx env) 0 (baseDir s) rs []")
    case (Inl e)
    then show ?thesis using False assms by (auto simp: SaveBatch_def)
  next
    case (Inr m)
    let ?gs = "se_ord env m"
    have sg: "save_groups (se_os env) ?gs (s, fs) = ((s', fs'), res)"
      using False Inr assms(1) by (simp add: SaveBatch_def)
    have m: "m = grp_all (\<lambda>r. hour_path (baseDir s) (Timestamp r)) (map utc_record rs) []"
      using group_records_ok[OF Inr] .
    have d: "distinct (map fst m)" unfolding m by (rule distinct_grp_all) simp
    then have "agroup ?gs p = batch_at (baseDir s) rs p"
      using agroup_reorders[OF assms(2) d] by (simp add: m batch_at_def)
    moreover have "distinct (map fst ?gs)" using d reorders_keys[OF assms(2)] by simp
    moreover have "batch_at (baseDir s) rs p = [] \<Longrightarrow> p \<notin> fst ` set ?gs"
      using keys_grp_all[of "\<lambda>r. hour_path (baseDir s) (Timestamp r)" "map utc_record rs" "[]"] reordersD(2)[OF assms(2), of m]
      by (auto simp: m batch_at_def filter_empty_conv image_iff)
    ultimately show ?thesis using save_groups_effect[OF sg, of p] by auto
  qed
qed

lemma SaveBatch_grows:
  "SaveBatch env rs (s, fs) = ((s', fs'), res) \<Longrightarrow> reorders (se_ord env) \<Longrightarrow>
    \<exists>t. prefix t (lines_of (batch_at (baseDir s) rs p)) \<and> fs_content fs' p = fs_content fs p @ t"
  using SaveBatch_effect[of env rs s fs s' fs' res p] by simp

lemma append_loop_err:
  assumes "append_loop os p k rs fs = (fs', Some e)"
  shows "e = wrap ''marshal log record: '' marshal_err \<and> (\<exists>r \<in> set rs. marshal_record r = None)
    \<or> (\<exists>i n e'. k \<le> i \<and> write_out os p i = Some (n, e') \<and> e = wrap ''write log record: '' e')"
  using assms
proof (induction os p k rs fs rule: append_loop.induct)
  case (2 os p k r rs fs)
  show ?case
  proof (cases "marshal_record r")
    case None
    then show ?thesis using 2 by simp
  next
    case (Some d)
    show ?thesis
    proof (cases "write_out os p k")
      case None
      then have "WriteAppend os p k (d @ [newline]) fs = (fs_put p (fs_content fs p @ d @ [newline]) (clock os) fs, None)"
        by (simp add: WriteAppend_def)
      then show ?thesis using 2 Some by (fastforce dest: Suc_leD)
    next
      case (Some x)
      then show ?thesis using 2 \<open>marshal_record r = Some d\<close> by (cases x) (auto simp: WriteAppend_def)
    qed
  qed
qed simp

lemma save_groups_total:
  assumes "\<forall>d. mkdir_err os d = None" "\<forall>p. open_err os p = None" "\<forall>p i. write_out os p i = None"
    and "\<forall>(p, g) \<in> set gs. \<forall>r \<in> set g. marshal_record r \<noteq> None"
  shows "snd (save_groups os gs st) = None"
  using assms(4)
proof (induction gs arbitrary: st)
  case (Cons pg gs)
  obtain q g where pg: "pg = (q, g)" by fastforce
  obtain fs0 where m: "MkdirAll os (Dir q) (snd st) = (fs0, None)" "Dir q \<in> set (fs_dirs fs0)"
    using assms(1) by (auto simp: MkdirAll_def)
  obtain fs1 where o: "OpenAppend os q fs0 = (fs1, None)"
    using assms(2) m(2) by (fastforce simp: OpenAppend_def split: option.splits)
  have "snd (append_loop os q 0 g fs1) = None"
    using append_loop_total[of os q g] assms(3) Cons.prems pg by auto
  then obtain fs2 where "append_loop os q 0 g fs1 = (fs2, None)" by (metis prod.collapse)
  then show ?case using Cons m o pg by (simp add: appendRecords_def Let_def)
qed simp

subsection \<open>The hour of a path\<close>

lemma hour_path_path_of: "hour_path base t = path_of (is_rooted base) (comps base @ [format_date t, format_hour t @ ''.log.json''])"
  unfolding hour_path_def using plain_format_date[of t] plain_format_hour(1)[of t] by (intro Join_plain) auto

lemma comps_hour_path: "comps (hour_path base t) = comps base @ [format_date t, format_hour t @ ''.log.json'']"
  unfolding hour_path_path_of using plain_format_date[of t] plain_format_hour(1)[of t] comps_clean[of base]
  by (intro comps_path_of clean_list_append) auto

lemma join_with_last: "cs \<noteq> [] \<Longrightarrow> \<exists>u. join_with c cs = u @ last cs"
  by (induction c cs rule: join_with.induct) auto

lemma is_log_hour_path [simp]: "is_log (hour_path base t)"
proof -
  let ?cs = "comps base @ [format_date t, format_hour t @ ''.log.json'']"
  obtain u where "join_with slash ?cs = u @ format_hour t @ ''.log.json''"
    using join_with_last[of ?cs slash] by auto
  then have "hour_path base t = (if is_rooted base then slash # u else u) @ format_hour t @ ''.log.json''"
    by (simp add: hour_path_path_of path_of_def)
  then show ?thesis unfolding is_log_def by (metis HasSuffix_append append.assoc)
qed

lemma hour_path_same:
  assumes "0 \<le> Year t" "Year t \<le> 9999" "0 \<le> Year u" "Year u \<le> 9999" "t_off t = 0" "t_off u = 0"
  shows "hour_path base t = hour_path base u \<longleftrightarrow> TruncateHour t = TruncateHour u"
proof
  assume "hour_path base t = hour_path base u"
  then have "format_date t = format_date u" "format_hour t = format_hour u"
    using comps_hour_path[of base t] comps_hour_path[of base u] by simp_all
  then have "civil_of_days (day_of t) = civil_of_days (day_of u)" "Hour t = Hour u"
    using parse_date_format[OF assms(1,2)] parse_date_format[OF assms(3,4)] parse_hour_format[of t] parse_hour_format[of u]
    by simp_all
  then show "TruncateHour t = TruncateHour u"
    using TruncateHour_Hour[OF assms(5)] TruncateHour_Hour[OF assms(6)] by simp
next
  assume "TruncateHour t = TruncateHour u"
  then have "day_of t = day_of u \<and> Hour t = Hour u" by (rule same_hour[OF assms(5,6)])
  then show "hour_path base t = hour_path base u"
    by (simp add: hour_path_def format_date_def format_hour_def)
qed

subsection \<open>What can be read back\<close>

lemma ends_line_line_of [simp]: "ends_line (line_of r)"
  by (simp add: line_of_def split: option.splits)

lemma ends_line_lines_of [simp]: "ends_line (lines_of rs)"
  by (induction rs) (auto intro: ends_line_append)

definition utc_wf :: "LogRecord \<Rightarrow> bool" where
  "utc_wf r \<longleftrightarrow> t_off (Timestamp r) = 0 \<and> wf_time (Timestamp r)"

lemma file_records_line:
  "utc_wf r \<Longrightarrow> file_records (line_of r) = (if marshal_record r = None then [] else [valid_record r])"
  by (auto simp: line_of_def file_records_def complete_lines_line marshal_no_newline unmarshal_marshal utc_wf_def
      split: option.splits)

lemma file_records_lines:
  "list_all utc_wf rs \<Longrightarrow> file_records (lines_of rs) = map valid_record (filter (\<lambda>r. marshal_record r \<noteq> None) rs)"
  by (induction rs) (auto simp: file_records_append file_records_line)

lemma batch_at_utc: "list_all (\<lambda>r. wf_time (Timestamp r)) rs \<Longrightarrow> list_all utc_wf (batch_at base rs p)"
  by (auto simp: batch_at_def utc_wf_def list_all_iff wf_time_def)

lemma stored_superset:
  assumes "finite K" "set (map fst (fs_files fs)) \<subseteq> K"
  shows "stored_files (s, fs) = (\<Sum>p\<in>K. if is_log p then mset (file_records (fs_content fs p)) else {#})"
proof -
  have "fs_content fs p = []" if "p \<notin> set (map fst (fs_files fs))" for p
    using that alookup_None_iff[of "fs_files fs" p] by (simp add: fs_content_def fs_file_def)
  then show ?thesis
    unfolding stored_files_def snd_conv using assms by (intro sum.mono_neutral_left) auto
qed

lemma logs_clean_iff: "logs_clean (s, fs) \<longleftrightarrow> (\<forall>p. is_log p \<longrightarrow> ends_line (fs_content fs p))"
proof -
  have "fs_content fs p = []" if "p \<notin> set (map fst (fs_files fs))" for p
    using that alookup_None_iff[of "fs_files fs" p] by (simp add: fs_content_def fs_file_def)
  then show ?thesis unfolding logs_clean_def snd_conv by (metis ends_line_Nil)
qed

lemma stored_files_mono:
  assumes "\<And>p. \<exists>t. fs_content fs' p = fs_content fs p @ t"
  shows "stored_files (s, fs) \<subseteq># stored_files (s', fs')"
proof -
  let ?K = "set (map fst (fs_files fs)) \<union> set (map fst (fs_files fs'))"
  have "mset (file_records (fs_content fs p)) \<subseteq># mset (file_records (fs_content fs' p))" for p
    using assms[of p] file_records_prefix mset_prefix by metis
  then show ?thesis
    by (subst (1 2) stored_superset[of ?K]) (auto intro: sum_mset_mono)
qed

lemma sum_batch_at:
  assumes "finite K" "(\<lambda>r. hour_path base (UTC (Timestamp r))) ` set rs \<subseteq> K"
  shows "(\<Sum>p\<in>K. mset (map valid_record (batch_at base rs p))) = mset (map readable rs)"
proof -
  have "image_mset valid_record (\<Sum>p\<in>K. mset (batch_at base rs p)) = (\<Sum>p\<in>K. mset (map valid_record (batch_at base rs p)))"
    using assms(1) by (induction K rule: finite_induct) auto
  moreover have "(\<Sum>p\<in>K. mset (batch_at base rs p)) = mset (map utc_record rs)"
    using sum_mset_filter[of K "\<lambda>r. hour_path base (Timestamp r)" "map utc_record rs"] assms
    by (simp add: batch_at_def image_image)
  ultimately show ?thesis by (simp add: readable_def[abs_def] multiset.map_comp comp_def)
qed

lemma batch_at_not_log: "\<not> is_log p \<Longrightarrow> batch_at base rs p = []"
  by (auto simp: batch_at_def filter_empty_conv)

lemma stored_sum:
  assumes ex: "\<And>p. \<exists>t. prefix t (lines_of (batch_at base rs p)) \<and> fs_content fs' p = fs_content fs p @ t"
    and clean: "logs_clean (s, fs)" and wf: "list_all (\<lambda>r. wf_time (Timestamp r)) rs"
  shows "stored_files (s', fs') \<subseteq># stored_files (s, fs) + mset (map readable rs)"
proof -
  let ?K = "set (map fst (fs_files fs)) \<union> set (map fst (fs_files fs')) \<union> (\<lambda>r. hour_path base (UTC (Timestamp r))) ` set rs"
  have up: "(if is_log p then mset (file_records (fs_content fs' p)) else {#}) \<subseteq>#
      (if is_log p then mset (file_records (fs_content fs p)) else {#}) + mset (map valid_record (batch_at base rs p))" for p
  proof -
    obtain t u where t: "fs_content fs' p = fs_content fs p @ t" "lines_of (batch_at base rs p) = t @ u"
      using ex[of p] by (auto simp: prefix_def)
    have "mset (file_records t) \<subseteq># mset (file_records (lines_of (batch_at base rs p)))"
      using file_records_prefix[of t u] t(2) by (simp add: mset_prefix)
    also have "\<dots> \<subseteq># mset (map valid_record (batch_at base rs p))"
      using file_records_lines[OF batch_at_utc[OF wf]] by (simp add: image_mset_subseteq_mono)
    finally show ?thesis
      using clean t(1) file_records_append[of "fs_content fs p" t] by (auto simp: logs_clean_iff)
  qed
  have "stored_files (s', fs') = (\<Sum>p\<in>?K. if is_log p then mset (file_records (fs_content fs' p)) else {#})"
    by (rule stored_superset) auto
  also have "\<dots> \<subseteq># (\<Sum>p\<in>?K. (if is_log p then mset (file_records (fs_content fs p)) else {#})
      + mset (map valid_record (batch_at base rs p)))"
    using up by (intro sum_mset_mono) auto
  also have "\<dots> = stored_files (s, fs) + mset (map readable rs)"
    unfolding sum.distrib by (subst sum_batch_at, simp, simp, subst stored_superset[of ?K]) auto
  finally show ?thesis .
qed

lemma stored_eq:
  assumes ex: "\<And>p. fs_content fs' p = fs_content fs p @ lines_of (batch_at base rs p)"
    and clean: "logs_clean (s, fs)" and wf: "list_all (\<lambda>r. wf_time (Timestamp r)) rs"
    and ok: "\<forall>r \<in> set rs. marshal_record (utc_record r) \<noteq> None"
  shows "logs_clean (s', fs') \<and> stored_files (s', fs') = stored_files (s, fs) + mset (map readable rs)"
proof
  show "logs_clean (s', fs')" using clean ex by (auto simp: logs_clean_iff intro: ends_line_append)
  let ?K = "set (map fst (fs_files fs)) \<union> set (map fst (fs_files fs')) \<union> (\<lambda>r. hour_path base (UTC (Timestamp r))) ` set rs"
  have "filter (\<lambda>r. marshal_record r \<noteq> None) (batch_at base rs p) = batch_at base rs p" for p
    using ok by (auto simp: batch_at_def simp del: filter_filter intro!: filter_True)
  then have "file_records (lines_of (batch_at base rs p)) = map valid_record (batch_at base rs p)" for p
    using file_records_lines[OF batch_at_utc[OF wf], of base p] by metis
  then have eq: "(if is_log p then mset (file_records (fs_content fs' p)) else {#}) =
      (if is_log p then mset (file_records (fs_content fs p)) else {#}) + mset (map valid_record (batch_at base rs p))" for p
    using ex[of p] clean batch_at_not_log[of p base rs]
    by (auto simp: logs_clean_iff file_records_append)
  have "stored_files (s', fs') = (\<Sum>p\<in>?K. if is_log p then mset (file_records (fs_content fs' p)) else {#})"
    by (rule stored_superset) auto
  also have "\<dots> = stored_files (s, fs) + mset (map readable rs)"
    unfolding eq sum.distrib by (subst sum_batch_at, simp, simp, subst stored_superset[of ?K]) auto
  finally show "stored_files (s', fs') = stored_files (s, fs) + mset (map readable rs)" .
qed

lemma save_groups_marshal:
  "save_groups os gs st = (st', None) \<Longrightarrow> (p, g) \<in> set gs \<Longrightarrow> r \<in> set g \<Longrightarrow> marshal_record r \<noteq> None"
proof (induction gs arbitrary: st)
  case (Cons qh gs)
  obtain q h where qh: "qh = (q, h)" by fastforce
  obtain fs1 where m: "MkdirAll os (Dir q) (snd st) = (fs1, None)"
    using Cons.prems(1) qh by (auto split: prod.splits option.splits)
  obtain st1 where a: "appendRecords os q h (fst st, fs1) = (st1, None)"
    using Cons.prems(1) qh m by (auto split: prod.splits option.splits)
  then obtain fs2 fs3 where "append_loop os q 0 h fs2 = (fs3, None)"
    by (auto simp: appendRecords_def Let_def split: prod.splits option.splits)
  then have "\<forall>r \<in> set h. marshal_record r \<noteq> None" using append_loop_ok by blast
  moreover have "save_groups os gs st1 = (st', None)" using Cons.prems(1) qh m a by simp
  ultimately show ?case using Cons.IH[of st1] Cons.prems qh by auto
qed simp

lemma SaveBatch_marshal:
  assumes "SaveBatch env rs st = (st', None)" "reorders (se_ord env)"
  shows "\<forall>r \<in> set rs. marshal_record (utc_record r) \<noteq> None"
proof
  fix r assume r: "r \<in> set rs"
  let ?f = "\<lambda>r. hour_path (baseDir (fst st)) (Timestamp r)"
  let ?m = "grp_all ?f (map utc_record rs) []"
  have "rs \<noteq> []" using r by auto
  then obtain m where m: "group_records (se_ctx env) 0 (baseDir (fst st)) rs [] = Inr m"
      "save_groups (se_os env) (se_ord env m) st = (st', None)"
    using assms(1) by (auto simp: SaveBatch_def split: sum.splits)
  have mm: "m = ?m" using group_records_ok[OF m(1)] .
  have "utc_record r \<in> set (agroup ?m (?f (utc_record r)))" using r by simp
  then obtain g where "(?f (utc_record r), g) \<in> set ?m" "utc_record r \<in> set g"
    by (auto simp: agroup_def dest: alookup_SomeD[OF sym] simp del: agroup_grp_all split: option.splits)
  then show "marshal_record (utc_record r) \<noteq> None"
    using save_groups_marshal[OF m(2), of _ g] reordersD(2)[OF assms(2), of ?m] mm by blast
qed

interpretation files: append_only_repository SaveBatch "\<lambda>env. reorders (se_ord env)" "\<lambda>r. wf_time (Timestamp r)" readable
  "\<lambda>_. logs_clean" stored_files
proof
  fix env :: save_env and st st' :: "FileRepo \<times> fsys" and rs err res
  obtain s fs s' fs' where st: "st = (s, fs)" "st' = (s', fs')" by fastforce
  show "SaveBatch env [] st = (st, None)" by (simp add: SaveBatch_def)
  assume ord: "reorders (se_ord env)"
  show "stored_files st \<subseteq># stored_files st'" if "SaveBatch env rs st = (st', res)"
    using SaveBatch_grows[OF that[unfolded st] ord] unfolding st by (intro stored_files_mono) metis
  assume clean: "logs_clean st" and wf: "list_all (\<lambda>r. wf_time (Timestamp r)) rs"
  show "logs_clean st' \<and> stored_files st' = stored_files st + mset (map readable rs)"
    if sv: "SaveBatch env rs st = (st', None)"
    using SaveBatch_effect[OF sv[unfolded st] ord] clean wf SaveBatch_marshal[OF sv ord] unfolding st
    by (intro stored_eq) auto
  show "\<exists>part. part \<subseteq># mset (map readable rs) \<and> stored_files st' = stored_files st + part"
    if sv: "SaveBatch env rs st = (st', Some err)"
  proof (intro exI conjI)
    note e = SaveBatch_grows[OF sv[unfolded st] ord]
    have lo: "stored_files st \<subseteq># stored_files st'" using e unfolding st by (intro stored_files_mono) metis
    have "stored_files st' \<subseteq># stored_files st + mset (map readable rs)"
      unfolding st by (rule stored_sum[OF e clean[unfolded st] wf])
    then show "stored_files st' - stored_files st \<subseteq># mset (map readable rs)"
      by (simp add: subset_eq_diff_conv add.commute)
    show "stored_files st' = stored_files st + (stored_files st' - stored_files st)" using lo by simp
  qed
qed

lemma merged_line:
  assumes "ends_line s" "newline \<notin> set a" "newline \<notin> set d"
  shows "file_records (s @ a @ d @ [newline]) = file_records s @ (case unmarshal_record (a @ d) of None \<Rightarrow> [] | Some r \<Rightarrow> [r])"
proof -
  have "file_records ((a @ d) @ [newline]) = (case unmarshal_record (a @ d) of None \<Rightarrow> [] | Some r \<Rightarrow> [r])"
    using assms(2,3) by (simp add: file_records_def complete_lines_line split: option.splits del: append_assoc)
  then show ?thesis using file_records_append[OF assms(1), of "(a @ d) @ [newline]"] by simp
qed

lemma SaveBatch_one:
  assumes "SaveBatch env [r] (s, fs) = ((s', fs'), res)" "reorders (se_ord env)" "p = hour_path (baseDir s) (UTC (Timestamp r))"
    and "marshal_record (utc_record r) = Some d"
  shows "res = None \<Longrightarrow> fs_content fs' p = fs_content fs p @ d @ [newline]" "baseDir s' = baseDir s"
proof -
  have b: "batch_at (baseDir s) [r] p = [utc_record r]" using assms(3) by (simp add: batch_at_def)
  show "baseDir s' = baseDir s" using SaveBatch_effect[OF assms(1,2)] by blast
  show "res = None \<Longrightarrow> fs_content fs' p = fs_content fs p @ d @ [newline]"
    using SaveBatch_effect[OF assms(1,2), of p] b assms(4) by (simp add: line_of_def)
qed

subsection \<open>A concrete batch\<close>

text \<open>Two records of one hour and one of the next (1 January 2025, one of them with an offset), saved with the
  groups in reverse order; and the same on a disk that is full after the first record of a file.\<close>

definition ex_env :: save_env where
  "ex_env = \<lparr>se_ctx = ctx_ok, se_os = os_fine 7, se_ord = rev\<rparr>"

definition full_env :: save_env where
  "full_env = ex_env\<lparr>se_os :=
     (os_fine 7)\<lparr>write_out := (\<lambda>p k. if k = 1 then Some (5, OsErr False ''no space left on device'') else None)\<rparr>\<rparr>"

definition ex_batch :: "LogRecord list" where
  "ex_batch =
     [\<lparr>Timestamp = \<lparr>t_sec = 63871286400, t_nsec = 0, t_off = 0\<rparr>, Path = ''/a'', UserAgent = ''x''\<rparr>,
      \<lparr>Timestamp = \<lparr>t_sec = 63871290005, t_nsec = 0, t_off = 3600\<rparr>, Path = ''/b'', UserAgent = ''y''\<rparr>,
      \<lparr>Timestamp = \<lparr>t_sec = 63871286410, t_nsec = 0, t_off = 0\<rparr>, Path = ''/a'', UserAgent = ''y''\<rparr>]"

definition ex_fs :: fsys where
  "ex_fs = \<lparr>fs_files = [], fs_dirs = []\<rparr>"

abbreviation ex_out :: "save_env \<Rightarrow> (FileRepo \<times> fsys) \<times> goerr option" where
  "ex_out env \<equiv> SaveBatch env ex_batch (NewFileRepo ''logs'', ex_fs)"

text \<open>The first record alone, on a disk that takes five bytes of it.\<close>

definition torn_env :: save_env where
  "torn_env = ex_env\<lparr>se_os :=
     (os_fine 7)\<lparr>write_out := (\<lambda>p k. Some (5, OsErr False ''no space left on device''))\<rparr>\<rparr>"

definition torn :: "(FileRepo \<times> fsys) \<times> goerr option" where
  "torn = SaveBatch torn_env (take 1 ex_batch) (NewFileRepo ''logs'', ex_fs)"

lemma ex_save: "snd (ex_out ex_env) = None"
  by code_simp

lemma full_save: "snd (ex_out full_env) = Some (wrap ''write log record: '' (OsErr False ''no space left on device''))"
  by code_simp

lemma ex_pairs: "ex_out env = ((fst (fst (ex_out env)), snd (fst (ex_out env))), snd (ex_out env))"
  by simp

lemma ex_facts [simp]: "reorders (se_ord ex_env)" "reorders (se_ord full_env)"
  "\<forall>r \<in> set ex_batch. wf_time (Timestamp r)" "logs_clean (NewFileRepo ''logs'', ex_fs)"
  "stored_files (NewFileRepo ''logs'', ex_fs) = {#}"
  by (simp_all add: ex_env_def full_env_def ex_batch_def wf_time_def logs_clean_def ex_fs_def stored_files_def)

subsection \<open>Properties\<close>

text \<open>(C12) A successful \<^verbatim>\<open>FileRepo.SaveBatch\<close> appends to the file of every UTC hour exactly the JSON
  lines of the batch's records of that hour, in batch order, whatever the order in which Go ranges over the
  map of groups, and changes no other file.\<close>

theorem SaveBatch_appends_exactly:
  assumes "SaveBatch env rs (s, fs) = ((s', fs'), None)" "reorders (se_ord env)"
  shows "fs_content fs' p = fs_content fs p @ lines_of (batch_at (baseDir s) rs p)
    \<and> (batch_at (baseDir s) rs p = [] \<longrightarrow> fs_file fs' p = fs_file fs p)"
  using SaveBatch_effect[OF assms, of p] by simp

lemma SaveBatch_appends_exactly_witness:
  "fs_content (snd (fst (ex_out ex_env))) ''logs/2025-01-01/00.log.json'' =
     lines_of (batch_at ''logs'' ex_batch ''logs/2025-01-01/00.log.json'')"
  using SaveBatch_appends_exactly[OF ex_pairs[of ex_env, unfolded ex_save], of "''logs/2025-01-01/00.log.json''"]
  by (simp add: NewFileRepo_def ex_fs_def fs_content_def fs_file_def)

text \<open>Whatever fails, and wherever (context, directory, open, marshal, a short write), a file only grows,
  by a prefix of the bytes the successful call would have appended: no earlier byte is lost and nothing foreign
  is written.\<close>

theorem SaveBatch_append_only:
  assumes "SaveBatch env rs (s, fs) = ((s', fs'), res)" "reorders (se_ord env)"
  shows "\<exists>t. prefix t (lines_of (batch_at (baseDir s) rs p)) \<and> fs_content fs' p = fs_content fs p @ t"
  using assms by (rule SaveBatch_grows)

lemma SaveBatch_append_only_witness:
  "\<exists>t. prefix t (lines_of (batch_at ''logs'' ex_batch ''logs/2025-01-01/00.log.json''))
     \<and> fs_content (snd (fst (ex_out full_env))) ''logs/2025-01-01/00.log.json'' = t"
  using SaveBatch_append_only[OF ex_pairs[of full_env], of "''logs/2025-01-01/00.log.json''"]
  by (simp add: NewFileRepo_def ex_fs_def fs_content_def fs_file_def)

text \<open>(C13) When the context stays alive and the operating system refuses nothing, \<^verbatim>\<open>SaveBatch\<close>
  succeeds for every batch whose UTC timestamps JSON can represent.\<close>

theorem SaveBatch_succeeds:
  assumes "\<forall>i. se_ctx env i = None" "reorders (se_ord env)"
    and "\<forall>d. mkdir_err (se_os env) d = None" "\<forall>p. open_err (se_os env) p = None"
    and "\<forall>p i. write_out (se_os env) p i = None"
    and "\<forall>r \<in> set rs. marshal_record (utc_record r) \<noteq> None"
  shows "snd (SaveBatch env rs st) = None"
proof (cases "rs = []")
  case False
  let ?f = "\<lambda>r. hour_path (baseDir (fst st)) (Timestamp r)"
  let ?m = "grp_all ?f (map utc_record rs) []"
  have "\<forall>(p, g) \<in> set (se_ord env ?m). \<forall>r \<in> set g. marshal_record r \<noteq> None"
    using assms(6) by (auto simp: reordersD(2)[OF assms(2)] dest!: grp_all_entry)
  then have "snd (save_groups (se_os env) (se_ord env ?m) st) = None"
    by (rule save_groups_total[OF assms(3-5)])
  then show ?thesis using False group_records_total[OF assms(1)] by (simp add: SaveBatch_def)
qed (simp add: SaveBatch_def)

lemma SaveBatch_succeeds_witness: "snd (ex_out ex_env) = None"
proof (rule SaveBatch_succeeds)
  show "\<forall>r \<in> set ex_batch. marshal_record (utc_record r) \<noteq> None" by code_simp
qed (simp_all add: ex_env_def os_fine_def)

text \<open>Two timestamps share a log file exactly when they lie in the same UTC hour, for all years JSON can
  represent.\<close>

theorem hour_path_same_iff:
  assumes "0 \<le> Year t" "Year t \<le> 9999" "0 \<le> Year u" "Year u \<le> 9999" "t_off t = 0" "t_off u = 0"
  shows "hour_path base t = hour_path base u \<longleftrightarrow> TruncateHour t = TruncateHour u"
  using assms by (rule hour_path_same)

lemma hour_path_same_iff_witness:
  "hour_path ''logs'' \<lparr>t_sec = 63871286400, t_nsec = 0, t_off = 0\<rparr> = hour_path ''logs'' \<lparr>t_sec = 63871289999, t_nsec = 5, t_off = 0\<rparr>"
  by (subst hour_path_same_iff) code_simp+

text \<open>(C11) Round trip through the disk: after any sequence of batches that were all saved, from log
  files that end with complete lines, reading the log files back yields exactly the records that were there and
  all saved records, each in UTC and with its strings as valid UTF-8; and the files again end with complete
  lines.\<close>

theorem SaveBatch_seq_roundtrip:
  assumes "\<forall>(env, rs) \<in> set bs. reorders (se_ord env) \<and> (\<forall>r \<in> set rs. wf_time (Timestamp r))"
    and "logs_clean st" "files.save_seq bs st = (st', res)" "\<forall>r \<in> set res. r = None"
  shows "logs_clean st' \<and> stored_files st' = stored_files st + mset (map readable (concat (map snd bs)))"
  using assms by (intro files.save_seq_ok[of bs st st' res]) (auto simp: list_all_iff)

lemma SaveBatch_seq_roundtrip_witness:
  "stored_files (fst (ex_out ex_env)) = mset (map readable ex_batch)"
  using SaveBatch_seq_roundtrip[of "[(ex_env, ex_batch)]" "(NewFileRepo ''logs'', ex_fs)" "fst (ex_out ex_env)" "[None]"]
    ex_save by (simp add: split_beta)

text \<open>A failed \<^verbatim>\<open>SaveBatch\<close> stores some part of its batch and loses nothing: the readable records
  afterwards are the earlier ones and a sub-multiset of the batch (so a caller that retries the batch can
  duplicate records but not lose them).\<close>

theorem SaveBatch_failed_partial:
  assumes "SaveBatch env rs st = (st', Some err)" "reorders (se_ord env)" "logs_clean st"
    and "\<forall>r \<in> set rs. wf_time (Timestamp r)"
  shows "\<exists>part. part \<subseteq># mset (map readable rs) \<and> stored_files st' = stored_files st + part"
  using assms by (intro files.save_err[of env st rs st' err]) (auto simp: list_all_iff)

lemma SaveBatch_failed_partial_witness:
  "\<exists>part. part \<subseteq># mset (map readable ex_batch) \<and> stored_files (fst (ex_out full_env)) = part"
proof -
  have "ex_out full_env = (fst (ex_out full_env), Some (wrap ''write log record: '' (OsErr False ''no space left on device'')))"
    using full_save by (metis prod.collapse)
  then show ?thesis using SaveBatch_failed_partial by fastforce
qed

text \<open>A write that is cut in the middle of a line damages the next record as well: the failed call leaves the line open, the
  record of the next successful call for that hour is appended to it, and the two together are one line. The hour then holds
  what it held before and whatever that one line reads as, and nothing when it is no record.\<close>

theorem torn_write_damages_next:
  assumes torn: "SaveBatch env [r] (s, fs) = ((s1, fs1), Some err)" "reorders (se_ord env)" "logs_clean (s, fs)"
    and cut: "fs_content fs1 p = fs_content fs p @ take n d" "marshal_record (utc_record r) = Some d" "p = hour_path (baseDir s) (UTC (Timestamp r))"
    and saved: "SaveBatch env' [r'] (s1, fs1) = ((s2, fs2), None)" "reorders (se_ord env')"
    and same: "marshal_record (utc_record r') = Some d'" "hour_path (baseDir s) (UTC (Timestamp r')) = p"
  shows "file_records (fs_content fs2 p) = file_records (fs_content fs p)
    @ (case unmarshal_record (take n d @ d') of None \<Rightarrow> [] | Some x \<Rightarrow> [x])"
proof -
  have "baseDir s1 = baseDir s" using SaveBatch_effect[OF torn(1,2)] by blast
  then have "fs_content fs2 p = fs_content fs p @ take n d @ d' @ [newline]"
    using SaveBatch_one(1)[OF saved, of p] same cut(1) by simp
  moreover have "newline \<notin> set (take n d)" "newline \<notin> set d'" using marshal_no_newline[OF cut(2)] marshal_no_newline[OF same(1)]
    by (auto dest: in_set_takeD)
  moreover have "ends_line (fs_content fs p)" using torn(3) cut(3) by (simp add: logs_clean_iff)
  ultimately show ?thesis by (simp add: merged_line)
qed

lemma torn_write_damages_next_witness:
  "snd (SaveBatch ex_env (take 1 ex_batch) (fst torn)) = None \<and>
   file_records (fs_content (snd (fst (SaveBatch ex_env (take 1 ex_batch) (fst torn)))) ''logs/2025-01-01/00.log.json'') = []"
  by code_simp

end
