(* ===== verification/File_Locks.thy ===== *)
theory File_Locks
  imports File_Repo
begin

section \<open>Concurrent appends to the hourly files\<close>

text \<open>
  Several calls of \<^verbatim>\<open>appendRecords\<close> run side by side (HTTP handlers, consumers). Call \<open>i\<close> appends
  the group \<open>snd (job i)\<close> to the file \<open>fst (job i)\<close>. The program counter \<open>lpc\<close> follows the
  statements: \<^verbatim>\<open>lockFor\<close> (atomic under \<^verbatim>\<open>s.mu\<close>), \<^verbatim>\<open>lock.Lock()\<close>, \<^verbatim>\<open>OpenFile\<close>, one step per
  record, and the deferred unlock on every way out. The operating system answers call \<open>i\<close> with \<open>os i\<close>, so that a
  write of one call may fail where the same write of another succeeds. \<open>ls_hist\<close> is a ghost variable: the bytes every call
  wrote to a file, in the order in which the calls took the lock.
\<close>

datatype lpc =
    LStart
  | LWait nat
  | LOpen nat
  | LWrite nat nat
  | LUnlock nat "goerr option"
  | LDone "goerr option"

record lk_state =
  ls_repo :: FileRepo
  ls_fs :: fsys
  ls_held :: "nat set"
  ls_pc :: "nat \<Rightarrow> lpc"
  ls_hist :: "string \<Rightarrow> (nat \<times> string) list"

definition goto :: "nat \<Rightarrow> lpc \<Rightarrow> lk_state \<Rightarrow> lk_state" where
  "goto i pc S = S\<lparr>ls_pc := (ls_pc S)(i := pc)\<rparr>"

definition note_bytes :: "string \<Rightarrow> string \<Rightarrow> lk_state \<Rightarrow> lk_state" where
  "note_bytes p b S =
     (let h = ls_hist S p in S\<lparr>ls_hist := (ls_hist S)(p := butlast h @ [(fst (last h), snd (last h) @ b)])\<rparr>)"

inductive lk_step :: "(nat \<Rightarrow> os_env) \<Rightarrow> (nat \<Rightarrow> string \<times> LogRecord list) \<Rightarrow> lk_state \<Rightarrow> lk_state \<Rightarrow> bool"
  for os job where
  step_lockFor: "ls_pc S i = LStart \<Longrightarrow> lockFor (fst (job i)) (ls_repo S) = (s', l) \<Longrightarrow>
     lk_step os job S (goto i (LWait l) (S\<lparr>ls_repo := s'\<rparr>))"
| step_lock: "ls_pc S i = LWait l \<Longrightarrow> l \<notin> ls_held S \<Longrightarrow>
     lk_step os job S (goto i (LOpen l) (S\<lparr>ls_held := insert l (ls_held S),
       ls_hist := (ls_hist S)(fst (job i) := ls_hist S (fst (job i)) @ [(i, [])])\<rparr>))"
| step_open_err: "ls_pc S i = LOpen l \<Longrightarrow> OpenAppend (os i) (fst (job i)) (ls_fs S) = (fs', Some e) \<Longrightarrow>
     lk_step os job S (goto i (LUnlock l (Some (wrap ''open log file: '' e))) (S\<lparr>ls_fs := fs'\<rparr>))"
| step_open: "ls_pc S i = LOpen l \<Longrightarrow> OpenAppend (os i) (fst (job i)) (ls_fs S) = (fs', None) \<Longrightarrow>
     lk_step os job S (goto i (LWrite l 0) (S\<lparr>ls_fs := fs'\<rparr>))"
| step_marshal_err: "ls_pc S i = LWrite l k \<Longrightarrow> k < length (snd (job i)) \<Longrightarrow> marshal_record (snd (job i) ! k) = None \<Longrightarrow>
     lk_step os job S (goto i (LUnlock l (Some (wrap ''marshal log record: '' marshal_err))) S)"
| step_write: "ls_pc S i = LWrite l k \<Longrightarrow> k < length (snd (job i)) \<Longrightarrow> marshal_record (snd (job i) ! k) = Some d \<Longrightarrow>
     WriteAppend (os i) (fst (job i)) k (d @ [newline]) (ls_fs S) = (fs', None) \<Longrightarrow>
     lk_step os job S (goto i (LWrite l (Suc k)) (note_bytes (fst (job i)) (d @ [newline]) (S\<lparr>ls_fs := fs'\<rparr>)))"
| step_write_err: "ls_pc S i = LWrite l k \<Longrightarrow> k < length (snd (job i)) \<Longrightarrow> marshal_record (snd (job i) ! k) = Some d \<Longrightarrow>
     write_out (os i) (fst (job i)) k = Some (n, e) \<Longrightarrow>
     WriteAppend (os i) (fst (job i)) k (d @ [newline]) (ls_fs S) = (fs', Some e) \<Longrightarrow>
     lk_step os job S (goto i (LUnlock l (Some (wrap ''write log record: '' e)))
       (note_bytes (fst (job i)) (take n (d @ [newline])) (S\<lparr>ls_fs := fs'\<rparr>)))"
| step_end: "ls_pc S i = LWrite l k \<Longrightarrow> k = length (snd (job i)) \<Longrightarrow>
     lk_step os job S (goto i (LUnlock l None) S)"
| step_unlock: "ls_pc S i = LUnlock l res \<Longrightarrow>
     lk_step os job S (goto i (LDone res) (S\<lparr>ls_held := ls_held S - {l}\<rparr>))"

definition lk_init :: "FileRepo \<Rightarrow> fsys \<Rightarrow> lk_state" where
  "lk_init s fs = \<lparr>ls_repo = s, ls_fs = fs, ls_held = {}, ls_pc = (\<lambda>_. LStart), ls_hist = (\<lambda>_. [])\<rparr>"

inductive lk_reach :: "(nat \<Rightarrow> os_env) \<Rightarrow> (nat \<Rightarrow> string \<times> LogRecord list) \<Rightarrow> FileRepo \<Rightarrow> fsys \<Rightarrow> lk_state \<Rightarrow> bool"
  for os job s fs where
  reach_init: "lk_reach os job s fs (lk_init s fs)"
| reach_step: "lk_reach os job s fs S \<Longrightarrow> lk_step os job S T \<Longrightarrow> lk_reach os job s fs T"

subsection \<open>Invariant\<close>

fun holds :: "lpc \<Rightarrow> nat option" where
  "holds (LOpen l) = Some l"
| "holds (LWrite l k) = Some l"
| "holds (LUnlock l res) = Some l"
| "holds _ = None"

fun knows :: "lpc \<Rightarrow> nat option" where
  "knows (LWait l) = Some l"
| "knows pc = holds pc"

fun result_of :: "lpc \<Rightarrow> goerr option option" where
  "result_of (LUnlock l res) = Some res"
| "result_of (LDone res) = Some res"
| "result_of _ = None"

definition excl :: "(nat \<Rightarrow> string \<times> LogRecord list) \<Rightarrow> lk_state \<Rightarrow> bool" where
  "excl job S \<longleftrightarrow>
     (\<forall>i l. knows (ls_pc S i) = Some l \<longrightarrow> alookup (fileLocks (ls_repo S)) (fst (job i)) = Some l) \<and>
     (\<forall>i l. holds (ls_pc S i) = Some l \<longrightarrow> l \<in> ls_held S) \<and>
     (\<forall>i j l. holds (ls_pc S i) = Some l \<longrightarrow> holds (ls_pc S j) = Some l \<longrightarrow> i = j)"

text \<open>What call \<open>i\<close> has written, by its program counter; \<open>None\<close> when it is over.\<close>

fun block_now :: "LogRecord list \<Rightarrow> lpc \<Rightarrow> string option" where
  "block_now g (LOpen l) = Some []"
| "block_now g (LWrite l k) = Some (lines_of (take k g))"
| "block_now g _ = None"

definition blocks_ok :: "(nat \<Rightarrow> string \<times> LogRecord list) \<Rightarrow> fsys \<Rightarrow> lk_state \<Rightarrow> bool" where
  "blocks_ok job fs S \<longleftrightarrow>
     (\<forall>p. fs_content (ls_fs S) p = fs_content fs p @ concat (map snd (ls_hist S p))) \<and>
     (\<forall>p. distinct (map fst (ls_hist S p))) \<and>
     (\<forall>p i b. (i, b) \<in> set (ls_hist S p) \<longrightarrow> fst (job i) = p \<and> prefix b (lines_of (snd (job i)))
        \<and> ls_pc S i \<noteq> LStart \<and> (\<forall>l. ls_pc S i \<noteq> LWait l)) \<and>
     (\<forall>i b. block_now (snd (job i)) (ls_pc S i) = Some b \<longrightarrow>
        ls_hist S (fst (job i)) \<noteq> [] \<and> last (ls_hist S (fst (job i))) = (i, b)) \<and>
     (\<forall>i l k. ls_pc S i = LWrite l k \<longrightarrow> k \<le> length (snd (job i))) \<and>
     (\<forall>i. result_of (ls_pc S i) = Some None \<longrightarrow> (i, lines_of (snd (job i))) \<in> set (ls_hist S (fst (job i))))"

lemma goto_sel [simp]:
  "ls_pc (goto i pc S) j = (if i = j then pc else ls_pc S j)" "ls_repo (goto i pc S) = ls_repo S"
  "ls_fs (goto i pc S) = ls_fs S" "ls_held (goto i pc S) = ls_held S" "ls_hist (goto i pc S) = ls_hist S"
  by (simp_all add: goto_def)

lemma note_bytes_sel [simp]:
  "ls_pc (note_bytes p b S) = ls_pc S" "ls_repo (note_bytes p b S) = ls_repo S"
  "ls_fs (note_bytes p b S) = ls_fs S" "ls_held (note_bytes p b S) = ls_held S"
  "ls_hist (note_bytes p b S) q =
     (if p = q then butlast (ls_hist S p) @ [(fst (last (ls_hist S p)), snd (last (ls_hist S p)) @ b)] else ls_hist S q)"
  by (simp_all add: note_bytes_def Let_def)

lemma lockFor_lookup:
  assumes "lockFor p s = (s', l)"
  shows "alookup (fileLocks s') p = Some l" "alookup (fileLocks s) q = Some k \<Longrightarrow> alookup (fileLocks s') q = Some k"
proof -
  have app: "alookup (m @ [(p, n)]) q = (case alookup m q of None \<Rightarrow> if p = q then Some n else None | Some v \<Rightarrow> Some v)"
    for m :: "(string \<times> nat) list" and q n by (induction m) auto
  show "alookup (fileLocks s') p = Some l"
    using assms by (auto simp: lockFor_def Let_def app split: option.splits)
  show "alookup (fileLocks s) q = Some k \<Longrightarrow> alookup (fileLocks s') q = Some k"
    using assms by (auto simp: lockFor_def Let_def app split: option.splits)
qed

lemma knows_holds: "holds pc = Some l \<Longrightarrow> knows pc = Some l"
  by (cases pc) auto

lemma exclD:
  assumes "excl job S" "holds (ls_pc S i) = Some l"
  shows "alookup (fileLocks (ls_repo S)) (fst (job i)) = Some l" "l \<in> ls_held S"
  using assms knows_holds[OF assms(2)] unfolding excl_def by blast+

lemma excl_keep:
  assumes "excl job S" "holds (ls_pc S i) = Some l" "holds pc = Some l"
    and "ls_repo T = ls_repo S" "ls_held T = ls_held S" "ls_pc T = ls_pc S"
  shows "excl job (goto i pc T)"
  using assms(1) knows_holds[OF assms(2)] knows_holds[OF assms(3)] assms(2,3)
  by (auto simp: excl_def assms(4-6))

lemma excl_step: "lk_step os job S T \<Longrightarrow> excl job S \<Longrightarrow> excl job T"
proof (induction rule: lk_step.induct)
  case (step_lockFor S i s' l)
  then show ?case using lockFor_lookup[OF step_lockFor(2)] by (auto simp: excl_def split: if_splits)
next
  case (step_lock S i l)
  then show ?case by (auto simp: excl_def split: if_splits)
next
  case (step_unlock S i l res)
  then have "holds (ls_pc S i) = Some l" by simp
  then show ?case using step_unlock(2) by (auto simp: excl_def split: if_splits)
qed (auto intro: excl_keep)

text \<open>Two calls that hold a lock for the same file are the same call.\<close>

lemma excl_path:
  assumes "excl job S" "holds (ls_pc S i) \<noteq> None" "holds (ls_pc S j) \<noteq> None" "fst (job i) = fst (job j)"
  shows "i = j"
proof -
  obtain l k where lk: "holds (ls_pc S i) = Some l" "holds (ls_pc S j) = Some k" using assms(2,3) by auto
  then have "l = k" using exclD(1)[OF assms(1) lk(1)] exclD(1)[OF assms(1) lk(2)] assms(4) by simp
  then show ?thesis using assms(1) lk by (simp add: excl_def)
qed

lemma block_now_holds: "block_now g pc = Some b \<Longrightarrow> holds pc \<noteq> None"
  by (cases pc) auto

lemma blocks_okI:
  assumes "\<And>p. fs_content (ls_fs S) p = fs_content fs p @ concat (map snd (ls_hist S p))"
    and "\<And>p. distinct (map fst (ls_hist S p))"
    and "\<And>p i b. (i, b) \<in> set (ls_hist S p) \<Longrightarrow> fst (job i) = p \<and> prefix b (lines_of (snd (job i)))
        \<and> ls_pc S i \<noteq> LStart \<and> (\<forall>l. ls_pc S i \<noteq> LWait l)"
    and "\<And>i b. block_now (snd (job i)) (ls_pc S i) = Some b \<Longrightarrow>
        ls_hist S (fst (job i)) \<noteq> [] \<and> last (ls_hist S (fst (job i))) = (i, b)"
    and "\<And>i l k. ls_pc S i = LWrite l k \<Longrightarrow> k \<le> length (snd (job i))"
    and "\<And>i. result_of (ls_pc S i) = Some None \<Longrightarrow> (i, lines_of (snd (job i))) \<in> set (ls_hist S (fst (job i)))"
  shows "blocks_ok job fs S"
  using assms by (simp add: blocks_ok_def)

lemma blocks_goto:
  assumes ok: "blocks_ok job fs S"
    and same: "ls_hist T = ls_hist S" "ls_pc T = ls_pc S" "\<And>p. fs_content (ls_fs T) p = fs_content (ls_fs S) p"
    and pc: "pc \<noteq> LStart" "\<And>l. pc = LWait l \<Longrightarrow> ls_pc S i = LStart"
      "\<And>b. block_now (snd (job i)) pc = Some b \<Longrightarrow> block_now (snd (job i)) (ls_pc S i) = Some b"
      "\<And>l k. pc = LWrite l k \<Longrightarrow> k \<le> length (snd (job i))"
      "result_of pc = Some None \<Longrightarrow> (i, lines_of (snd (job i))) \<in> set (ls_hist S (fst (job i)))"
  shows "blocks_ok job fs (goto i pc T)"
proof -
  have "pc \<noteq> LWait l" if "(i, b) \<in> set (ls_hist S p)" for b p l
    using that ok pc(2) by (auto simp: blocks_ok_def)
  then show ?thesis using ok pc(1,3-) by (auto simp: blocks_ok_def same)
qed

lemma blocks_lock:
  assumes ok: "blocks_ok job fs S" and ex: "excl job S" and l: "ls_pc S i = LWait l" "l \<notin> ls_held S"
  shows "blocks_ok job fs (goto i (LOpen l) (S\<lparr>ls_held := insert l (ls_held S),
       ls_hist := (ls_hist S)(fst (job i) := ls_hist S (fst (job i)) @ [(i, [])])\<rparr>))"
proof -
  have new: "(i, b) \<notin> set (ls_hist S p)" for b p using ok l(1) unfolding blocks_ok_def by metis
  have "alookup (fileLocks (ls_repo S)) (fst (job i)) = Some l" using ex l(1) by (simp add: excl_def)
  then have "holds (ls_pc S j) = None" if "fst (job j) = fst (job i)" for j
    using exclD[OF ex, of j] l(2) that by (cases "holds (ls_pc S j)") auto
  then have none: "block_now (snd (job j)) (ls_pc S j) = None" if "fst (job j) = fst (job i)" for j
    using that block_now_holds by (metis option.exhaust)
  let ?p = "fst (job i)"
  let ?T = "goto i (LOpen l) (S\<lparr>ls_held := insert l (ls_held S), ls_hist := (ls_hist S)(?p := ls_hist S ?p @ [(i, [])])\<rparr>)"
  have T: "ls_hist ?T ?p = ls_hist S ?p @ [(i, [])]" "q \<noteq> ?p \<Longrightarrow> ls_hist ?T q = ls_hist S q" for q by simp_all
  note O = ok[unfolded blocks_ok_def]
  have entry: "fst (job j) = p \<and> prefix c (lines_of (snd (job j))) \<and> ls_pc ?T j \<noteq> LStart \<and> (\<forall>l. ls_pc ?T j \<noteq> LWait l)"
    if "(j, c) \<in> set (ls_hist ?T p)" for p j c
  proof (cases "j = i")
    case True
    then show ?thesis using that new[of c p] by (cases "p = ?p") auto
  next
    case False
    then have "(j, c) \<in> set (ls_hist S p)" using that by (cases "p = ?p") auto
    then show ?thesis using O False by auto
  qed
  have now: "ls_hist ?T (fst (job j)) \<noteq> [] \<and> last (ls_hist ?T (fst (job j))) = (j, c)"
    if "block_now (snd (job j)) (ls_pc ?T j) = Some c" for j c
  proof (cases "j = i")
    case False
    then have "block_now (snd (job j)) (ls_pc S j) = Some c" "fst (job j) \<noteq> ?p" using that none[of j] by auto
    then show ?thesis using O T(2)[of "fst (job j)"] by auto
  qed (use that in auto)
  have "i \<notin> fst ` set (ls_hist S p)" for p using new by auto
  then have dist: "distinct (map fst (ls_hist ?T p))" for p using O by (cases "p = ?p") auto
  have content: "fs_content (ls_fs ?T) p = fs_content fs p @ concat (map snd (ls_hist ?T p))" for p
    using O by (cases "p = ?p") auto
  have res: "(j, lines_of (snd (job j))) \<in> set (ls_hist ?T (fst (job j)))" if "result_of (ls_pc ?T j) = Some None" for j
  proof -
    have j: "j \<noteq> i" using that by auto
    then have "(j, lines_of (snd (job j))) \<in> set (ls_hist S (fst (job j)))" using that O by simp
    then show ?thesis by (cases "fst (job j) = ?p") auto
  qed
  have len: "m \<le> length (snd (job j))" if "ls_pc ?T j = LWrite n m" for j n m
    using that O by (auto split: if_splits)
  show ?thesis by (rule blocks_okI[OF content dist entry now len res])
qed

lemma blocks_write:
  assumes ok: "blocks_ok job fs S" and ex: "excl job S"
    and w: "ls_pc S i = LWrite l k" "k < length (snd (job i))"
    and b: "prefix (lines_of (take k (snd (job i))) @ b) (lines_of (snd (job i)))"
    and pc: "pc = LWrite l (Suc k) \<and> b = line_of (snd (job i) ! k) \<or> (\<exists>e. pc = LUnlock l (Some e))"
    and fs': "fs_content fs' (fst (job i)) = fs_content (ls_fs S) (fst (job i)) @ b"
      "\<And>q. q \<noteq> fst (job i) \<Longrightarrow> fs_content fs' q = fs_content (ls_fs S) q"
  shows "blocks_ok job fs (goto i pc (note_bytes (fst (job i)) b (S\<lparr>ls_fs := fs'\<rparr>)))"
proof -
  let ?p = "fst (job i)" and ?old = "lines_of (take k (snd (job i)))"
  have h: "ls_hist S ?p \<noteq> []" "last (ls_hist S ?p) = (i, ?old)" using ok w(1) by (auto simp: blocks_ok_def)
  define hs where "hs = butlast (ls_hist S ?p)"
  have hist: "ls_hist S ?p = hs @ [(i, ?old)]" using h by (metis append_butlast_last_id hs_def)
  have oth: "block_now (snd (job j)) (ls_pc S j) = None" if "j \<noteq> i" "fst (job j) = ?p" for j
    using excl_path[OF ex, of j i] block_now_holds[of "snd (job j)" "ls_pc S j"] that w(1)
    by (cases "block_now (snd (job j)) (ls_pc S j)") auto
  have nxt: "lines_of (take (Suc k) (snd (job i))) = ?old @ line_of (snd (job i) ! k)"
    using w(2) by (simp add: take_Suc_conv_app_nth)
  let ?T = "goto i pc (note_bytes ?p b (S\<lparr>ls_fs := fs'\<rparr>))"
  have T: "ls_hist ?T ?p = hs @ [(i, ?old @ b)]" "q \<noteq> ?p \<Longrightarrow> ls_hist ?T q = ls_hist S q" for q
    using hist by auto
  note O = ok[unfolded blocks_ok_def]
  have entry: "fst (job j) = p \<and> prefix c (lines_of (snd (job j))) \<and> ls_pc ?T j \<noteq> LStart \<and> (\<forall>l. ls_pc ?T j \<noteq> LWait l)"
    if "(j, c) \<in> set (ls_hist ?T p)" for p j c
  proof (cases "j = i \<and> p = ?p \<and> c = ?old @ b")
    case True
    then show ?thesis using b pc by auto
  next
    case False
    then have "(j, c) \<in> set (ls_hist S p)" using that T hist by (cases "p = ?p") auto
    then show ?thesis using O pc by auto
  qed
  have now: "ls_hist ?T (fst (job j)) \<noteq> [] \<and> last (ls_hist ?T (fst (job j))) = (j, c)"
    if "block_now (snd (job j)) (ls_pc ?T j) = Some c" for j c
  proof (cases "j = i")
    case True
    then show ?thesis using that pc nxt T(1) by auto
  next
    case False
    then have "block_now (snd (job j)) (ls_pc S j) = Some c" "fst (job j) \<noteq> ?p" using that oth[of j] by auto
    then show ?thesis using O T(2)[of "fst (job j)"] by auto
  qed
  have res: "(j, lines_of (snd (job j))) \<in> set (ls_hist ?T (fst (job j)))" if "result_of (ls_pc ?T j) = Some None" for j
  proof -
    have "j \<noteq> i" "(j, lines_of (snd (job j))) \<in> set (ls_hist S (fst (job j)))" using that pc O by (auto split: if_splits)
    then show ?thesis using T(2)[of "fst (job j)"] hist by (cases "fst (job j) = ?p") (auto simp: T(1))
  qed
  have content: "fs_content (ls_fs ?T) p = fs_content fs p @ concat (map snd (ls_hist ?T p))" for p
    using O fs' hist T by (cases "p = ?p") auto
  have dist: "distinct (map fst (ls_hist ?T p))" for p
  proof (cases "p = ?p")
    case True
    have "distinct (map fst (ls_hist S ?p))" using O by blast
    then show ?thesis unfolding True T(1) hist by simp
  qed (use O T(2) in auto)
  have len: "m \<le> length (snd (job j))" if "ls_pc ?T j = LWrite n m" for j n m
    using that O pc w(2) by (auto split: if_splits)
  show ?thesis by (rule blocks_okI[OF content dist entry now len res])
qed

lemma take_lines: "k < length g \<Longrightarrow> lines_of g = lines_of (take k g) @ line_of (g ! k) @ lines_of (drop (Suc k) g)"
  by (metis append.assoc append_take_drop_id lines_of_simps(3) take_Suc_conv_app_nth lines_of_simps(1,2) append_Nil2)

lemma blocks_step:
  assumes "lk_step os job S T" "excl job S" "blocks_ok job fs S"
  shows "blocks_ok job fs T"
  using assms
proof (cases rule: lk_step.cases)
  case (step_lockFor i s' l)
  then show ?thesis using assms(3) by (auto intro!: blocks_goto)
next
  case (step_lock i l)
  then show ?thesis using assms(2,3) by (auto intro!: blocks_lock)
next
  case (step_open_err i l fs' e)
  then show ?thesis using assms(3)
    by (auto intro!: blocks_goto simp: OpenAppend_def fs_content_def split: option.splits if_splits)
next
  case (step_open i l fs')
  then show ?thesis using assms(3)
    by (auto intro!: blocks_goto simp: OpenAppend_def fs_content_def split: option.splits if_splits)
next
  case (step_write i l k d fs')
  then show ?thesis unfolding step_write(1) using assms(2,3) take_lines[of k "snd (job i)"]
    by (intro blocks_write) (auto simp: WriteAppend_def line_of_def split: option.splits)
next
  case (step_write_err i l k d n e fs')
  have "prefix (take n (d @ [newline])) (line_of (snd (job i) ! k) @ lines_of (drop (Suc k) (snd (job i))))"
    using step_write_err(4) prefix_append_take by (simp add: line_of_def)
  then show ?thesis unfolding step_write_err(1) using step_write_err assms(2,3) take_lines[of k "snd (job i)"]
    by (intro blocks_write) (auto simp: WriteAppend_def)
next
  case (step_end i l k)
  then have "last (ls_hist S (fst (job i))) = (i, lines_of (snd (job i)))" "ls_hist S (fst (job i)) \<noteq> []"
    using assms(3) by (auto simp: blocks_ok_def)
  then have "(i, lines_of (snd (job i))) \<in> set (ls_hist S (fst (job i)))" by (metis last_in_set)
  then show ?thesis using step_end assms(3) by (auto intro!: blocks_goto)
next
  case (step_unlock i l res)
  then show ?thesis using assms(3) by (auto intro!: blocks_goto simp: blocks_ok_def)
qed (use assms(3) in \<open>auto intro!: blocks_goto\<close>)

lemma lk_reach_inv: "lk_reach os job s fs S \<Longrightarrow> excl job S \<and> blocks_ok job fs S"
proof (induction rule: lk_reach.induct)
  case reach_init
  then show ?case by (simp add: lk_init_def excl_def blocks_ok_def)
next
  case (reach_step S T)
  then show ?case using excl_step blocks_step by metis
qed

text \<open>A run to the end of call 0, with call 1 waiting for the same file.\<close>

definition ex_job :: "nat \<Rightarrow> string \<times> LogRecord list" where
  "ex_job i = (''f.log.json'', take 1 ex_batch)"

definition dot_fs :: fsys where
  "dot_fs = \<lparr>fs_files = [], fs_dirs = [''.'']\<rparr>"

lemma ex_marshal: "\<exists>d. marshal_record (snd (ex_job i) ! 0) = Some d"
proof -
  have "marshal_record (hd ex_batch) \<noteq> None" by code_simp
  then show ?thesis by (auto simp: ex_job_def ex_batch_def)
qed

lemma reach_ex: "lk_reach os job s fs S \<Longrightarrow> lk_step os job S T \<Longrightarrow> P T \<Longrightarrow> \<exists>T. lk_reach os job s fs T \<and> P T"
  using reach_step by blast

lemma ex_reach:
  "\<exists>S. lk_reach (\<lambda>_. os_fine 7) ex_job (NewFileRepo []) dot_fs S \<and> ls_pc S 0 = LDone None \<and> ls_pc S 1 = LWait 0"
proof -
  obtain d where d: "marshal_record (snd (ex_job 0) ! 0) = Some d" using ex_marshal by blast
  have dir: "Dir ''f.log.json'' = ''.''" by code_simp
  have len: "length (snd (ex_job i)) = 1" "fst (ex_job i) = ''f.log.json''" for i by (simp_all add: ex_job_def ex_batch_def)
  let ?f = "''f.log.json''" and ?R = "lk_reach (\<lambda>_. os_fine 7) ex_job (NewFileRepo []) dot_fs"
  have "\<exists>S. ?R S \<and> ls_pc S 0 = LWait 0 \<and> ls_pc S 1 = LStart \<and> ls_held S = {} \<and> ls_fs S = dot_fs
      \<and> alookup (fileLocks (ls_repo S)) ?f = Some 0"
    by (rule reach_ex[OF reach_init step_lockFor[where i = 0 and l = 0 and s' = "\<lparr>baseDir = [], fileLocks = [(?f, 0)]\<rparr>"]])
      (simp_all add: lk_init_def lockFor_def NewFileRepo_def len)
  then obtain S where S: "?R S" "ls_pc S 0 = LWait 0" "ls_pc S 1 = LStart" "ls_held S = {}" "ls_fs S = dot_fs"
      "alookup (fileLocks (ls_repo S)) ?f = Some 0" by blast
  have "\<exists>S. ?R S \<and> ls_pc S 0 = LWait 0 \<and> ls_pc S 1 = LWait 0 \<and> ls_held S = {} \<and> ls_fs S = dot_fs"
    by (rule reach_ex[OF S(1) step_lockFor[where i = 1 and l = 0 and s' = "ls_repo S"]]) (use S in \<open>simp_all add: lockFor_def len\<close>)
  then obtain S where S: "?R S" "ls_pc S 0 = LWait 0" "ls_pc S 1 = LWait 0" "ls_held S = {}" "ls_fs S = dot_fs" by blast
  have "\<exists>S. ?R S \<and> ls_pc S 0 = LOpen 0 \<and> ls_pc S 1 = LWait 0 \<and> ls_fs S = dot_fs"
    by (rule reach_ex[OF S(1) step_lock[where i = 0 and l = 0]]) (use S in simp_all)
  then obtain S where S: "?R S" "ls_pc S 0 = LOpen 0" "ls_pc S 1 = LWait 0" "ls_fs S = dot_fs" by blast
  have "\<exists>S. ?R S \<and> ls_pc S 0 = LWrite 0 0 \<and> ls_pc S 1 = LWait 0"
    by (rule reach_ex[OF S(1) step_open[where i = 0 and l = 0 and fs' = "fs_put ?f [] 7 dot_fs"]])
      (use S in \<open>simp_all add: OpenAppend_def os_fine_def dot_fs_def len dir fs_file_def\<close>)
  then obtain S where S: "?R S" "ls_pc S 0 = LWrite 0 0" "ls_pc S 1 = LWait 0" by blast
  have "\<exists>S. ?R S \<and> ls_pc S 0 = LWrite 0 1 \<and> ls_pc S 1 = LWait 0"
    by (rule reach_ex[OF S(1) step_write[where i = 0 and l = 0 and k = 0 and d = d
          and fs' = "fs_put ?f (fs_content (ls_fs S) ?f @ d @ [newline]) 7 (ls_fs S)"]])
      (use S d in \<open>simp_all add: WriteAppend_def os_fine_def len\<close>)
  then obtain S where S: "?R S" "ls_pc S 0 = LWrite 0 1" "ls_pc S 1 = LWait 0" by blast
  have "\<exists>S. ?R S \<and> ls_pc S 0 = LUnlock 0 None \<and> ls_pc S 1 = LWait 0"
    by (rule reach_ex[OF S(1) step_end[where i = 0 and l = 0 and k = 1]]) (use S in \<open>simp_all add: len\<close>)
  then obtain S where S: "?R S" "ls_pc S 0 = LUnlock 0 None" "ls_pc S 1 = LWait 0" by blast
  show ?thesis
    by (rule reach_ex[OF S(1) step_unlock[where i = 0 and l = 0 and res = None]]) (use S in simp_all)
qed

text \<open>(C10) Concurrent batches never interleave inside an hourly file: at every moment of every interleaving of
  \<^verbatim>\<open>appendRecords\<close> calls, a file is its initial content followed by one contiguous block per call, each a
  prefix of that call's lines, and the block of a call that has returned without error is complete.\<close>

theorem appends_do_not_interleave:
  assumes "lk_reach os job s fs S"
  shows "\<exists>blocks. fs_content (ls_fs S) p = fs_content fs p @ concat (map snd blocks) \<and> distinct (map fst blocks)
    \<and> (\<forall>(i, b) \<in> set blocks. fst (job i) = p \<and> prefix b (lines_of (snd (job i))))
    \<and> (\<forall>i. ls_pc S i = LDone None \<and> fst (job i) = p \<longrightarrow> (i, lines_of (snd (job i))) \<in> set blocks)"
  using lk_reach_inv[OF assms] by (intro exI[of _ "ls_hist S p"]) (auto simp: blocks_ok_def)

lemma appends_do_not_interleave_witness:
  "\<exists>S blocks. lk_reach (\<lambda>_. os_fine 7) ex_job (NewFileRepo []) dot_fs S
     \<and> fs_content (ls_fs S) ''f.log.json'' = concat (map snd blocks) \<and> (0::nat, lines_of (take 1 ex_batch)) \<in> set blocks"
proof -
  obtain S where S: "lk_reach (\<lambda>_. os_fine 7) ex_job (NewFileRepo []) dot_fs S" "ls_pc S 0 = LDone None" using ex_reach by blast
  have "fs_content dot_fs ''f.log.json'' = []" by (simp add: dot_fs_def fs_content_def fs_file_def)
  moreover obtain blocks where "fs_content (ls_fs S) ''f.log.json'' = fs_content dot_fs ''f.log.json'' @ concat (map snd blocks)"
      "\<forall>i. ls_pc S i = LDone None \<and> fst (ex_job i) = ''f.log.json'' \<longrightarrow> (i, lines_of (snd (ex_job i))) \<in> set blocks"
    using appends_do_not_interleave[OF S(1), of "''f.log.json''"] by blast
  ultimately have "fs_content (ls_fs S) ''f.log.json'' = concat (map snd blocks)"
      "(0, lines_of (take 1 ex_batch)) \<in> set blocks"
    using S(2) by (simp_all add: ex_job_def)
  then show ?thesis using S(1) by blast
qed

end
