(* ===== verification/Go_Csv.thy ===== *)
theory Go_Csv
  imports Go_Json
begin

section \<open>Package encoding/csv\<close>

text \<open>
  \<open>ReadAll\<close> is \<^verbatim>\<open>csv.Reader.ReadAll\<close> with a comma, \<^verbatim>\<open>TrimLeadingSpace\<close> and the other options at their defaults: every
  record must have as many fields as the first one, a quote may only open a field, empty lines are skipped, a
  quoted field may span lines. \<open>readings\<close> is what \<^verbatim>\<open>readLine\<close> returns call by call: complete lines with the carriage
  return before the newline removed, then the rest. The input ends with EOF or with the error \<open>e\<close> of the
  underlying reader, which the last reading carries. Errors are the package's sentinel errors; the position that
  \<^verbatim>\<open>ParseError\<close> prefixes is not modelled.
\<close>

abbreviation comma :: char where "comma \<equiv> CHR '',''"
abbreviation creturn :: char where "creturn \<equiv> CHR 0x0D"

type_synonym reading = "string \<times> goerr option"

definition ErrBareQuote :: goerr where "ErrBareQuote = ErrMsg (''bare '' @ [dquote] @ '' in non-quoted field'')"
definition ErrQuote :: goerr where "ErrQuote = ErrMsg (''extraneous or missing '' @ [dquote] @ '' in quoted-field'')"
definition ErrFieldCount :: goerr where "ErrFieldCount = ErrMsg ''wrong number of fields''"

definition drop_cret :: "string \<Rightarrow> string" where
  "drop_cret l = (if l \<noteq> [] \<and> last l = creturn then butlast l else l)"

definition readings :: "goerr option \<Rightarrow> string \<Rightarrow> reading list" where
  "readings e s =
     (let parts = split_on newline s; rest = last parts in
      map (\<lambda>l. (drop_cret l @ [newline], None)) (butlast parts)
      @ (case e of
           None \<Rightarrow> if rest = [] then [] else [(drop_cret rest, None)]
         | Some err \<Rightarrow> [(rest, Some err)]))"

text \<open>The rest of a quoted field: \<open>QNext\<close> a comma follows, \<open>QLast\<close> the record ends.\<close>

datatype qout = QNext string string "goerr option" "reading list" | QLast string "goerr option" "reading list" | QErr goerr

function q_scan :: "string \<Rightarrow> string \<Rightarrow> goerr option \<Rightarrow> reading list \<Rightarrow> qout" where
  "q_scan (c # l) acc er rd =
     (if c \<noteq> dquote then q_scan l (acc @ [c]) er rd
      else case l of
             [] \<Rightarrow> QLast acc er rd
           | d # l' \<Rightarrow>
               if d = dquote then q_scan l' (acc @ [dquote]) er rd
               else if d = comma then QNext acc l' er rd
               else if l = [newline] then QLast acc er rd
               else QErr ErrQuote)"
| "q_scan [] acc (Some e) rd = QErr e"
| "q_scan [] acc None [] = QErr ErrQuote"
| "q_scan [] acc None ((l, er) # rd) = q_scan l acc er rd"
  by pat_completeness auto
termination
  by (relation "measures [\<lambda>(l, acc, er, rd). length rd, \<lambda>(l, acc, er, rd). length l]") auto

definition rd_size :: "string \<Rightarrow> reading list \<Rightarrow> nat" where
  "rd_size l rd = length l + sum_list (map (\<lambda>(l, _). length l + 1) rd)"

lemma q_scan_size:
  "q_scan l acc er rd = QNext f l' er' rd' \<Longrightarrow> rd_size l' rd' < rd_size l rd \<and> length rd' \<le> length rd"
  "q_scan l acc er rd = QLast f er' rd' \<Longrightarrow> length rd' \<le> length rd"
  by (induction l acc er rd rule: q_scan.induct) (auto simp: rd_size_def split: if_splits list.splits)

datatype fout = FDone "string list" "goerr option" "reading list" | FErrd goerr

lemma trim_left_le: "length (trim_left s) \<le> length s"
  by (induction s rule: trim_left.induct) (subst trim_left.simps, auto)

function fields_loop :: "string \<Rightarrow> goerr option \<Rightarrow> reading list \<Rightarrow> string list \<Rightarrow> fout" where
  "fields_loop line er rd acc =
     (let l = trim_left line in
      if l = [] \<or> hd l \<noteq> dquote then
        (let f = takeWhile (\<lambda>c. c \<noteq> comma) l; rest = dropWhile (\<lambda>c. c \<noteq> comma) l in
         case rest of
           [] \<Rightarrow> (let g = (if f \<noteq> [] \<and> last f = newline then butlast f else f) in
                  if dquote \<in> set g then FErrd ErrBareQuote else FDone (acc @ [g]) er rd)
         | _ # rest' \<Rightarrow> if dquote \<in> set f then FErrd ErrBareQuote else fields_loop rest' er rd (acc @ [f]))
      else
        (case q_scan (tl l) [] er rd of
           QNext f l' er' rd' \<Rightarrow> fields_loop l' er' rd' (acc @ [f])
         | QLast f er' rd' \<Rightarrow> FDone (acc @ [f]) er' rd'
         | QErr e \<Rightarrow> FErrd e))"
  by pat_completeness auto
termination
proof (relation "measure (\<lambda>(l, er, rd, acc). rd_size l rd)", goal_cases)
  case (2 line er rd acc x xa xb x21 x22)
  have "length (dropWhile (\<lambda>c. c \<noteq> comma) (trim_left line)) \<le> length line"
    using trim_left_le[of line] takeWhile_dropWhile_length[of "\<lambda>c. c \<noteq> comma" "trim_left line"] by linarith
  moreover have "dropWhile (\<lambda>c. c \<noteq> comma) (trim_left line) = x21 # x22" using 2 by simp
  ultimately have "length x22 < length line" by simp
  then show ?case by (simp add: rd_size_def)
next
  case (3 line er rd acc x f l' er' rd')
  have "rd_size l' rd' < rd_size (tl x) rd" using q_scan_size(1) 3 by blast
  moreover have "rd_size (tl x) rd \<le> rd_size line rd" using trim_left_le[of line] 3 by (simp add: rd_size_def)
  ultimately show ?case by simp
qed simp

declare fields_loop.simps [simp del]

lemma fields_loop_size: "fields_loop line er rd acc = FDone fs er' rd' \<Longrightarrow> length rd' \<le> length rd"
proof (induction line er rd acc rule: fields_loop.induct)
  case (1 line er rd acc)
  then show ?case
    using q_scan_size
    by (subst (asm) (3) fields_loop.simps) (fastforce simp: Let_def split: if_splits list.splits qout.splits)
qed

function records_loop :: "nat \<Rightarrow> reading list \<Rightarrow> string list list \<Rightarrow> string list list result" where
  "records_loop n [] acc = Inr acc"
| "records_loop n ((l, er) # rd) acc =
     (if er = None \<and> (l = [] \<or> l = [newline]) then records_loop n rd acc
      else case fields_loop l er rd [] of
             FErrd e \<Rightarrow> Inl e
           | FDone fs er' rd' \<Rightarrow>
               (case er' of
                  Some e \<Rightarrow> Inl e
                | None \<Rightarrow> if n \<noteq> 0 \<and> length fs \<noteq> n then Inl ErrFieldCount
                          else records_loop (if n = 0 then length fs else n) rd' (acc @ [fs])))"
  by pat_completeness auto
termination
  by (relation "measure (\<lambda>(n, rd, acc). length rd)") (auto dest: fields_loop_size)

definition ReadAll :: "goerr option \<Rightarrow> string \<Rightarrow> string list list result" where
  "ReadAll e s = records_loop 0 (readings e s) []"

end
