(* ===== verification/Log_Queue.thy ===== *)
theory Log_Queue
  imports Go_Json
begin

section \<open>The queue interface (model.LogQueue)\<close>

text \<open>
  The contract of \<^verbatim>\<open>LogQueue.EnqueueBatch\<close>, on which the producer relies. \<open>enq\<close> takes what the environment
  answers during the call and the state of the queue. \<open>published\<close> is the multiset of records the queue holds,
  \<open>canon\<close> how a record looks when it is read from it. A successful call publishes the batch at least
  once; no call loses a published record or publishes anything that is not in the batch. \<open>env_ok\<close> is what the
  client library has to promise for that.
\<close>

locale log_queue =
  fixes enq :: "'e \<Rightarrow> LogRecord list \<Rightarrow> 'q \<Rightarrow> 'q \<times> goerr option"
    and env_ok :: "'e \<Rightarrow> bool"
    and rec_ok :: "LogRecord \<Rightarrow> bool"
    and canon :: "LogRecord \<Rightarrow> LogRecord"
    and published :: "'q \<Rightarrow> LogRecord multiset"
  assumes enq_ok: "env_ok e \<Longrightarrow> list_all rec_ok rs \<Longrightarrow> enq e rs q = (q', None) \<Longrightarrow>
      published q + mset (map canon rs) \<subseteq># published q'"
    and enq_mono: "enq e rs q = (q', res) \<Longrightarrow> published q \<subseteq># published q'"
    and enq_new: "list_all rec_ok rs \<Longrightarrow> enq e rs q = (q', res) \<Longrightarrow>
      set_mset (published q' - published q) \<subseteq> canon ` set rs"
begin

lemma new_trans:
  assumes "published q \<subseteq># published q1" "published q1 \<subseteq># published q2"
    and "set_mset (published q1 - published q) \<subseteq> A" "set_mset (published q2 - published q1) \<subseteq> A"
  shows "set_mset (published q2 - published q) \<subseteq> A"
proof -
  have "published q2 - published q = (published q2 - published q1) + (published q1 - published q)"
    using assms(1,2) by (metis add.commute subset_mset.add_diff_assoc2 subset_mset.diff_add)
  then show ?thesis using assms(3,4) by simp
qed

end

end
