(* ===== verification/Retry.thy ===== *)
theory Retry
  imports Go_Errors
begin

section \<open>Retry delays (util/retry.go)\<close>

text \<open>
  A \<^verbatim>\<open>time.Duration\<close> is a signed 64-bit number of nanoseconds; \<open>wrap64\<close> is the wrap-around of
  Go's arithmetic on it. \<open>WaitForRetry\<close> takes what the context and the select statement answer,
  \<open>JitterRetryDelay\<close> the random source's \<^verbatim>\<open>Int63n\<close> (\<open>None\<close> for a nil source), whose documented
  range is \<open>rng_ok\<close>.
\<close>

type_synonym duration = int

definition wrap64 :: "int \<Rightarrow> int" where
  "wrap64 x = (x + 2 ^ 63) mod 2 ^ 64 - 2 ^ 63"

definition is_i64 :: "int \<Rightarrow> bool" where
  "is_i64 x \<longleftrightarrow> - (2 ^ 63) \<le> x \<and> x < 2 ^ 63"

abbreviation Millisecond :: duration where "Millisecond \<equiv> 1000000"
abbreviation Second :: duration where "Second \<equiv> 1000000000"

definition WaitForRetry :: "goerr option \<Rightarrow> duration \<Rightarrow> bool \<Rightarrow> bool" where
  "WaitForRetry ctxErr d doneFirst = (if d \<le> 0 then ctxErr = None else \<not> doneFirst)"

definition JitterRetryDelay :: "duration \<Rightarrow> (int \<Rightarrow> int) option \<Rightarrow> duration" where
  "JitterRetryDelay base rng =
     (case rng of
        None \<Rightarrow> base
      | Some int63n \<Rightarrow>
          if base \<le> 0 then base
          else let maxJitter = base div 5
               in if maxJitter \<le> 0 then base
                  else let delta = int63n (maxJitter * 2 + 1) - maxJitter in wrap64 (base + delta))"

definition NextRetryDelay :: "duration \<Rightarrow> duration \<Rightarrow> duration \<Rightarrow> duration" where
  "NextRetryDelay current mn mx =
     (let mn' = (if mn \<le> 0 then Millisecond else mn);
          mx' = (if mx < mn' then mn' else mx)
      in if current \<le> 0 then mn'
         else let next = wrap64 (current * 2)
              in if next > mx' \<or> next < current then mx' else next)"

definition rng_ok :: "(int \<Rightarrow> int) \<Rightarrow> bool" where
  "rng_ok f \<longleftrightarrow> (\<forall>n > 0. 0 \<le> f n \<and> f n < n)"

text \<open>The delay before the \<open>k\<close>-th retry in a row, as the consumer loop computes it.\<close>

fun retry_delay :: "nat \<Rightarrow> duration \<Rightarrow> duration \<Rightarrow> duration" where
  "retry_delay 0 mn mx = mn"
| "retry_delay (Suc k) mn mx = NextRetryDelay (retry_delay k mn mx) mn mx"

subsection \<open>Wrap-around\<close>

lemma wrap64_id: "is_i64 x \<Longrightarrow> wrap64 x = x"
  by (simp add: wrap64_def is_i64_def)

lemma wrap64_range: "is_i64 (wrap64 x)"
proof -
  have "0 \<le> (x + 2 ^ 63) mod 2 ^ 64" "(x + 2 ^ 63) mod 2 ^ 64 < (2::int) ^ 64" by simp_all
  then show ?thesis by (simp add: wrap64_def is_i64_def)
qed

lemma wrap64_overflow: "2 ^ 63 \<le> x \<Longrightarrow> x < 2 ^ 64 + 2 ^ 63 \<Longrightarrow> wrap64 x = x - 2 ^ 64"
proof -
  assume a: "2 ^ 63 \<le> x" "x < 2 ^ 64 + 2 ^ 63"
  have "(x + 2 ^ 63) mod 2 ^ 64 = (x + 2 ^ 63 - 2 ^ 64) mod 2 ^ 64"
    by (metis minus_mod_self2)
  also have "\<dots> = x + 2 ^ 63 - 2 ^ 64" using a by (intro mod_pos_pos_trivial) auto
  finally show ?thesis by (simp add: wrap64_def)
qed

lemma double_cases: "is_i64 c \<Longrightarrow> 0 < c \<Longrightarrow> wrap64 (c * 2) = (if c * 2 < 2 ^ 63 then c * 2 else c * 2 - 2 ^ 64)"
proof -
  assume c: "is_i64 c" "0 < c"
  show ?thesis
  proof (cases "c * 2 < 2 ^ 63")
    case True
    then show ?thesis using c by (simp add: wrap64_id is_i64_def)
  next
    case False
    then show ?thesis using c wrap64_overflow[of "c * 2"] by (simp add: is_i64_def)
  qed
qed

subsection \<open>Delays stay in bounds\<close>

text \<open>Doubling a positive delay is exact or capped even when the doubling overflows 64 bits.\<close>

lemma NextRetryDelay_double:
  assumes "0 < current" "is_i64 current" "0 < mn" "mn \<le> mx" "is_i64 mx"
  shows "NextRetryDelay current mn mx = min (2 * current) mx"
proof (cases "current * 2 < 2 ^ 63")
  case True
  then have "wrap64 (current * 2) = current * 2" using double_cases[OF assms(2,1)] by simp
  then show ?thesis using assms by (simp add: NextRetryDelay_def Let_def min_def)
next
  case False
  then have "wrap64 (current * 2) = current * 2 - 2 ^ 64" using double_cases[OF assms(2,1)] by simp
  moreover have "current * 2 - 2 ^ 64 < current" using assms(2) by (simp add: is_i64_def)
  moreover have "mx \<le> 2 * current" using False assms(5) by (simp add: is_i64_def)
  ultimately show ?thesis using assms by (simp add: NextRetryDelay_def Let_def min_def)
qed

lemma retry_delay_min:
  assumes "0 < mn" "mn \<le> mx" "is_i64 mx"
  shows "retry_delay k mn mx = min (mn * 2 ^ k) mx"
proof (induction k)
  case 0
  then show ?case using assms by simp
next
  case (Suc k)
  let ?c = "retry_delay k mn mx"
  have c: "0 < ?c" "?c \<le> mx" using Suc assms by (auto simp: min_def)
  then have "is_i64 ?c" using assms by (simp add: is_i64_def)
  then have "retry_delay (Suc k) mn mx = min (2 * ?c) mx"
    using c assms NextRetryDelay_double by simp
  then show ?case using Suc assms by (auto simp: min_def)
qed

text \<open>(C40) The retry delay is a capped exponential: before the \<open>k\<close>-th retry in a row the delay is the minimum of
  \<open>mn * 2 ^ k\<close> and the maximum, for every \<open>k\<close>, although the code doubles in 64-bit arithmetic that can
  overflow.\<close>

theorem retry_delay_closed:
  assumes "0 < mn" "mn \<le> mx" "is_i64 mx"
  shows "retry_delay k mn mx = min (mn * 2 ^ k) mx"
  using assms by (rule retry_delay_min)

lemma retry_delay_closed_witness:
  "retry_delay 70 (250 * Millisecond) (2 ^ 63 - 1) = min (250 * Millisecond * 2 ^ 70) (2 ^ 63 - 1)"
  by (rule retry_delay_closed) (simp_all add: is_i64_def)

lemma jitter_bounds:
  assumes "rng_ok f" "is_i64 base" "base < 2 ^ 62"
  shows "\<bar>JitterRetryDelay base (Some f) - base\<bar> \<le> max 0 (base div 5) \<and> (0 < base \<longrightarrow> 0 < JitterRetryDelay base (Some f))"
proof (cases "base div 5 \<le> 0")
  case True
  then show ?thesis by (simp add: JitterRetryDelay_def Let_def)
next
  case False
  define m where "m = base div 5"
  have m: "0 < m" "5 * m \<le> base" using False unfolding m_def by linarith+
  have f: "0 \<le> f (m * 2 + 1)" "f (m * 2 + 1) \<le> 2 * m" using assms(1)[unfolded rng_ok_def, rule_format, of "m * 2 + 1"] m(1) by auto
  have "is_i64 (base + (f (m * 2 + 1) - m))" using m f assms(3) by (simp add: is_i64_def)
  then have "JitterRetryDelay base (Some f) = base + (f (m * 2 + 1) - m)"
    using m by (simp add: JitterRetryDelay_def Let_def wrap64_id flip: m_def)
  then show ?thesis using m f by (simp flip: m_def)
qed

text \<open>Jitter stays within a fifth of the delay, for every random source that keeps to the documented
  range of \<^verbatim>\<open>Int63n\<close>, and leaves a delay that is not positive alone.\<close>

theorem JitterRetryDelay_bounds:
  assumes "rng_ok f" "is_i64 base" "base < 2 ^ 62"
  shows "\<bar>JitterRetryDelay base (Some f) - base\<bar> \<le> max 0 (base div 5) \<and> (0 < base \<longrightarrow> 0 < JitterRetryDelay base (Some f))"
  using assms by (rule jitter_bounds)

lemma JitterRetryDelay_bounds_witness:
  "\<bar>JitterRetryDelay (250 * Millisecond) (Some (\<lambda>n. n - 1)) - 250 * Millisecond\<bar> \<le> max 0 (250 * Millisecond div 5)"
  using JitterRetryDelay_bounds[of "\<lambda>n. n - 1" "250 * Millisecond"] by (simp add: rng_ok_def is_i64_def)

end
