(* ===== verification/Dlq_Files.thy ===== *)
theory Dlq_Files
  imports File_Repo Retry
begin

section \<open>Names of dead-letter files\<close>

text \<open>
  The producer and the consumer write a batch they give up to a file named after the nanosecond. The clock is
  read once for the directory and once for the name. No such file is a log file, so writing one leaves what the log
  files hold as it is.
\<close>

definition unix_epoch :: int where
  "unix_epoch = 62135596800"

definition UnixNano :: "gotime \<Rightarrow> int" where
  "UnixNano t = wrap64 ((t_sec t - unix_epoch) * 1000000000 + int (t_nsec t))"

definition dlq_path :: "string \<Rightarrow> string \<Rightarrow> (nat \<Rightarrow> gotime) \<Rightarrow> string" where
  "dlq_path dir who now = Join [dir, format_date (UTC (now 0)), who @ show_int (UnixNano (UTC (now 1))) @ ''.json'']"

lemma show_int_chars: "c \<in> set (show_int i) \<Longrightarrow> is_digit c \<or> c = CHR ''-''"
  by (auto simp: show_int_def dest: digits_show_nat split: if_splits)

lemma show_int_last: "\<exists>u c. show_int i = u @ [c] \<and> is_digit c"
proof -
  obtain k where k: "show_int i = show_nat k \<or> show_int i = CHR ''-'' # show_nat k" by (metis show_int_def)
  obtain u c where u: "show_nat k = u @ [c]" using show_nat_not_Nil[of k] by (cases "show_nat k" rule: rev_cases) auto
  then have "is_digit c" using digits_show_nat[of c k] by simp
  then show ?thesis using k u by (metis append_Cons)
qed

lemma suffix_not_log:
  assumes "is_digit c"
  shows "\<not> is_log (u @ [c] @ ''.json'')"
proof
  assume "is_log (u @ [c] @ ''.json'')"
  then obtain t where "u @ [c] @ ''.json'' = t @ ''.log.json''" unfolding is_log_def by (blast dest: HasSuffixD)
  then have "u @ [c] = t @ ''.log''" by simp
  then have "c = CHR ''g''" by (metis append_is_Nil_conv last.simps last_appendR last_snoc list.distinct(1))
  then show False using assms by (simp add: is_digit_def bv_def)
qed

lemma dlq_not_log:
  assumes "plain_comp who" "CHR ''.'' \<notin> set who"
  shows "\<not> is_log (dlq_path dir who now)"
proof -
  let ?n = "UnixNano (UTC (now 1))" and ?d = "format_date (UTC (now 0))"
  have ns: "slash \<notin> set (show_int ?n)" using show_int_chars digit_not_slash by fastforce
  obtain x ws where who: "who = x # ws" "x \<noteq> CHR ''.''" using assms by (cases who) (auto simp: plain_comp_def)
  then have "plain_comp (who @ show_int ?n @ ''.json'')" using assms(1) ns by (auto simp: plain_comp_def)
  then have "dlq_path dir who now = path_of (is_rooted dir) (comps dir @ [?d, who @ show_int ?n @ ''.json''])"
    unfolding dlq_path_def by (intro Join_plain) (auto simp: plain_format_date)
  moreover obtain v where "join_with slash (comps dir @ [?d, who @ show_int ?n @ ''.json'']) = v @ who @ show_int ?n @ ''.json''"
    using join_with_last[of "comps dir @ [?d, who @ show_int ?n @ ''.json'']" slash] by auto
  moreover obtain u c where "show_int ?n = u @ [c]" "is_digit c" using show_int_last by blast
  ultimately show ?thesis
    using suffix_not_log[of c "(if is_rooted dir then slash # v else v) @ who @ u"] by (simp add: path_of_def split: if_splits)
qed

text \<open>Files that agree on the log files hold the same records.\<close>

lemma stored_files_cong:
  assumes "\<forall>p. is_log p \<longrightarrow> fs_content fs' p = fs_content fs p"
  shows "stored_files (s', fs') = stored_files (s, fs)" "logs_clean (s', fs') = logs_clean (s, fs)"
proof -
  let ?K = "set (map fst (fs_files fs)) \<union> set (map fst (fs_files fs'))"
  show "stored_files (s', fs') = stored_files (s, fs)"
    using assms by (subst (1 2) stored_superset[of ?K]) (auto intro: sum.cong)
  show "logs_clean (s', fs') = logs_clean (s, fs)" using assms by (simp add: logs_clean_iff)
qed

end
