(* ===== verification/Metrics.thy ===== *)
theory Metrics
  imports Go_Errors
begin

section \<open>Metrics and log output\<close>

text \<open>
  The counters and gauges of \<^verbatim>\<open>internal/metrics/metrics.go\<close> and the calls of the
  \<^verbatim>\<open>Logger\<close> interface (\<^verbatim>\<open>logger/logger.go\<close>), as one record \<open>obs\<close> that the operations pass on.
  A Prometheus counter is a \<open>nat\<close> (the code only adds counts to it), a gauge is an \<open>int\<close>.
  Log output is the list of events in order; \<open>F\<close> builds a field, the no-op logger of
  \<^verbatim>\<open>logger/mock_logger.go\<close> is the state without its events. Registration of the runtime collectors
  (\<open>Init\<close>) takes the registry's answer as an argument.
\<close>

datatype level = LInfo | LWarn | LError | LDebug | LFatal

datatype fval = FStr string | FInt int | FErr goerr

type_synonym field = "string \<times> fval"

definition F :: "string \<Rightarrow> fval \<Rightarrow> field" where
  "F key val = (key, val)"

record log_ev =
  ev_level :: level
  ev_msg :: string
  ev_fields :: "field list"

record obs =
  logsIngested :: nat
  batchesReceived :: nat
  ingestErrors :: nat
  invalidRequests :: nat
  aggregationRuns :: nat
  ingestionQueueDepth :: int
  kafkaUp :: int
  kafkaConsumerErrors :: nat
  kafkaWriterErrors :: nat
  logs :: "log_ev list"

definition obs0 :: obs where
  "obs0 = \<lparr>logsIngested = 0, batchesReceived = 0, ingestErrors = 0, invalidRequests = 0, aggregationRuns = 0,
     ingestionQueueDepth = 0, kafkaUp = 0, kafkaConsumerErrors = 0, kafkaWriterErrors = 0, logs = []\<rparr>"

definition log_msg :: "level \<Rightarrow> string \<Rightarrow> field list \<Rightarrow> obs \<Rightarrow> obs" where
  "log_msg l m fs ob = ob\<lparr>logs := logs ob @ [\<lparr>ev_level = l, ev_msg = m, ev_fields = fs\<rparr>]\<rparr>"

text \<open>The two implementations of \<^verbatim>\<open>Logger\<close>. The zap logger is not part of the program: \<open>zap\<close> is what its methods do with a message and
  its fields, \<open>any\<close> is \<^verbatim>\<open>zap.Any\<close>. The no-op logger drops every call.\<close>

definition toZap :: "(string \<Rightarrow> fval \<Rightarrow> 'f) \<Rightarrow> field list \<Rightarrow> 'f list" where
  "toZap any fs = fold (\<lambda>f out. out @ [any (fst f) (snd f)]) fs []"

definition ZapLogger_msg ::
  "(level \<Rightarrow> string \<Rightarrow> 'f list \<Rightarrow> 'z \<Rightarrow> 'z) \<Rightarrow> (string \<Rightarrow> fval \<Rightarrow> 'f) \<Rightarrow> level \<Rightarrow> string \<Rightarrow> field list \<Rightarrow> 'z \<Rightarrow> 'z" where
  "ZapLogger_msg zap any l m fs z = zap l m (toZap any fs) z"

definition nopLogger_msg :: "level \<Rightarrow> string \<Rightarrow> field list \<Rightarrow> 'z \<Rightarrow> 'z" where
  "nopLogger_msg l m fs z = z"

definition AddLogsIngested :: "int \<Rightarrow> obs \<Rightarrow> obs" where
  "AddLogsIngested n ob = (if n \<le> 0 then ob else ob\<lparr>logsIngested := logsIngested ob + nat n\<rparr>)"

definition IncBatchesReceived :: "obs \<Rightarrow> obs" where
  "IncBatchesReceived ob = ob\<lparr>batchesReceived := batchesReceived ob + 1\<rparr>"

definition IncIngestErrors :: "obs \<Rightarrow> obs" where
  "IncIngestErrors ob = ob\<lparr>ingestErrors := ingestErrors ob + 1\<rparr>"

definition IncInvalidRequests :: "obs \<Rightarrow> obs" where
  "IncInvalidRequests ob = ob\<lparr>invalidRequests := invalidRequests ob + 1\<rparr>"

definition IncAggregationRuns :: "obs \<Rightarrow> obs" where
  "IncAggregationRuns ob = ob\<lparr>aggregationRuns := aggregationRuns ob + 1\<rparr>"

definition SetIngestionQueueDepth :: "int \<Rightarrow> obs \<Rightarrow> obs" where
  "SetIngestionQueueDepth n ob = ob\<lparr>ingestionQueueDepth := (if n < 0 then 0 else n)\<rparr>"

definition SetKafkaUp :: "bool \<Rightarrow> obs \<Rightarrow> obs" where
  "SetKafkaUp up ob = ob\<lparr>kafkaUp := (if up then 1 else 0)\<rparr>"

definition IncKafkaConsumerErrors :: "obs \<Rightarrow> obs" where
  "IncKafkaConsumerErrors ob = ob\<lparr>kafkaConsumerErrors := kafkaConsumerErrors ob + 1\<rparr>"

definition IncKafkaWriterErrors :: "obs \<Rightarrow> obs" where
  "IncKafkaWriterErrors ob = ob\<lparr>kafkaWriterErrors := kafkaWriterErrors ob + 1\<rparr>"

subsection \<open>Collector registration\<close>

datatype reg_answer = RegOk | RegAlready | RegFail string

datatype reg_state = Running "string list" | Panicked string

text \<open>\<open>register c cs\<close> is the registry's answer when \<open>c\<close> is registered on top of \<open>cs\<close>.\<close>

fun registerCollector :: "(string \<Rightarrow> string list \<Rightarrow> reg_answer) \<Rightarrow> string \<Rightarrow> reg_state \<Rightarrow> reg_state" where
  "registerCollector register c (Running cs) =
     (case register c cs of
        RegOk \<Rightarrow> Running (cs @ [c])
      | RegAlready \<Rightarrow> Running cs
      | RegFail m \<Rightarrow> Panicked m)"
| "registerCollector register c (Panicked m) = Panicked m"

definition Init :: "(string \<Rightarrow> string list \<Rightarrow> reg_answer) \<Rightarrow> bool \<times> reg_state \<Rightarrow> bool \<times> reg_state" where
  "Init register st =
     (case st of (once, r) \<Rightarrow>
        if once then (once, r)
        else (True, registerCollector register ''process'' (registerCollector register ''go'' r)))"

subsection \<open>Effects\<close>

lemmas metrics_defs = AddLogsIngested_def IncBatchesReceived_def IncIngestErrors_def IncInvalidRequests_def
  IncAggregationRuns_def SetIngestionQueueDepth_def SetKafkaUp_def IncKafkaConsumerErrors_def
  IncKafkaWriterErrors_def log_msg_def

text \<open>The zap adapter forwards every call with its fields in order: on a backend that records events it is \<open>log_msg\<close>.\<close>

lemma toZap_map: "toZap any fs = map (\<lambda>f. any (fst f) (snd f)) fs"
proof -
  have "fold (\<lambda>f out. out @ [any (fst f) (snd f)]) fs out = out @ map (\<lambda>f. any (fst f) (snd f)) fs" for out
    by (induction fs arbitrary: out) auto
  then show ?thesis by (simp add: toZap_def)
qed

lemma ZapLogger_forwards: "ZapLogger_msg log_msg F l m fs ob = log_msg l m fs ob"
  by (simp add: ZapLogger_msg_def toZap_map F_def)

lemma Init_idem: "Init register (Init register st) = Init register st"
  by (auto simp: Init_def split: prod.splits)

lemma obs_effects [obs_simps]:
  "logsIngested (log_msg l m fs ob) = logsIngested ob"
  "batchesReceived (log_msg l m fs ob) = batchesReceived ob"
  "ingestErrors (log_msg l m fs ob) = ingestErrors ob"
  "invalidRequests (log_msg l m fs ob) = invalidRequests ob"
  "aggregationRuns (log_msg l m fs ob) = aggregationRuns ob"
  "ingestionQueueDepth (log_msg l m fs ob) = ingestionQueueDepth ob"
  "logsIngested (IncIngestErrors ob) = logsIngested ob"
  "logsIngested (IncBatchesReceived ob) = logsIngested ob"
  "logsIngested (IncInvalidRequests ob) = logsIngested ob"
  "logsIngested (SetIngestionQueueDepth k ob) = logsIngested ob"
  "logsIngested (AddLogsIngested n ob) = logsIngested ob + nat n"
  "batchesReceived (IncBatchesReceived ob) = batchesReceived ob + 1"
  "batchesReceived (IncIngestErrors ob) = batchesReceived ob"
  "batchesReceived (IncInvalidRequests ob) = batchesReceived ob"
  "batchesReceived (AddLogsIngested n ob) = batchesReceived ob"
  "batchesReceived (SetIngestionQueueDepth k ob) = batchesReceived ob"
  "ingestErrors (IncIngestErrors ob) = ingestErrors ob + 1"
  "ingestErrors (IncBatchesReceived ob) = ingestErrors ob"
  "ingestErrors (IncInvalidRequests ob) = ingestErrors ob"
  "ingestErrors (AddLogsIngested n ob) = ingestErrors ob"
  "ingestErrors (SetIngestionQueueDepth k ob) = ingestErrors ob"
  "invalidRequests (IncInvalidRequests ob) = invalidRequests ob + 1"
  "invalidRequests (IncIngestErrors ob) = invalidRequests ob"
  "invalidRequests (IncBatchesReceived ob) = invalidRequests ob"
  "invalidRequests (AddLogsIngested n ob) = invalidRequests ob"
  "invalidRequests (SetIngestionQueueDepth k ob) = invalidRequests ob"
  "aggregationRuns (IncAggregationRuns ob) = aggregationRuns ob + 1"
  "ingestionQueueDepth (SetIngestionQueueDepth k ob) = max 0 k"
  "logs (IncIngestErrors ob) = logs ob"
  "logs (IncBatchesReceived ob) = logs ob"
  "logs (AddLogsIngested n ob) = logs ob"
  "logs (SetIngestionQueueDepth k ob) = logs ob"
  by (simp_all add: metrics_defs)

end
