(* ===== verification/Producer.thy ===== *)
theory Producer
  imports Complex_Main Log_Queue Dlq_Files Metrics
begin

section \<open>The producer (service/producer.go)\<close>

text \<open>
  \<open>ProducerService\<close> buffers batches in a channel, publishes them with retries and rejects work for a while
  after repeated failures (the circuit). The fields of the struct that are configuration and the ones that change
  are one record each. The channel is the list of batches in it with its capacity. The queue is any
  implementation of \<^verbatim>\<open>LogQueue\<close>: its state and its operation \<open>enq\<close> are arguments. What the world answers
  to an attempt (the queue's environment, the clock, whether the context ends the wait) is a record \<open>att_env\<close>
  per attempt. Nanosecond clocks and the counters are fixed-width: \<open>wrap64\<close>, \<open>wrap32\<close>.
  The percentage of the high-water mark is a rational number and \<open>fl\<close> the rounding of a product to \<^verbatim>\<open>float64\<close>;
  it only decides about a log line.
\<close>

definition wrap32 :: "int \<Rightarrow> int" where
  "wrap32 x = (x + 2 ^ 31) mod 2 ^ 32 - 2 ^ 31"

record ProducerConfig =
  QueueBufferSize :: int
  Workers :: int
  WriteTimeout :: duration
  QueueHighWaterPercent :: rat
  MaxRetries :: int
  RetryBackoff :: duration
  DLQDir :: string
  CircuitFailureThreshold :: int
  CircuitCooldown :: duration

record prod_cfg =
  chanCap :: int
  workers :: int
  writeTimeout :: duration
  queueHighWaterPercent :: rat
  maxRetries :: int
  retryBackoff :: duration
  dlqDir :: string
  circuitFailureThreshold :: int
  circuitCooldown :: duration

record producer =
  workCh :: "LogRecord list list"
  chanClosed :: bool
  started :: bool
  closed :: bool
  ctxCancelled :: bool
  consecutiveFailures :: int
  circuitOpenUntilNs :: int
  lastTransientErrorLogNs :: int
  transientErrorEvents :: int

definition default_cfg :: prod_cfg where
  "default_cfg = \<lparr>chanCap = 10000, workers = 10, writeTimeout = 10 * Second, queueHighWaterPercent = 9 / 10,
     maxRetries = 3, retryBackoff = 200 * Millisecond, dlqDir = ''dlq/producer'', circuitFailureThreshold = 5,
     circuitCooldown = 10 * Second\<rparr>"

definition producerTransientLogInterval :: duration where
  "producerTransientLogInterval = 5 * Second"

definition NewProducerService :: "ProducerConfig option \<Rightarrow> prod_cfg \<times> producer" where
  "NewProducerService cfg =
     ((case cfg of
         None \<Rightarrow> default_cfg
       | Some c \<Rightarrow>
           \<lparr>chanCap = (if QueueBufferSize c > 0 then QueueBufferSize c else chanCap default_cfg),
            workers = (if Workers c > 0 then Workers c else workers default_cfg),
            writeTimeout = (if WriteTimeout c > 0 then WriteTimeout c else writeTimeout default_cfg),
            queueHighWaterPercent = (if QueueHighWaterPercent c > 0 then QueueHighWaterPercent c
                                     else queueHighWaterPercent default_cfg),
            maxRetries = (if MaxRetries c \<ge> 0 then MaxRetries c else maxRetries default_cfg),
            retryBackoff = (if RetryBackoff c > 0 then RetryBackoff c else retryBackoff default_cfg),
            dlqDir = (if DLQDir c \<noteq> [] then DLQDir c else dlqDir default_cfg),
            circuitFailureThreshold = (if CircuitFailureThreshold c > 0 then CircuitFailureThreshold c
                                       else circuitFailureThreshold default_cfg),
            circuitCooldown = (if CircuitCooldown c > 0 then CircuitCooldown c else circuitCooldown default_cfg)\<rparr>),
      \<lparr>workCh = [], chanClosed = False, started = False, closed = False, ctxCancelled = False,
       consecutiveFailures = 0, circuitOpenUntilNs = 0, lastTransientErrorLogNs = 0, transientErrorEvents = 0\<rparr>)"

subsection \<open>Circuit breaker\<close>

definition isCircuitOpen :: "int \<Rightarrow> producer \<Rightarrow> producer \<times> bool" where
  "isCircuitOpen now p =
     (let until = circuitOpenUntilNs p in
      if until = 0 then (p, False)
      else if now < until then (p, True)
      else (p\<lparr>circuitOpenUntilNs := 0\<rparr>, False))"

definition onEnqueueSuccess :: "producer \<Rightarrow> producer" where
  "onEnqueueSuccess p = p\<lparr>consecutiveFailures := 0, circuitOpenUntilNs := 0\<rparr>"

definition onEnqueueFailure :: "prod_cfg \<Rightarrow> int \<Rightarrow> producer \<times> obs \<Rightarrow> producer \<times> obs" where
  "onEnqueueFailure c now st =
     (case st of (p, ob) \<Rightarrow>
        if circuitFailureThreshold c \<le> 0 \<or> circuitCooldown c \<le> 0 then (p, ob)
        else
          let failures = wrap32 (consecutiveFailures p + 1); p1 = p\<lparr>consecutiveFailures := failures\<rparr> in
          if failures < circuitFailureThreshold c then (p1, ob)
          else
            let until = wrap64 (now + circuitCooldown c) in
            (p1\<lparr>circuitOpenUntilNs := until, consecutiveFailures := 0\<rparr>,
             log_msg LWarn ''producer circuit opened'' [F ''cooldown'' (FInt (circuitCooldown c)), F ''open_until'' (FInt until)] ob))"

subsection \<open>Error classification and log suppression\<close>

definition knownTransientSubstrings :: "string list" where
  "knownTransientSubstrings =
     [''connection refused'', ''connection reset'', ''broken pipe'', ''i/o timeout'', ''dial tcp'',
      ''network is unreachable'', ''leader not available'', ''temporary failure'']"

fun net_timeout :: "goerr \<Rightarrow> bool" where
  "net_timeout (NetErr timeout _) = timeout"
| "net_timeout DeadlineExceeded = True"
| "net_timeout _ = False"

definition isTransientProducerError :: "goerr \<Rightarrow> bool" where
  "isTransientProducerError e \<longleftrightarrow>
     err_is e DeadlineExceeded \<or> err_is e ContextCanceled \<or> err_is e ErrQueueFull \<or> err_is e ErrProducerCircuitOpen
     \<or> net_timeout (err_root e)
     \<or> list_ex (\<lambda>sub. Contains (ToLower (err_text e)) sub) knownTransientSubstrings"

definition logEnqueueFailure :: "int \<Rightarrow> goerr \<Rightarrow> field list \<Rightarrow> producer \<times> obs \<Rightarrow> producer \<times> obs" where
  "logEnqueueFailure now e flds st =
     (case st of (p, ob) \<Rightarrow>
        if \<not> isTransientProducerError e then (p, log_msg LError ''failed to enqueue logs'' flds ob)
        else
          let p1 = p\<lparr>transientErrorEvents := (transientErrorEvents p + 1) mod 2 ^ 64\<rparr>; last = lastTransientErrorLogNs p1 in
          if wrap64 (now - last) < producerTransientLogInterval then (p1, ob)
          else
            let events = (if transientErrorEvents p1 = 0 then 1 else transientErrorEvents p1) in
            (p1\<lparr>lastTransientErrorLogNs := now, transientErrorEvents := 0\<rparr>,
             log_msg LWarn ''failed to enqueue logs (transient, suppressed)'' (flds @ [F ''events'' (FInt events)]) ob))"

subsection \<open>Publishing with retries\<close>

record 'e att_env =
  at_env :: 'e
  at_log_now :: int
  at_fail_now :: int
  at_wait :: "duration \<Rightarrow> goerr option"

type_synonym ('e, 'q) enq_op = "'e \<Rightarrow> LogRecord list \<Rightarrow> 'q \<Rightarrow> 'q \<times> goerr option"

text \<open>\<open>n\<close> attempts are left, \<open>attempt\<close> is the number of the current one; \<open>at_wait\<close> answers \<open>None\<close> when the backoff
  passes and the context's error when that is done first.\<close>

fun try_loop ::
  "('e, 'q) enq_op \<Rightarrow> prod_cfg \<Rightarrow> (nat \<Rightarrow> 'e att_env) \<Rightarrow> LogRecord list \<Rightarrow> int \<Rightarrow> int \<Rightarrow> nat \<Rightarrow> nat \<Rightarrow>
   producer \<times> obs \<times> 'q \<Rightarrow> (producer \<times> obs \<times> 'q) \<times> goerr option" where
  "try_loop enq c envs batch workerID maxAttempts attempt 0 st = (st, Some (ErrMsg ''enqueue failed''))"
| "try_loop enq c envs batch workerID maxAttempts attempt (Suc n) (p, ob, q) =
     (let env = envs attempt in
      case enq (at_env env) batch q of
        (q1, None) \<Rightarrow> ((onEnqueueSuccess p, ob, q1), None)
      | (q1, Some e) \<Rightarrow>
          let flds = [F ''error'' (FErr e), F ''attempt'' (FInt (int attempt)), F ''max_attempts'' (FInt maxAttempts),
                        if workerID \<ge> 0 then F ''worker_id'' (FInt workerID) else F ''mode'' (FStr ''sync'')] in
          case logEnqueueFailure (at_log_now env) e flds (p, IncIngestErrors ob) of (p1, ob1) \<Rightarrow>
          if n = 0 then (case onEnqueueFailure c (at_fail_now env) (p1, ob1) of (p2, ob2) \<Rightarrow> ((p2, ob2, q1), Some e))
          else (case at_wait env (wrap64 (retryBackoff c * int attempt)) of
                  Some ce \<Rightarrow> ((p1, ob1, q1), Some ce)
                | None \<Rightarrow> try_loop enq c envs batch workerID maxAttempts (Suc attempt) n (p1, ob1, q1)))"

definition max_attempts :: "prod_cfg \<Rightarrow> int" where
  "max_attempts c = (let m = wrap64 (maxRetries c + 1) in if m < 1 then 1 else m)"

definition tryEnqueueWithRetry ::
  "('e, 'q) enq_op \<Rightarrow> prod_cfg \<Rightarrow> (nat \<Rightarrow> 'e att_env) \<Rightarrow> LogRecord list \<Rightarrow> int \<Rightarrow>
   producer \<times> obs \<times> 'q \<Rightarrow> (producer \<times> obs \<times> 'q) \<times> goerr option" where
  "tryEnqueueWithRetry enq c envs batch workerID st =
     try_loop enq c envs batch workerID (max_attempts c) 1 (nat (max_attempts c)) st"

definition EnqueueSync ::
  "('e, 'q) enq_op \<Rightarrow> prod_cfg \<Rightarrow> int \<Rightarrow> (nat \<Rightarrow> 'e att_env) \<Rightarrow> LogRecord list \<Rightarrow>
   producer \<times> obs \<times> 'q \<Rightarrow> (producer \<times> obs \<times> 'q) \<times> goerr option" where
  "EnqueueSync enq c now envs batch st =
     (if batch = [] then (st, None)
      else case st of (p, ob, q) \<Rightarrow>
        if closed p then (st, Some ErrProducerStopped)
        else case isCircuitOpen now p of
               (p1, True) \<Rightarrow> ((p1, ob, q), Some ErrProducerCircuitOpen)
             | (p1, False) \<Rightarrow> tryEnqueueWithRetry enq c envs batch (-1) (p1, ob, q))"

subsection \<open>Buffering\<close>

definition StartAsync :: "producer \<Rightarrow> producer" where
  "StartAsync p = p\<lparr>started := True\<rparr>"

text \<open>The send of \<^verbatim>\<open>Enqueue\<close>'s last select: a send on a closed channel panics (\<open>None\<close>).\<close>

definition high_water :: "(rat \<Rightarrow> rat) \<Rightarrow> prod_cfg \<Rightarrow> int" where
  "high_water fl c = \<lfloor>fl (of_int (chanCap c) * queueHighWaterPercent c)\<rfloor>"

definition send_batch :: "(rat \<Rightarrow> rat) \<Rightarrow> prod_cfg \<Rightarrow> LogRecord list \<Rightarrow> producer \<times> obs \<Rightarrow> ((producer \<times> obs) \<times> goerr option) option" where
  "send_batch fl c batch st =
     (case st of (p, ob) \<Rightarrow>
        if chanClosed p then None
        else if int (length (workCh p)) < chanCap c then
          let p1 = p\<lparr>workCh := workCh p @ [batch]\<rparr>; depth = int (length (workCh p1));
              ob1 = SetIngestionQueueDepth depth ob;
              ob2 = (if depth \<ge> high_water fl c
                     then log_msg LWarn ''ingestion work queue nearing capacity''
                            [F ''depth'' (FInt depth), F ''capacity'' (FInt (chanCap c))] ob1 else ob1)
          in Some ((p1, ob2), None)
        else Some ((p, SetIngestionQueueDepth (int (length (workCh p))) ob), Some ErrQueueFull))"

text \<open>The guards of \<^verbatim>\<open>Enqueue\<close> before the send: \<open>Inl e\<close> is an early return, \<open>Inr p\<close> goes on.\<close>

definition enqueue_guards :: "int \<Rightarrow> goerr option \<Rightarrow> producer \<Rightarrow> (goerr + unit) \<times> producer" where
  "enqueue_guards now ctxErr p =
     (if \<not> started p then (Inl ErrProducerNotStarted, p)
      else if closed p then (Inl ErrProducerStopped, p)
      else case isCircuitOpen now p of
             (p1, True) \<Rightarrow> (Inl ErrProducerCircuitOpen, p1)
           | (p1, False) \<Rightarrow> (case ctxErr of Some e \<Rightarrow> (Inl e, p1) | None \<Rightarrow> (Inr (), p1)))"

definition Enqueue ::
  "(rat \<Rightarrow> rat) \<Rightarrow> prod_cfg \<Rightarrow> int \<Rightarrow> goerr option \<Rightarrow> LogRecord list \<Rightarrow> producer \<times> obs \<Rightarrow> ((producer \<times> obs) \<times> goerr option) option" where
  "Enqueue fl c now ctxErr batch st =
     (if batch = [] then Some (st, None)
      else case st of (p, ob) \<Rightarrow>
        (case enqueue_guards now ctxErr p of
           (Inl e, p1) \<Rightarrow> Some ((p1, ob), Some e)
         | (Inr _, p1) \<Rightarrow> send_batch fl c batch (p1, ob)))"

text \<open>\<^verbatim>\<open>Close\<close> up to \<^verbatim>\<open>wg.Wait\<close>, statement by statement, as other goroutines run in between, and in one
  go; a second call does nothing.\<close>

definition close_flag :: "producer \<Rightarrow> producer" where
  "close_flag p = p\<lparr>closed := True\<rparr>"

definition close_channel :: "producer \<times> obs \<Rightarrow> producer \<times> obs" where
  "close_channel st = (case st of (p, ob) \<Rightarrow> (p\<lparr>chanClosed := True\<rparr>, SetIngestionQueueDepth 0 ob))"

definition close_cancel :: "producer \<Rightarrow> producer" where
  "close_cancel p = p\<lparr>ctxCancelled := True\<rparr>"

definition close_producer :: "producer \<times> obs \<Rightarrow> producer \<times> obs" where
  "close_producer st =
     (case st of (p, ob) \<Rightarrow>
        if closed p then (p, ob)
        else (case close_channel (close_flag p, ob) of (p1, ob1) \<Rightarrow> (close_cancel p1, ob1)))"

subsection \<open>Dead-letter files\<close>

definition producer_dlq_path :: "string \<Rightarrow> (nat \<Rightarrow> gotime) \<Rightarrow> string" where
  "producer_dlq_path dir now = dlq_path dir ''producer_'' now"

definition marshal_dlq :: "LogRecord list \<Rightarrow> string \<Rightarrow> gotime \<Rightarrow> string option" where
  "marshal_dlq batch reason t =
     (case all_some (map (record_indented 2) batch) of
        None \<Rightarrow> None
      | Some rs \<Rightarrow>
          (case marshal_time t of
             None \<Rightarrow> None
           | Some ts \<Rightarrow> Some (json_object 0 [(''records'', json_array 1 rs), (''reason'', quote reason), (''time'', ts)])))"

definition writeProducerDLQ ::
  "prod_cfg \<Rightarrow> os_env \<Rightarrow> (nat \<Rightarrow> gotime) \<Rightarrow> LogRecord list \<Rightarrow> goerr \<Rightarrow> fsys \<times> obs \<Rightarrow> fsys \<times> obs" where
  "writeProducerDLQ c os now batch reason st =
     (case st of (fs, ob) \<Rightarrow>
        if dlqDir c = [] \<or> batch = [] then (fs, ob)
        else
          let path = producer_dlq_path (dlqDir c) now in
          (case MkdirAll os (Dir path) fs of
             (fs1, Some e) \<Rightarrow> (fs1, log_msg LWarn ''failed to create producer dlq directory'' [F ''error'' (FErr e)] ob)
           | (fs1, None) \<Rightarrow>
               (case marshal_dlq batch (err_text reason) (UTC (now 2)) of
                  None \<Rightarrow> (fs1, log_msg LWarn ''failed to marshal producer dlq batch'' [F ''error'' (FErr marshal_err)] ob)
                | Some bytes \<Rightarrow>
                    (case WriteFile os path bytes fs1 of
                       (fs2, Some e) \<Rightarrow> (fs2, log_msg LWarn ''failed to write producer dlq batch''
                           [F ''error'' (FErr e), F ''path'' (FStr path)] ob)
                     | (fs2, None) \<Rightarrow> (fs2, log_msg LWarn ''wrote producer batch to dlq''
                           [F ''path'' (FStr path), F ''count'' (FInt (int (length batch)))] ob)))))"

text \<open>One pass of the loop of \<^verbatim>\<open>tryEnqueueWithRetry\<close>, as a worker runs it between other goroutines: \<open>Some res\<close> is a return,
  \<open>None\<close> goes on with the next attempt.\<close>

definition try_once ::
  "('e, 'q) enq_op \<Rightarrow> prod_cfg \<Rightarrow> 'e att_env \<Rightarrow> LogRecord list \<Rightarrow> int \<Rightarrow> int \<Rightarrow> nat \<Rightarrow>
   producer \<times> obs \<times> 'q \<Rightarrow> (producer \<times> obs \<times> 'q) \<times> goerr option option" where
  "try_once enq c env batch workerID maxAttempts attempt st =
     (case st of (p, ob, q) \<Rightarrow>
      case enq (at_env env) batch q of
        (q1, None) \<Rightarrow> ((onEnqueueSuccess p, ob, q1), Some None)
      | (q1, Some e) \<Rightarrow>
          let flds = [F ''error'' (FErr e), F ''attempt'' (FInt (int attempt)), F ''max_attempts'' (FInt maxAttempts),
                        if workerID \<ge> 0 then F ''worker_id'' (FInt workerID) else F ''mode'' (FStr ''sync'')] in
          case logEnqueueFailure (at_log_now env) e flds (p, IncIngestErrors ob) of (p1, ob1) \<Rightarrow>
          if int attempt = maxAttempts
          then (case onEnqueueFailure c (at_fail_now env) (p1, ob1) of (p2, ob2) \<Rightarrow> ((p2, ob2, q1), Some (Some e)))
          else (case at_wait env (wrap64 (retryBackoff c * int attempt)) of
                  Some ce \<Rightarrow> ((p1, ob1, q1), Some (Some ce))
                | None \<Rightarrow> ((p1, ob1, q1), None)))"

text \<open>The loop is its passes, one after the other.\<close>

lemma try_loop_once:
  assumes "int a + int n = m"
  shows "try_loop enq c envs batch w m a (Suc n) st =
    (case try_once enq c (envs a) batch w m a st of
       (st1, Some res) \<Rightarrow> (st1, res)
     | (st1, None) \<Rightarrow> try_loop enq c envs batch w m (Suc a) n st1)"
  using assms by (cases st) (auto simp: try_once_def Let_def split: prod.splits option.splits)

text \<open>One turn of a worker's loop with the batch it received.\<close>

definition handle_batch ::
  "('e, 'q) enq_op \<Rightarrow> prod_cfg \<Rightarrow> (nat \<Rightarrow> 'e att_env) \<Rightarrow> os_env \<Rightarrow> (nat \<Rightarrow> gotime) \<Rightarrow> int \<Rightarrow> LogRecord list \<Rightarrow>
   producer \<times> obs \<times> 'q \<times> fsys \<Rightarrow> (producer \<times> obs \<times> 'q \<times> fsys) \<times> goerr option" where
  "handle_batch enq c envs os now workerID batch st =
     (case st of (p, ob, q, fs) \<Rightarrow>
        let ob0 = SetIngestionQueueDepth (int (length (workCh p))) ob in
        case tryEnqueueWithRetry enq c envs batch workerID (p, ob0, q) of
          ((p1, ob1, q1), None) \<Rightarrow> ((p1, SetIngestionQueueDepth (int (length (workCh p1))) ob1, q1, fs), None)
        | ((p1, ob1, q1), Some e) \<Rightarrow>
            (case writeProducerDLQ c os now batch e (fs, ob1) of (fs1, ob2) \<Rightarrow>
               ((p1, SetIngestionQueueDepth (int (length (workCh p1))) ob2, q1, fs1), Some e)))"

subsection \<open>Publishing keeps the queue contract\<close>

context log_queue
begin

lemma try_loop_publishes:
  assumes "try_loop enq c envs batch w m a n (p, ob, q) = ((p', ob', q'), res)" "list_all rec_ok batch"
    and "\<forall>i. env_ok (at_env (envs i))"
  shows "published q \<subseteq># published q' \<and> set_mset (published q' - published q) \<subseteq> canon ` set batch
    \<and> (res = None \<longrightarrow> published q + mset (map canon batch) \<subseteq># published q')"
  using assms(1)
proof (induction n arbitrary: a p ob q)
  case (Suc n)
  obtain q1 r1 where e: "enq (at_env (envs a)) batch q = (q1, r1)" by fastforce
  note mono = enq_mono[OF e] and new = enq_new[OF assms(2) e]
  show ?case
  proof (cases r1)
    case None
    then have "q' = q1" "res = None" using Suc.prems e by simp_all
    then show ?thesis using mono new enq_ok[OF _ assms(2)] e None assms(3) by blast
  next
    case (Some err)
    obtain p1 ob1 where l: "logEnqueueFailure (at_log_now (envs a)) err [F ''error'' (FErr err), F ''attempt'' (FInt (int a)),
        F ''max_attempts'' (FInt m), if w \<ge> 0 then F ''worker_id'' (FInt w) else F ''mode'' (FStr ''sync'')] (p, IncIngestErrors ob) = (p1, ob1)"
      by fastforce
    have step: "try_loop enq c envs batch w m a (Suc n) (p, ob, q) =
        (if n = 0 then (case onEnqueueFailure c (at_fail_now (envs a)) (p1, ob1) of (p2, ob2) \<Rightarrow> ((p2, ob2, q1), Some err))
         else case at_wait (envs a) (wrap64 (retryBackoff c * int a)) of Some ce \<Rightarrow> ((p1, ob1, q1), Some ce)
              | None \<Rightarrow> try_loop enq c envs batch w m (Suc a) n (p1, ob1, q1))"
      using e Some l by (simp add: Let_def)
    have "(q' = q1 \<and> res \<noteq> None) \<or> try_loop enq c envs batch w m (Suc a) n (p1, ob1, q1) = ((p', ob', q'), res)"
    proof (cases "n = 0 \<or> at_wait (envs a) (wrap64 (retryBackoff c * int a)) = None")
      case True
      then show ?thesis using Suc.prems unfolding step by (auto split: if_splits prod.splits)
    next
      case False
      then obtain ce where "at_wait (envs a) (wrap64 (retryBackoff c * int a)) = Some ce" by auto
      then have "res = Some ce" "q' = q1" using False Suc.prems unfolding step by simp_all
      then show ?thesis by simp
    qed
    then show ?thesis
    proof
      assume t: "try_loop enq c envs batch w m (Suc a) n (p1, ob1, q1) = ((p', ob', q'), res)"
      note ih = Suc.IH[OF t]
      have "set_mset (published q' - published q) \<subseteq> canon ` set batch"
        using new_trans[OF mono _ new] ih by blast
      moreover have "published q + mset (map canon batch) \<subseteq># published q1 + mset (map canon batch)"
        using mono by (rule subset_mset.add_right_mono)
      ultimately show ?thesis using ih mono subset_mset.order_trans by blast
    qed (use mono new in auto)
  qed
qed auto

lemma EnqueueSync_publishes:
  assumes "EnqueueSync enq c now envs batch (p, ob, q) = ((p', ob', q'), res)" "list_all rec_ok batch"
    and "\<forall>i. env_ok (at_env (envs i))"
  shows "published q \<subseteq># published q' \<and> set_mset (published q' - published q) \<subseteq> canon ` set batch
    \<and> (res = None \<longrightarrow> published q + mset (map canon batch) \<subseteq># published q')"
proof (cases "batch = [] \<or> closed p \<or> snd (isCircuitOpen now p)")
  case True
  then show ?thesis using assms(1) by (auto simp: EnqueueSync_def split: prod.splits if_splits)
next
  case False
  then obtain p1 where "isCircuitOpen now p = (p1, False)" by (metis prod.collapse)
  then have "try_loop enq c envs batch (-1) (max_attempts c) 1 (nat (max_attempts c)) (p1, ob, q) = ((p', ob', q'), res)"
    using False assms(1) by (simp add: EnqueueSync_def tryEnqueueWithRetry_def)
  then show ?thesis by (rule try_loop_publishes[OF _ assms(2,3)])
qed

end

subsection \<open>Circuit breaker\<close>

lemma wrap32_id: "- (2 ^ 31) \<le> x \<Longrightarrow> x < 2 ^ 31 \<Longrightarrow> wrap32 x = x"
  by (simp add: wrap32_def)

text \<open>The two counters of the circuit, and what a failure and a success do to them.\<close>

definition circ :: "producer \<Rightarrow> int \<times> int" where
  "circ p = (consecutiveFailures p, circuitOpenUntilNs p)"

definition circ_fail :: "prod_cfg \<Rightarrow> int \<Rightarrow> int \<times> int \<Rightarrow> int \<times> int" where
  "circ_fail c now s =
     (case s of (k, until) \<Rightarrow> if k + 1 < circuitFailureThreshold c then (k + 1, until) else (0, wrap64 (now + circuitCooldown c)))"

definition circ_cfg_ok :: "prod_cfg \<Rightarrow> bool" where
  "circ_cfg_ok c \<longleftrightarrow> 0 < circuitFailureThreshold c \<and> circuitFailureThreshold c < 2 ^ 31 \<and> 0 < circuitCooldown c"

lemma onEnqueueFailure_circ:
  assumes "circ_cfg_ok c" "0 \<le> consecutiveFailures p" "consecutiveFailures p < circuitFailureThreshold c"
  shows "circ (fst (onEnqueueFailure c now (p, ob))) = circ_fail c now (circ p)"
proof -
  have "wrap32 (consecutiveFailures p + 1) = consecutiveFailures p + 1"
    using assms by (intro wrap32_id) (auto simp: circ_cfg_ok_def)
  then show ?thesis using assms(1) by (simp add: onEnqueueFailure_def circ_def circ_fail_def circ_cfg_ok_def Let_def)
qed

lemma logEnqueueFailure_frame:
  "logEnqueueFailure now e flds (p, ob) = (p', ob') \<Longrightarrow>
     circ p' = circ p \<and> closed p' = closed p \<and> started p' = started p \<and> workCh p' = workCh p \<and> chanClosed p' = chanClosed p
     \<and> ingestErrors ob' = ingestErrors ob"
  by (auto simp: logEnqueueFailure_def circ_def Let_def log_msg_def split: if_splits)

lemma onEnqueueFailure_frame:
  "onEnqueueFailure c now (p, ob) = (p', ob') \<Longrightarrow>
     closed p' = closed p \<and> started p' = started p \<and> workCh p' = workCh p \<and> chanClosed p' = chanClosed p
     \<and> ingestErrors ob' = ingestErrors ob"
  by (auto simp: onEnqueueFailure_def Let_def log_msg_def split: if_splits)

text \<open>A queue that refuses everything, and a context that outlives the backoff.\<close>

definition refuses :: "('e, 'q) enq_op \<Rightarrow> bool" where
  "refuses enq \<longleftrightarrow> (\<forall>e b q. snd (enq e b q) \<noteq> None)"

lemma try_loop_refused:
  assumes "refuses enq" "\<forall>i d. at_wait (envs i) d = None" "circ_cfg_ok c"
    and "0 \<le> consecutiveFailures p" "consecutiveFailures p < circuitFailureThreshold c" "0 < n"
  shows "\<exists>p' ob' q' e. try_loop enq c envs batch w m a n (p, ob, q) = ((p', ob', q'), Some e)
    \<and> circ p' = circ_fail c (at_fail_now (envs (a + n - 1))) (circ p) \<and> closed p' = closed p \<and> started p' = started p
    \<and> ingestErrors ob' = ingestErrors ob + n"
  using assms(4-)
proof (induction n arbitrary: a p ob q)
  case (Suc n)
  obtain q1 e where e: "enq (at_env (envs a)) batch q = (q1, Some e)"
    using assms(1) by (metis option.exhaust prod.collapse refuses_def)
  obtain p1 ob1 where l: "logEnqueueFailure (at_log_now (envs a)) e [F ''error'' (FErr e), F ''attempt'' (FInt (int a)),
      F ''max_attempts'' (FInt m), if w \<ge> 0 then F ''worker_id'' (FInt w) else F ''mode'' (FStr ''sync'')] (p, IncIngestErrors ob) = (p1, ob1)"
    by fastforce
  note f = logEnqueueFailure_frame[OF l]
  have k: "0 \<le> consecutiveFailures p1" "consecutiveFailures p1 < circuitFailureThreshold c"
    using f Suc.prems by (auto simp: circ_def)
  show ?case
  proof (cases "n = 0")
    case True
    obtain p2 ob2 where o: "onEnqueueFailure c (at_fail_now (envs a)) (p1, ob1) = (p2, ob2)" by fastforce
    have "circ p2 = circ_fail c (at_fail_now (envs a)) (circ p1)" using onEnqueueFailure_circ[OF assms(3) k] o by (metis fst_conv)
    then show ?thesis
      using e l o f onEnqueueFailure_frame[OF o] True by (auto simp: Let_def obs_simps)
  next
    case False
    then have "try_loop enq c envs batch w m a (Suc n) (p, ob, q) = try_loop enq c envs batch w m (Suc a) n (p1, ob1, q1)"
      using e l assms(2) by (simp add: Let_def)
    then show ?thesis using Suc.IH[OF k, of "Suc a" ob1 q1] False f by (auto simp: obs_simps)
  qed
qed simp

text \<open>A sequence of synchronous calls: clock, answers and batch of each.\<close>

record 'e sync_call =
  sc_now :: int
  sc_envs :: "nat \<Rightarrow> 'e att_env"
  sc_batch :: "LogRecord list"

fun sync_run :: "('e, 'q) enq_op \<Rightarrow> prod_cfg \<Rightarrow> 'e sync_call list \<Rightarrow> producer \<times> obs \<times> 'q \<Rightarrow>
    (producer \<times> obs \<times> 'q) \<times> goerr option list" where
  "sync_run enq c [] st = (st, [])"
| "sync_run enq c (x # xs) st =
     (case EnqueueSync enq c (sc_now x) (sc_envs x) (sc_batch x) st of (st1, res) \<Rightarrow>
      case sync_run enq c xs st1 of (st2, rest) \<Rightarrow> (st2, res # rest))"

definition patient :: "'e sync_call \<Rightarrow> bool" where
  "patient x \<longleftrightarrow> sc_batch x \<noteq> [] \<and> (\<forall>i d. at_wait (sc_envs x i) d = None)"

lemma max_attempts_pos: "0 < nat (max_attempts c)"
  by (simp add: max_attempts_def Let_def)

lemma EnqueueSync_refused:
  assumes "refuses enq" "patient x" "circ_cfg_ok c" "circ p = (k, 0)" "0 \<le> k" "k < circuitFailureThreshold c" "\<not> closed p"
  shows "\<exists>p' ob' q' e. EnqueueSync enq c (sc_now x) (sc_envs x) (sc_batch x) (p, ob, q) = ((p', ob', q'), Some e)
    \<and> circ p' = circ_fail c (at_fail_now (sc_envs x (nat (max_attempts c)))) (k, 0) \<and> \<not> closed p' \<and> started p' = started p"
proof -
  have k: "consecutiveFailures p = k" "circuitOpenUntilNs p = 0" using assms(4) by (auto simp: circ_def)
  have "isCircuitOpen (sc_now x) p = (p, False)" using k by (simp add: isCircuitOpen_def)
  then have "EnqueueSync enq c (sc_now x) (sc_envs x) (sc_batch x) (p, ob, q) =
      try_loop enq c (sc_envs x) (sc_batch x) (-1) (max_attempts c) 1 (nat (max_attempts c)) (p, ob, q)"
    using assms(2,7) by (simp add: EnqueueSync_def tryEnqueueWithRetry_def patient_def)
  moreover have w: "\<forall>i d. at_wait (sc_envs x i) d = None" using assms(2) by (simp add: patient_def)
  ultimately show ?thesis
    using try_loop_refused[OF assms(1) w assms(3), of p "nat (max_attempts c)" "sc_batch x" "-1" "max_attempts c" 1 ob q]
      k assms(4-7) max_attempts_pos[of c] by auto
qed

lemma sync_run_refused:
  assumes "refuses enq" "circ_cfg_ok c"
  shows "list_all patient xs \<Longrightarrow> circ p = (k, 0) \<Longrightarrow> 0 \<le> k \<Longrightarrow> k + int (length xs) < circuitFailureThreshold c \<Longrightarrow> \<not> closed p \<Longrightarrow>
    \<exists>p' ob' q' rs. sync_run enq c xs (p, ob, q) = ((p', ob', q'), rs) \<and> circ p' = (k + int (length xs), 0) \<and> \<not> closed p' \<and> started p' = started p"
proof (induction xs arbitrary: p ob q k)
  case (Cons x xs)
  obtain p1 ob1 q1 e where x: "EnqueueSync enq c (sc_now x) (sc_envs x) (sc_batch x) (p, ob, q) = ((p1, ob1, q1), Some e)"
      "circ p1 = circ_fail c (at_fail_now (sc_envs x (nat (max_attempts c)))) (k, 0)" "\<not> closed p1" "started p1 = started p"
    using EnqueueSync_refused[OF assms(1) _ assms(2) Cons.prems(2,3), of x ob q] Cons.prems by auto
  then have "circ p1 = (k + 1, 0)" using Cons.prems by (simp add: circ_fail_def)
  then obtain p2 ob2 q2 rs where "sync_run enq c xs (p1, ob1, q1) = ((p2, ob2, q2), rs)"
      "circ p2 = (k + 1 + int (length xs), 0)" "\<not> closed p2" "started p2 = started p1"
    using Cons.IH[of p1 "k + 1" ob1 q1] Cons.prems x(3) by auto
  then show ?case using x(1,4) by auto
qed simp

lemma sync_run_append:
  "sync_run enq c (xs @ ys) st = (case sync_run enq c xs st of (st1, r1) \<Rightarrow> case sync_run enq c ys st1 of (st2, r2) \<Rightarrow> (st2, r1 @ r2))"
  by (induction xs arbitrary: st) (auto split: prod.splits)

lemma open_rejects:
  assumes "circuitOpenUntilNs p \<noteq> 0" "now < circuitOpenUntilNs p" "batch \<noteq> []" "\<not> closed p"
  shows "EnqueueSync enq c now envs batch (p, ob, q) = ((p, ob, q), Some ErrProducerCircuitOpen)"
    "Enqueue fl c now ctxErr batch (p, ob) = Some ((p, ob), Some (if started p then ErrProducerCircuitOpen else ErrProducerNotStarted))"
  using assms by (simp_all add: EnqueueSync_def Enqueue_def enqueue_guards_def isCircuitOpen_def)

subsection \<open>Suppressed log lines\<close>

definition transient_msg :: string where
  "transient_msg = ''failed to enqueue logs (transient, suppressed)''"

fun int_field :: "fval \<Rightarrow> int" where
  "int_field (FInt n) = n"
| "int_field _ = 0"

definition reported :: "obs \<Rightarrow> int" where
  "reported ob = sum_list (map (\<lambda>ev. if ev_msg ev = transient_msg then int_field (snd (last (ev_fields ev))) else 0) (logs ob))"

lemma logEnqueueFailure_counts:
  assumes "logEnqueueFailure now e flds (p, ob) = (p', ob')" "isTransientProducerError e"
    and "0 \<le> transientErrorEvents p" "transientErrorEvents p + 1 < 2 ^ 64"
  shows "reported ob' + transientErrorEvents p' = reported ob + transientErrorEvents p + 1"
    "0 \<le> transientErrorEvents p'" "transientErrorEvents p' \<le> transientErrorEvents p + 1"
proof -
  have m: "(transientErrorEvents p + 1) mod 2 ^ 64 = transientErrorEvents p + 1" using assms(3,4) by simp
  show "reported ob' + transientErrorEvents p' = reported ob + transientErrorEvents p + 1"
    using assms by (auto simp: logEnqueueFailure_def Let_def m reported_def log_msg_def transient_msg_def F_def split: if_splits)
  show "0 \<le> transientErrorEvents p'" "transientErrorEvents p' \<le> transientErrorEvents p + 1"
    using assms by (auto simp: logEnqueueFailure_def Let_def m split: if_splits)
qed

fun log_all :: "(int \<times> goerr \<times> field list) list \<Rightarrow> producer \<times> obs \<Rightarrow> producer \<times> obs" where
  "log_all [] st = st"
| "log_all ((now, e, flds) # xs) st = log_all xs (logEnqueueFailure now e flds st)"

subsection \<open>Properties\<close>

definition dead_enq :: "(unit, nat) enq_op" where
  "dead_enq e b q = (q + 1, Some (NetErr True ''dial tcp: i/o timeout''))"

definition ex_call :: "unit sync_call" where
  "ex_call = \<lparr>sc_now = 1000, sc_envs = (\<lambda>i. \<lparr>at_env = (), at_log_now = 1000, at_fail_now = 2000, at_wait = (\<lambda>d. None)\<rparr>),
     sc_batch = [zero_record]\<rparr>"

definition ex_cfg :: prod_cfg where
  "ex_cfg = fst (NewProducerService None)"

definition ex_prod :: producer where
  "ex_prod = (snd (NewProducerService None))\<lparr>started := True\<rparr>"

text \<open>(C23) When the queue refuses every attempt of as many calls in a row as the failure threshold says, and not before,
  the circuit opens until the cooldown after the last attempt; until then every further call is rejected without touching the
  queue or the channel: \<^verbatim>\<open>EnqueueSync\<close> and, on a started producer, the buffered \<^verbatim>\<open>Enqueue\<close> with
  \<^verbatim>\<open>ErrProducerCircuitOpen\<close> (\<^verbatim>\<open>Enqueue\<close> on one that was never started with its own error).\<close>

theorem circuit_trips_at_threshold:
  assumes "refuses enq" "circ_cfg_ok c" "list_all patient xs" "int (length xs) = circuitFailureThreshold c"
    and "circ p = (0, 0)" "\<not> closed p"
    and "until = wrap64 (at_fail_now (sc_envs (last xs) (nat (max_attempts c))) + circuitCooldown c)" "until \<noteq> 0"
  shows "\<exists>p1 ob1 q1 rs1 p2 ob2 q2 rs2.
      sync_run enq c (butlast xs) (p, ob, q) = ((p1, ob1, q1), rs1) \<and> circuitOpenUntilNs p1 = 0
    \<and> sync_run enq c xs (p, ob, q) = ((p2, ob2, q2), rs2) \<and> circuitOpenUntilNs p2 = until
    \<and> (\<forall>now batch enq2 envs ob3 q3. now < until \<and> batch \<noteq> [] \<longrightarrow>
         EnqueueSync (enq2 :: ('e, 'q) enq_op) c now envs batch (p2, ob3, q3) = ((p2, ob3, q3), Some ErrProducerCircuitOpen))
    \<and> (\<forall>now batch fl ctxErr ob3. now < until \<and> batch \<noteq> [] \<longrightarrow>
         Enqueue fl c now ctxErr batch (p2, ob3) =
           Some ((p2, ob3), Some (if started p then ErrProducerCircuitOpen else ErrProducerNotStarted)))"
proof -
  have ne: "xs \<noteq> []" using assms(2,4) by (auto simp: circ_cfg_ok_def)
  then have xs: "xs = butlast xs @ [last xs]" by simp
  have len: "int (length (butlast xs)) = circuitFailureThreshold c - 1" using assms(4) ne by (cases xs rule: rev_cases) auto
  have pat: "list_all patient (butlast xs)" "patient (last xs)"
    using assms(3) ne by (auto simp: list_all_iff dest: in_set_butlastD)
  obtain p1 ob1 q1 rs1 where b: "sync_run enq c (butlast xs) (p, ob, q) = ((p1, ob1, q1), rs1)"
      "circ p1 = (0 + int (length (butlast xs)), 0)" "\<not> closed p1" "started p1 = started p"
    using sync_run_refused[OF assms(1,2) pat(1) assms(5), of ob q] len assms(6) by auto
  obtain p2 ob2 q2 e where l: "EnqueueSync enq c (sc_now (last xs)) (sc_envs (last xs)) (sc_batch (last xs)) (p1, ob1, q1) = ((p2, ob2, q2), Some e)"
      "circ p2 = circ_fail c (at_fail_now (sc_envs (last xs) (nat (max_attempts c)))) (0 + int (length (butlast xs)), 0)" "\<not> closed p2" "started p2 = started p1"
    using EnqueueSync_refused[OF assms(1) pat(2) assms(2) b(2), of ob1 q1] len b(3) by auto
  have u: "circuitOpenUntilNs p2 = until" using l(2) len assms(7) by (simp add: circ_fail_def circ_def)
  have r: "sync_run enq c xs (p, ob, q) = ((p2, ob2, q2), rs1 @ [Some e])"
    using b(1) l(1) by (subst xs) (simp add: sync_run_append)
  have "circuitOpenUntilNs p1 = 0" using b(2) by (simp add: circ_def)
  moreover have "EnqueueSync (enq2 :: ('e, 'q) enq_op) c now envs batch (p2, ob3, q3) = ((p2, ob3, q3), Some ErrProducerCircuitOpen)"
    if "now < until \<and> batch \<noteq> []" for now batch enq2 envs ob3 q3
    using u assms(8) that l(3) by (intro open_rejects(1)) auto
  moreover have "Enqueue fl c now ctxErr batch (p2, ob3) =
      Some ((p2, ob3), Some (if started p then ErrProducerCircuitOpen else ErrProducerNotStarted))"
    if "now < until \<and> batch \<noteq> []" for now batch fl ctxErr ob3
    using u assms(8) that l(3,4) b(4) open_rejects(2)[of p2 now batch fl c ctxErr ob3] by simp
  ultimately show ?thesis using b(1) r u by blast
qed

lemma circuit_trips_at_threshold_witness:
  "\<exists>p2 ob2 q2 rs2. sync_run dead_enq ex_cfg (replicate 5 ex_call) (ex_prod, obs0, 0) = ((p2, ob2, q2), rs2)
     \<and> circuitOpenUntilNs p2 = 10000002000
     \<and> Enqueue (\<lambda>x. x) ex_cfg 3000 None [zero_record] (p2, ob2) = Some ((p2, ob2), Some ErrProducerCircuitOpen)"
proof -
  have "circ_cfg_ok ex_cfg" "list_all patient (replicate 5 ex_call)" "refuses dead_enq" "circ ex_prod = (0, 0)" "\<not> closed ex_prod" "started ex_prod"
    "int (length (replicate 5 ex_call)) = circuitFailureThreshold ex_cfg" "circuitCooldown ex_cfg = 10 * Second"
    by (simp_all add: ex_cfg_def NewProducerService_def default_cfg_def circ_cfg_ok_def list_all_iff patient_def ex_call_def
        refuses_def dead_enq_def circ_def ex_prod_def)
  moreover have "last (replicate 5 ex_call) = ex_call" by simp
  moreover have "10000002000 = wrap64 (at_fail_now (sc_envs ex_call i) + 10 * Second)" for i
    by (simp add: ex_call_def wrap64_def)
  ultimately show ?thesis
    using circuit_trips_at_threshold[of dead_enq ex_cfg "replicate 5 ex_call" ex_prod 10000002000 obs0 0] by auto
qed

text \<open>No suppressed failure is forgotten: over any sequence of transient enqueue failures the numbers reported in
  the log lines and the pending counter add up to the number of failures.\<close>

theorem suppressed_failures_add_up:
  assumes "log_all xs (p, ob) = (p', ob')" "\<forall>(now, e, flds) \<in> set xs. isTransientProducerError e"
    and "0 \<le> transientErrorEvents p" "transientErrorEvents p + int (length xs) < 2 ^ 64"
  shows "reported ob' + transientErrorEvents p' = reported ob + transientErrorEvents p + int (length xs)"
  using assms
proof (induction xs arbitrary: p ob)
  case (Cons x xs)
  obtain now e flds where x: "x = (now, e, flds)" by (cases x)
  obtain p1 ob1 where l: "logEnqueueFailure now e flds (p, ob) = (p1, ob1)" by fastforce
  note c = logEnqueueFailure_counts[OF l]
  show ?case using Cons.IH[of p1 ob1] Cons.prems l c x by auto
qed simp

lemma suppressed_failures_add_up_witness:
  "reported (snd (log_all [(0, ErrQueueFull, []), (6000000000, DeadlineExceeded, []), (6000000001, DeadlineExceeded, [])] (ex_prod, obs0)))
     + transientErrorEvents (fst (log_all [(0, ErrQueueFull, []), (6000000000, DeadlineExceeded, []), (6000000001, DeadlineExceeded, [])] (ex_prod, obs0))) = 3"
proof -
  let ?xs = "[(0 :: int, ErrQueueFull, [] :: field list), (6000000000, DeadlineExceeded, []), (6000000001, DeadlineExceeded, [])]"
  obtain p' ob' where l: "log_all ?xs (ex_prod, obs0) = (p', ob')" by fastforce
  have "isTransientProducerError ErrQueueFull" "isTransientProducerError DeadlineExceeded"
    by (simp_all add: isTransientProducerError_def err_is_def)
  then have "reported ob' + transientErrorEvents p' = reported obs0 + transientErrorEvents ex_prod + int (length ?xs)"
    by (intro suppressed_failures_add_up[OF l]) (auto simp: ex_prod_def NewProducerService_def)
  then show ?thesis unfolding l by (simp add: reported_def obs0_def ex_prod_def NewProducerService_def)
qed

end
