(* ===== verification/Kafka_Queue.thy ===== *)
theory Kafka_Queue
  imports Log_Queue Go_Io Metrics Retry
begin

section \<open>The Kafka queue (internal/queue)\<close>

text \<open>
  \<open>KafkaLogQueue\<close> with the topic it writes to. The client library (\<^verbatim>\<open>segmentio/kafka-go\<close>) is not part of the
  repository: what \<^verbatim>\<open>WriteMessages\<close> does is the record \<open>kw_env\<close>, an argument: how many copies of the \<open>i\<close>-th
  message the brokers keep (the writer retries on its own, so there can be several) and the error it
  returns. \<open>kw_ok\<close> is its documented behaviour for a synchronous writer (\<^verbatim>\<open>kafka.async\<close> off): no error only when every message is
  written. The flags \<open>kq_async\<close> and \<open>writerClosed\<close> are read by the library alone: an asynchronous writer answers without an error before
  anything is stored, which is a \<open>kw_env\<close> outside \<open>kw_ok\<close>, and a closed one answers with an error, a \<open>kw_env\<close> with no copies. What \<^verbatim>\<open>FetchMessage\<close> returns, and whether the wait for a retry is cut short, is a list of \<open>fetch\<close>
  answers for \<open>consume\<close>; the handler is a state transformer.
\<close>

record KafkaSettings =
  Brokers :: "string list"
  Topic :: string
  GroupID :: string
  BatchSize :: int
  BatchTimeout :: duration
  Consumers :: int
  RequireAllAcks :: bool
  BatchBytes :: int
  Compression :: string
  Async :: bool

datatype codec = NoCodec | Gzip | Snappy | Lz4 | Zstd

datatype acks = RequireOne | RequireAll

record KafkaLogQueue =
  topicLog :: "string list"
  kq_brokers :: "string list"
  kq_topic :: string
  kq_group :: string
  kq_batchSize :: int
  kq_batchBytes :: int
  kq_async :: bool
  kq_batchTimeout :: duration
  kq_acks :: acks
  kq_codec :: codec
  consumers :: int
  activeConsumers :: int
  writerClosed :: bool
  kafkaDown :: bool
  lastDownLogNs :: int
  lastWriterLogNs :: int

definition kafkaDownLogInterval :: duration where "kafkaDownLogInterval = 5 * Second"

definition kafkaWriterLogInterval :: duration where "kafkaWriterLogInterval = 30 * Second"

definition kafkaRetryMinBackoff :: duration where "kafkaRetryMinBackoff = 250 * Millisecond"

definition kafkaRetryMaxBackoff :: duration where "kafkaRetryMaxBackoff = 5 * Second"

definition compressionCodec :: "string \<Rightarrow> codec" where
  "compressionCodec name =
     (let n = ToLower (TrimSpace name) in
      if n = '''' \<or> n = ''none'' then NoCodec
      else if n = ''gzip'' then Gzip
      else if n = ''snappy'' then Snappy
      else if n = ''lz4'' then Lz4
      else if n = ''zstd'' \<or> n = ''zstandard'' then Zstd
      else NoCodec)"

definition NewKafkaLogQueue :: "KafkaSettings \<Rightarrow> KafkaLogQueue result" where
  "NewKafkaLogQueue cfg =
     (if Brokers cfg = [] then Inl (ErrMsg ''kafka brokers must be provided'')
      else Inr \<lparr>topicLog = [], kq_brokers = Brokers cfg,
             kq_topic = (if Topic cfg = [] then ''logs'' else Topic cfg),
             kq_group = (if GroupID cfg = [] then ''logs-consumer-group'' else GroupID cfg),
             kq_batchSize = (if BatchSize cfg = 0 then 100 else BatchSize cfg),
             kq_batchBytes = BatchBytes cfg, kq_async = Async cfg,
             kq_batchTimeout = (if BatchTimeout cfg = 0 then Second else BatchTimeout cfg),
             kq_acks = (if RequireAllAcks cfg then RequireAll else RequireOne),
             kq_codec = compressionCodec (Compression cfg),
             consumers = (if Consumers cfg \<le> 0 then 1 else Consumers cfg),
             activeConsumers = 0, writerClosed = False, kafkaDown = False, lastDownLogNs = 0, lastWriterLogNs = 0\<rparr>)"

subsection \<open>Producing\<close>

record kw_env =
  kw_copies :: "nat \<Rightarrow> nat"
  kw_err :: "goerr option"

definition kw_ok :: "kw_env \<Rightarrow> bool" where
  "kw_ok e \<longleftrightarrow> (kw_err e = None \<longrightarrow> (\<forall>i. 1 \<le> kw_copies e i))"

definition WriteMessages :: "kw_env \<Rightarrow> string list \<Rightarrow> KafkaLogQueue \<Rightarrow> KafkaLogQueue \<times> goerr option" where
  "WriteMessages e msgs q =
     (q\<lparr>topicLog := topicLog q @ concat (map (\<lambda>(i, m). replicate (kw_copies e i) m) (List.enumerate 0 msgs))\<rparr>, kw_err e)"

definition EnqueueBatch :: "kw_env \<Rightarrow> LogRecord list \<Rightarrow> KafkaLogQueue \<Rightarrow> KafkaLogQueue \<times> goerr option" where
  "EnqueueBatch e records q =
     (if records = [] then (q, None)
      else case all_some (map marshal_record records) of
             None \<Rightarrow> (q, Some marshal_err)
           | Some messages \<Rightarrow> WriteMessages e messages q)"

subsection \<open>Health of the connection\<close>

definition markKafkaDown :: "int \<Rightarrow> goerr \<Rightarrow> KafkaLogQueue \<times> obs \<Rightarrow> KafkaLogQueue \<times> obs" where
  "markKafkaDown now e st =
     (case st of (q, ob) \<Rightarrow>
        let ob1 = SetKafkaUp False (IncKafkaConsumerErrors ob); wasDown = kafkaDown q; q1 = q\<lparr>kafkaDown := True\<rparr> in
        if \<not> wasDown then (q1\<lparr>lastDownLogNs := now\<rparr>, log_msg LWarn ''kafka became unavailable'' [F ''error'' (FErr e)] ob1)
        else if wrap64 (now - lastDownLogNs q1) < kafkaDownLogInterval then (q1, ob1)
        else (q1\<lparr>lastDownLogNs := now\<rparr>, log_msg LWarn ''kafka still unavailable'' [F ''error'' (FErr e)] ob1))"

definition markKafkaUp :: "int \<Rightarrow> int \<Rightarrow> KafkaLogQueue \<times> obs \<Rightarrow> KafkaLogQueue \<times> obs" where
  "markKafkaUp part off st =
     (case st of (q, ob) \<Rightarrow>
        let ob1 = SetKafkaUp True ob; wasDown = kafkaDown q; q1 = q\<lparr>kafkaDown := False\<rparr> in
        (q1, if wasDown then log_msg LInfo ''kafka connectivity recovered''
               [F ''partition'' (FInt part), F ''offset'' (FInt off)] ob1 else ob1))"

definition logWriterError :: "int \<Rightarrow> string \<Rightarrow> KafkaLogQueue \<times> obs \<Rightarrow> KafkaLogQueue \<times> obs" where
  "logWriterError now msg st =
     (case st of (q, ob) \<Rightarrow>
        let ob1 = SetKafkaUp False (IncKafkaWriterErrors ob) in
        if wrap64 (now - lastWriterLogNs q) < kafkaWriterLogInterval then (q, ob1)
        else (q\<lparr>lastWriterLogNs := now\<rparr>, log_msg LWarn ''kafka writer internal error (suppressed)'' [F ''sample'' (FStr msg)] ob1))"

text \<open>\<open>dial b\<close> is the answer of \<^verbatim>\<open>DialContext\<close> for a broker, \<open>ctx i\<close> the poll before the \<open>i\<close>-th broker.\<close>

fun dial_loop :: "(string \<Rightarrow> goerr option) \<Rightarrow> ctx \<Rightarrow> nat \<Rightarrow> string list \<Rightarrow> goerr option \<Rightarrow> KafkaLogQueue \<times> obs \<Rightarrow>
    (KafkaLogQueue \<times> obs) \<times> goerr option" where
  "dial_loop dial ctx i [] lastErr st =
     (st, Some (wrap ''dial kafka brokers: '' (case lastErr of None \<Rightarrow> ErrMsg ''no brokers to dial'' | Some e \<Rightarrow> e)))"
| "dial_loop dial ctx i (b # bs) lastErr (q, ob) =
     (case ctx i of
        Some e \<Rightarrow> ((q, ob), Some e)
      | None \<Rightarrow>
          (case dial b of
             Some e \<Rightarrow> dial_loop dial ctx (Suc i) bs (Some e) (q, ob)
           | None \<Rightarrow> ((q\<lparr>kafkaDown := False\<rparr>, SetKafkaUp True ob), None)))"

definition CheckConnectivity ::
  "(string \<Rightarrow> goerr option) \<Rightarrow> ctx \<Rightarrow> KafkaLogQueue \<times> obs \<Rightarrow> (KafkaLogQueue \<times> obs) \<times> goerr option" where
  "CheckConnectivity dial ctx st =
     (if kq_brokers (fst st) = [] then (st, Some (ErrMsg ''kafka brokers not configured''))
      else dial_loop dial ctx 0 (kq_brokers (fst st)) None st)"

text \<open>\<^verbatim>\<open>Close\<close> closes the writer once; \<open>err\<close> is the writer's answer.\<close>

definition close_queue :: "goerr option \<Rightarrow> KafkaLogQueue \<Rightarrow> KafkaLogQueue \<times> goerr option" where
  "close_queue err q = (if writerClosed q then (q, None) else (q\<lparr>writerClosed := True\<rparr>, err))"

subsection \<open>Consuming\<close>

datatype fetch =
    FetchErr goerr "goerr option" int bool
  | FetchMsg int int string

text \<open>\<open>FetchErr e ctxErr now doneFirst\<close>: the fetch failed with \<open>e\<close>, \<^verbatim>\<open>ctx.Err()\<close> is then \<open>ctxErr\<close>, the clock shows
  \<open>now\<close>, and the context is done before the retry timer or not. The result says whether the loop returned, and
  which delays it asked for.\<close>

record 's cons_state =
  cs_queue :: KafkaLogQueue
  cs_obs :: obs
  cs_delay :: duration
  cs_waits :: "duration list"
  cs_user :: 's

definition active_add :: "int \<Rightarrow> KafkaLogQueue \<Rightarrow> KafkaLogQueue" where
  "active_add d q = q\<lparr>activeConsumers := (activeConsumers q + d + 2 ^ 31) mod 2 ^ 32 - 2 ^ 31\<rparr>"

definition on_message ::
  "(ConsumedMessage \<Rightarrow> 's \<Rightarrow> 's) \<Rightarrow> int \<Rightarrow> int \<Rightarrow> int \<Rightarrow> string \<Rightarrow> 's cons_state \<Rightarrow> 's cons_state" where
  "on_message handler idx part off val st =
     (case markKafkaUp part off (cs_queue st, cs_obs st) of (q1, ob1) \<Rightarrow>
        let q2 = active_add 1 q1;
            ob2 = log_msg LDebug ''kafka consumer processing message''
                    [F ''index'' (FInt idx), F ''activeConsumers'' (FInt (activeConsumers q2)),
                     F ''partition'' (FInt part), F ''offset'' (FInt off)] ob1;
            st1 = st\<lparr>cs_delay := kafkaRetryMinBackoff\<rparr> in
        case unmarshal_record val of
          None \<Rightarrow> st1\<lparr>cs_queue := active_add (-1) q2,
                   cs_obs := log_msg LWarn ''discard malformed kafka message'' [F ''error'' (FErr (JsonErr val))] ob2\<rparr>
        | Some r \<Rightarrow> st1\<lparr>cs_queue := active_add (-1) q2, cs_obs := ob2,
                   cs_user := handler \<lparr>Record = r, Partition = part, Offset = off, HasCommit = True\<rparr> (cs_user st)\<rparr>)"

fun consume ::
  "(ConsumedMessage \<Rightarrow> 's \<Rightarrow> 's) \<Rightarrow> (int \<Rightarrow> int) \<Rightarrow> int \<Rightarrow> fetch list \<Rightarrow> 's cons_state \<Rightarrow> 's cons_state \<times> bool" where
  "consume handler rng idx [] st = (st, False)"
| "consume handler rng idx (FetchErr e ctxErr now doneFirst # fs) st =
     (if err_is e ContextCanceled \<or> err_is e DeadlineExceeded \<or> ctxErr \<noteq> None
      then (st\<lparr>cs_obs := log_msg LInfo ''kafka consumer stopped'' [F ''index'' (FInt idx)] (cs_obs st)\<rparr>, True)
      else case markKafkaDown now e (cs_queue st, cs_obs st) of (q1, ob1) \<Rightarrow>
        let d = JitterRetryDelay (cs_delay st) (Some rng);
            st1 = st\<lparr>cs_queue := q1, cs_obs := ob1, cs_waits := cs_waits st @ [d]\<rparr> in
        if \<not> WaitForRetry ctxErr d doneFirst
        then (st1\<lparr>cs_obs := log_msg LInfo ''kafka consumer stopped'' [F ''index'' (FInt idx)] ob1\<rparr>, True)
        else consume handler rng idx fs
               (st1\<lparr>cs_delay := NextRetryDelay (cs_delay st) kafkaRetryMinBackoff kafkaRetryMaxBackoff\<rparr>))"
| "consume handler rng idx (FetchMsg part off val # fs) st =
     consume handler rng idx fs (on_message handler idx part off val st)"

text \<open>\<^verbatim>\<open>StartConsumers\<close>: the number of consumers and the log lines; each then runs \<open>consume\<close>.\<close>

fun start_logs :: "nat \<Rightarrow> int \<Rightarrow> KafkaLogQueue \<Rightarrow> obs \<Rightarrow> obs" where
  "start_logs 0 i q ob = ob"
| "start_logs (Suc n) i q ob = start_logs n (i + 1) q
     (log_msg LInfo ''starting kafka consumer'' [F ''index'' (FInt (i + 1)), F ''total'' (FInt (consumers q)),
        F ''topic'' (FStr (kq_topic q)), F ''group'' (FStr (kq_group q))] ob)"

definition StartConsumers :: "bool \<Rightarrow> KafkaLogQueue \<times> obs \<Rightarrow> (KafkaLogQueue \<times> obs) \<times> nat result" where
  "StartConsumers handlerGiven st =
     (if \<not> handlerGiven then (st, Inl (ErrMsg ''handler required''))
      else let q1 = (if consumers (fst st) \<le> 0 then (fst st)\<lparr>consumers := 1\<rparr> else fst st)
           in ((q1, start_logs (nat (consumers q1)) 0 q1 (snd st)), Inr (nat (consumers q1))))"

subsection \<open>The queue contract\<close>

definition topic_records :: "KafkaLogQueue \<Rightarrow> LogRecord multiset" where
  "topic_records q = mset (line_records (topicLog q))"

definition utc_ok :: "LogRecord \<Rightarrow> bool" where
  "utc_ok r \<longleftrightarrow> t_off (Timestamp r) = 0 \<and> wf_time (Timestamp r)"

lemma all_some_list:
  "all_some (map f xs) = Some ys \<Longrightarrow> list_all2 (\<lambda>y x. f x = Some y) ys xs"
proof (induction xs arbitrary: ys)
  case (Cons x xs)
  obtain y where y: "f x = Some y" using Cons.prems by (cases "f x") auto
  with Cons show ?case by auto
qed simp

definition spread :: "(nat \<Rightarrow> nat) \<Rightarrow> nat \<Rightarrow> 'a list \<Rightarrow> 'a list" where
  "spread c n xs = concat (map (\<lambda>(i, x). replicate (c i) x) (List.enumerate n xs))"

lemma spread_simps [simp]: "spread c n [] = []" "spread c n (x # xs) = replicate (c n) x @ spread c (Suc n) xs"
  by (simp_all add: spread_def)

lemma line_records_replicate: "unmarshal_record m = Some r \<Longrightarrow> line_records (replicate k m) = replicate k r"
  by (induction k) auto

lemma line_records_spread:
  "list_all2 (\<lambda>m r. unmarshal_record m = Some r) ms rs \<Longrightarrow> line_records (spread c n ms) = spread c n rs"
  by (induction arbitrary: n rule: list_all2_induct) (auto simp: line_records_replicate)

lemma set_spread: "set (spread c n xs) \<subseteq> set xs"
  by (induction xs arbitrary: n) auto

lemma mset_spread: "\<forall>i. 1 \<le> c i \<Longrightarrow> mset xs \<subseteq># mset (spread c n xs)"
proof (induction xs arbitrary: n)
  case (Cons x xs)
  then obtain k where k: "c n = Suc k" by (metis One_nat_def Suc_le_D)
  have "mset xs \<subseteq># mset (spread c (Suc n) xs)" using Cons by simp
  then show ?case using k by (simp add: subset_mset.add_increasing)
qed simp

lemma EnqueueBatch_effect:
  assumes "EnqueueBatch e rs q = (q', res)"
  shows "q' = q \<and> (res = None \<longrightarrow> rs = []) \<or>
    (\<exists>ms. all_some (map marshal_record rs) = Some ms \<and> q' = q\<lparr>topicLog := topicLog q @ spread (kw_copies e) 0 ms\<rparr> \<and> res = kw_err e)"
  using assms by (auto simp: EnqueueBatch_def WriteMessages_def spread_def split: if_splits option.splits)

lemma marshalled_records:
  assumes "all_some (map marshal_record rs) = Some ms" "list_all utc_ok rs"
  shows "line_records (spread c 0 ms) = spread c 0 (map valid_record rs)"
proof -
  have "list_all2 (\<lambda>m r. marshal_record r = Some m) ms rs" using all_some_list[OF assms(1)] .
  then have "list_all2 (\<lambda>m r. unmarshal_record m = Some r) ms (map valid_record rs)"
    using assms(2) by (auto simp: list_all2_conv_all_nth list_all_length utc_ok_def intro: unmarshal_marshal)
  then show ?thesis by (rule line_records_spread)
qed

lemma topic_mono: "EnqueueBatch e rs q = (q', res) \<Longrightarrow> topic_records q \<subseteq># topic_records q'"
  using EnqueueBatch_effect[of e rs q q' res] by (auto simp: topic_records_def)

interpretation kafka: log_queue EnqueueBatch kw_ok utc_ok valid_record topic_records
proof
  fix e rs q q' res
  show "topic_records q \<subseteq># topic_records q'" if "EnqueueBatch e rs q = (q', res)" using topic_mono[OF that] .
  assume ok: "list_all utc_ok rs"
  show "set_mset (topic_records q' - topic_records q) \<subseteq> valid_record ` set rs" if "EnqueueBatch e rs q = (q', res)"
    using EnqueueBatch_effect[OF that]
  proof
    assume "\<exists>ms. all_some (map marshal_record rs) = Some ms \<and> q' = q\<lparr>topicLog := topicLog q @ spread (kw_copies e) 0 ms\<rparr> \<and> res = kw_err e"
    then have "topic_records q' = topic_records q + mset (spread (kw_copies e) 0 (map valid_record rs))"
      using marshalled_records[OF _ ok] by (auto simp: topic_records_def)
    then show ?thesis using set_spread[of "kw_copies e" 0 "map valid_record rs"] by simp
  qed simp
  show "topic_records q + mset (map valid_record rs) \<subseteq># topic_records q'"
    if "kw_ok e" "EnqueueBatch e rs q = (q', None)"
    using EnqueueBatch_effect[OF that(2)]
  proof
    assume "\<exists>ms. all_some (map marshal_record rs) = Some ms \<and> q' = q\<lparr>topicLog := topicLog q @ spread (kw_copies e) 0 ms\<rparr> \<and> None = kw_err e"
    then have "topic_records q' = topic_records q + mset (spread (kw_copies e) 0 (map valid_record rs))" "kw_err e = None"
      using marshalled_records[OF _ ok] by (auto simp: topic_records_def)
    then show ?thesis using mset_spread[of "kw_copies e" "map valid_record rs" 0] that(1) by (simp add: kw_ok_def)
  qed simp
qed

subsection \<open>Lemmas on the consumer loop\<close>

definition is_i32 :: "int \<Rightarrow> bool" where
  "is_i32 x \<longleftrightarrow> - (2 ^ 31) \<le> x \<and> x < 2 ^ 31"

lemma active_balanced: "is_i32 (activeConsumers q) \<Longrightarrow> activeConsumers (active_add (-1) (active_add 1 q)) = activeConsumers q"
proof -
  assume a: "is_i32 (activeConsumers q)"
  define x where "x = activeConsumers q"
  have "((x + 1 + 2 ^ 31) mod 2 ^ 32 - 2 ^ 31 + -1 + 2 ^ 31) mod 2 ^ 32 = (x + 2 ^ 31) mod 2 ^ 32"
    by (simp add: mod_diff_left_eq add.commute)
  also have "\<dots> = x + 2 ^ 31" using a by (simp add: x_def is_i32_def)
  finally show ?thesis by (simp add: active_add_def x_def)
qed

text \<open>A fetch error the loop survives, and the messages it hands on.\<close>

fun survives :: "fetch \<Rightarrow> bool" where
  "survives (FetchErr e ctxErr now doneFirst) \<longleftrightarrow>
     \<not> err_is e ContextCanceled \<and> \<not> err_is e DeadlineExceeded \<and> ctxErr = None \<and> \<not> doneFirst"
| "survives (FetchMsg part off val) \<longleftrightarrow> True"

fun decoded :: "fetch list \<Rightarrow> ConsumedMessage list" where
  "decoded [] = []"
| "decoded (FetchErr _ _ _ _ # fs) = decoded fs"
| "decoded (FetchMsg part off val # fs) =
     (case unmarshal_record val of None \<Rightarrow> decoded fs
      | Some r \<Rightarrow> \<lparr>Record = r, Partition = part, Offset = off, HasCommit = True\<rparr> # decoded fs)"

definition delay_ok :: "duration \<Rightarrow> bool" where
  "delay_ok d \<longleftrightarrow> kafkaRetryMinBackoff \<le> d \<and> d \<le> kafkaRetryMaxBackoff"

lemmas backoff_defs = kafkaRetryMinBackoff_def kafkaRetryMaxBackoff_def

lemma delay_next: "delay_ok d \<Longrightarrow> delay_ok (NextRetryDelay d kafkaRetryMinBackoff kafkaRetryMaxBackoff)"
  using NextRetryDelay_double[of d kafkaRetryMinBackoff kafkaRetryMaxBackoff]
  by (auto simp: delay_ok_def backoff_defs is_i64_def)

lemma jitter_pos: "rng_ok rng \<Longrightarrow> delay_ok d \<Longrightarrow> 0 < JitterRetryDelay d (Some rng)"
proof -
  assume r: "rng_ok rng" and d: "delay_ok d"
  have "0 < d" "is_i64 d" "d < 2 ^ 62" using d by (auto simp: delay_ok_def backoff_defs is_i64_def)
  then show ?thesis using jitter_bounds[OF r, of d] by simp
qed

lemma on_message_effect:
  assumes "is_i32 (activeConsumers (cs_queue st))"
  shows "cs_user (on_message h idx part off val st) = fold h (decoded [FetchMsg part off val]) (cs_user st)"
    "activeConsumers (cs_queue (on_message h idx part off val st)) = activeConsumers (cs_queue st)"
    "cs_delay (on_message h idx part off val st) = kafkaRetryMinBackoff"
    "\<not> kafkaDown (cs_queue (on_message h idx part off val st))"
    "topicLog (cs_queue (on_message h idx part off val st)) = topicLog (cs_queue st)"
proof -
  let ?q = "(cs_queue st)\<lparr>kafkaDown := False\<rparr>"
  have "activeConsumers (active_add (-1) (active_add 1 ?q)) = activeConsumers (cs_queue st)"
    using active_balanced[of ?q] assms by simp
  then show "activeConsumers (cs_queue (on_message h idx part off val st)) = activeConsumers (cs_queue st)"
    by (simp add: on_message_def markKafkaUp_def Let_def split: option.splits)
qed (simp_all add: on_message_def markKafkaUp_def active_add_def Let_def delay_ok_def backoff_defs split: option.splits)

lemma markDown_effect:
  assumes "markKafkaDown now e (q, ob) = (q', ob')"
  shows "kafkaDown q'" "kafkaUp ob' = 0" "activeConsumers q' = activeConsumers q" "topicLog q' = topicLog q"
  using assms by (auto simp: markKafkaDown_def metrics_defs Let_def split: if_splits)

definition health :: "KafkaLogQueue \<Rightarrow> obs \<Rightarrow> bool" where
  "health q ob \<longleftrightarrow> (kafkaDown q \<longrightarrow> kafkaUp ob = 0)"

lemma consume_run:
  assumes "consume h rng idx fs st = (st', ret)" "rng_ok rng" "delay_ok (cs_delay st)"
    and "is_i32 (activeConsumers (cs_queue st))" "health (cs_queue st) (cs_obs st)"
  shows "cs_user st' = fold h (decoded (takeWhile survives fs)) (cs_user st)
    \<and> activeConsumers (cs_queue st') = activeConsumers (cs_queue st) \<and> health (cs_queue st') (cs_obs st')
    \<and> (ret \<longleftrightarrow> \<not> list_all survives fs) \<and> topicLog (cs_queue st') = topicLog (cs_queue st)"
  using assms
proof (induction fs arbitrary: st)
  case (Cons f fs)
  have hl: "health q (log_msg l t flds ob) = health q ob" for q l t flds ob by (simp add: health_def log_msg_def)
  show ?case
  proof (cases f)
    case (FetchErr e ctxErr now doneFirst)
    obtain q1 ob1 where m: "markKafkaDown now e (cs_queue st, cs_obs st) = (q1, ob1)" by fastforce
    note eff = markDown_effect[OF m]
    have jp: "\<not> JitterRetryDelay (cs_delay st) (Some rng) \<le> 0" using jitter_pos[OF Cons.prems(2,3)] by simp
    consider (ctx) "err_is e ContextCanceled \<or> err_is e DeadlineExceeded \<or> ctxErr \<noteq> None"
      | (wait) "\<not> (err_is e ContextCanceled \<or> err_is e DeadlineExceeded \<or> ctxErr \<noteq> None)" "doneFirst"
      | (go) "\<not> (err_is e ContextCanceled \<or> err_is e DeadlineExceeded \<or> ctxErr \<noteq> None)" "\<not> doneFirst"
      by blast
    then show ?thesis
    proof cases
      case ctx
      then show ?thesis using Cons.prems FetchErr hl by auto
    next
      case wait
      then show ?thesis using Cons.prems FetchErr m jp eff by (auto simp: WaitForRetry_def Let_def health_def log_msg_def)
    next
      case go
      let ?st = "st\<lparr>cs_queue := q1, cs_obs := ob1, cs_waits := cs_waits st @ [JitterRetryDelay (cs_delay st) (Some rng)],
          cs_delay := NextRetryDelay (cs_delay st) kafkaRetryMinBackoff kafkaRetryMaxBackoff\<rparr>"
      have c: "consume h rng idx fs ?st = (st', ret)"
        using Cons.prems(1) FetchErr go m jp by (simp add: WaitForRetry_def Let_def)
      then show ?thesis using Cons.IH[OF c] Cons.prems FetchErr go eff delay_next by (simp add: health_def)
    qed
  next
    case (FetchMsg part off val)
    note e = on_message_effect[OF Cons.prems(4), of h idx part off val]
    have "health (cs_queue (on_message h idx part off val st)) (cs_obs (on_message h idx part off val st))"
      using e(4) by (simp add: health_def)
    moreover have "delay_ok kafkaRetryMinBackoff" by (simp add: delay_ok_def backoff_defs)
    ultimately show ?thesis
      using Cons.IH[of "on_message h idx part off val st"] Cons.prems FetchMsg e by (simp split: option.splits)
  qed
qed auto

fun is_err :: "fetch \<Rightarrow> bool" where
  "is_err (FetchErr _ _ _ _) = True"
| "is_err (FetchMsg _ _ _) = False"

lemma delay_ok_retry: "delay_ok (retry_delay k kafkaRetryMinBackoff kafkaRetryMaxBackoff)"
proof (induction k)
  case 0
  then show ?case by (simp add: delay_ok_def backoff_defs)
qed (simp add: delay_next)

lemma consume_waits:
  assumes "list_all (\<lambda>f. is_err f \<and> survives f) errs" "rng_ok rng"
    and "cs_delay st = retry_delay k kafkaRetryMinBackoff kafkaRetryMaxBackoff"
  shows "cs_waits (fst (consume h rng idx errs st)) = cs_waits st @
    map (\<lambda>i. JitterRetryDelay (retry_delay i kafkaRetryMinBackoff kafkaRetryMaxBackoff) (Some rng)) [k..<k + length errs]"
  using assms(1,3)
proof (induction errs arbitrary: st k)
  case (Cons f errs)
  then obtain e now where f: "f = FetchErr e None now False" "\<not> err_is e ContextCanceled" "\<not> err_is e DeadlineExceeded"
    by (cases f) auto
  obtain q1 ob1 where m: "markKafkaDown now e (cs_queue st, cs_obs st) = (q1, ob1)" by fastforce
  have jp: "\<not> JitterRetryDelay (cs_delay st) (Some rng) \<le> 0"
    using jitter_pos[OF assms(2) delay_ok_retry, of k] Cons.prems(2) by simp
  have up: "[k..<k + length (f # errs)] = k # [Suc k..<Suc k + length errs]" by (simp add: upt_rec)
  show ?case
    using Cons.prems Cons.IH[of _ "Suc k"] f m jp unfolding up by (simp add: WaitForRetry_def Let_def)
qed simp

subsection \<open>Properties\<close>

definition ex_queue :: KafkaLogQueue where
  "ex_queue = (case NewKafkaLogQueue \<lparr>Brokers = [''b:9092''], Topic = [], GroupID = [], BatchSize = 0,
     BatchTimeout = 0, Consumers = 0, RequireAllAcks = False, BatchBytes = 0, Compression = ''gzip'', Async = False\<rparr> of Inr q \<Rightarrow> q)"

definition ex_cons :: "ConsumedMessage list cons_state" where
  "ex_cons = \<lparr>cs_queue = ex_queue, cs_obs = obs0, cs_delay = kafkaRetryMinBackoff, cs_waits = [], cs_user = []\<rparr>"

definition top_rng :: "int \<Rightarrow> int" where
  "top_rng n = n - 1"

lemma ex_kafka_facts [simp]: "rng_ok top_rng" "cs_delay ex_cons = kafkaRetryMinBackoff" "is_i32 (activeConsumers (cs_queue ex_cons))"
  "health (cs_queue ex_cons) (cs_obs ex_cons)" "cs_user ex_cons = []" "cs_waits ex_cons = []" "activeConsumers (cs_queue ex_cons) = 0"
  by (simp_all add: rng_ok_def top_rng_def ex_cons_def ex_queue_def NewKafkaLogQueue_def is_i32_def health_def)

text \<open>The consumer loop hands every message it fetched and could decode to the handler, in fetch order and each
  once, until a fetch ends with the context's end; malformed messages and other fetch errors do not stop it, the count
  of active consumers is balanced, and the health gauge is down whenever the queue is marked down.\<close>

theorem consume_delivers_in_order:
  assumes "consume h rng idx fs st = (st', ret)" "rng_ok rng" "delay_ok (cs_delay st)"
    and "is_i32 (activeConsumers (cs_queue st))" "health (cs_queue st) (cs_obs st)"
  shows "cs_user st' = fold h (decoded (takeWhile survives fs)) (cs_user st) \<and> (ret \<longleftrightarrow> \<not> list_all survives fs)
    \<and> activeConsumers (cs_queue st') = activeConsumers (cs_queue st) \<and> health (cs_queue st') (cs_obs st')"
  using consume_run[OF assms] by simp

lemma consume_delivers_in_order_witness:
  "cs_user (fst (consume (\<lambda>m ms. ms @ [m]) top_rng 1 [FetchErr (NetErr True ''dial'') None 5 False, FetchMsg 0 7 ''nonsense'',
      FetchErr ContextCanceled (Some ContextCanceled) 6 False, FetchMsg 0 8 ''{}''] ex_cons)) = []"
proof -
  let ?fs = "[FetchErr (NetErr True ''dial'') None 5 False, FetchMsg 0 7 ''nonsense'',
      FetchErr ContextCanceled (Some ContextCanceled) 6 False, FetchMsg 0 8 ''{}'']"
  have n: "unmarshal_record ''nonsense'' = None" by code_simp
  have d: "decoded (takeWhile survives ?fs) = []" using n by (simp add: err_is_def)
  have dk: "delay_ok (cs_delay ex_cons)" by (simp add: delay_ok_def backoff_defs)
  obtain st' ret where c: "consume (\<lambda>m ms. ms @ [m]) top_rng 1 ?fs ex_cons = (st', ret)" by fastforce
  have "cs_user st' = fold (\<lambda>m ms. ms @ [m]) (decoded (takeWhile survives ?fs)) (cs_user ex_cons)"
    using consume_delivers_in_order[OF c ex_kafka_facts(1) _ ex_kafka_facts(3,4)] dk by blast
  then show ?thesis unfolding d c by simp
qed

text \<open>During an outage the consumer waits, before its \<open>i\<close>-th retry in a row, the jittered minimum of
  \<open>250ms * 2 ^ i\<close> and 5 seconds.\<close>

theorem consume_backoff:
  assumes "list_all (\<lambda>f. is_err f \<and> survives f) errs" "rng_ok rng" "cs_delay st = kafkaRetryMinBackoff"
  shows "cs_waits (fst (consume h rng idx errs st)) = cs_waits st @
    map (\<lambda>i. JitterRetryDelay (min (250 * Millisecond * 2 ^ i) (5 * Second)) (Some rng)) [0..<length errs]"
proof -
  have m: "retry_delay i kafkaRetryMinBackoff kafkaRetryMaxBackoff = min (250 * Millisecond * 2 ^ i) (5 * Second)" for i
    using retry_delay_min[of kafkaRetryMinBackoff kafkaRetryMaxBackoff i] by (simp add: backoff_defs is_i64_def)
  have "cs_delay st = retry_delay 0 kafkaRetryMinBackoff kafkaRetryMaxBackoff" using assms(3) by simp
  from consume_waits[OF assms(1,2) this, of h idx] show ?thesis unfolding m by simp
qed

lemma consume_backoff_witness:
  "cs_waits (fst (consume (\<lambda>m ms. ms @ [m]) top_rng 1 (replicate 6 (FetchErr (NetErr True ''dial'') None 5 False)) ex_cons)) =
     map (\<lambda>i. JitterRetryDelay (min (250 * Millisecond * 2 ^ i) (5 * Second)) (Some top_rng)) [0..<6]"
  using consume_backoff[of "replicate 6 (FetchErr (NetErr True ''dial'') None 5 False)" top_rng ex_cons]
  by (simp add: err_is_def list_all_iff del: consume.simps upt_Suc)

text \<open>\<^verbatim>\<open>EnqueueBatch\<close> writes nothing when one record of the batch cannot be encoded; otherwise a call without error
  publishes every record at least once, for a writer that reports success only for written messages.\<close>

theorem EnqueueBatch_outcome:
  assumes "EnqueueBatch e rs q = (q', res)" "kw_ok e" "list_all utc_ok rs"
  shows "((\<exists>r \<in> set rs. marshal_record r = None) \<longrightarrow> q' = q \<and> res = Some marshal_err)
    \<and> (res = None \<longrightarrow> topic_records q + mset (map valid_record rs) \<subseteq># topic_records q')
    \<and> set_mset (topic_records q' - topic_records q) \<subseteq> valid_record ` set rs"
proof (intro conjI impI)
  assume "\<exists>r \<in> set rs. marshal_record r = None"
  then have "all_some (map marshal_record rs) = None" "rs \<noteq> []" by (auto simp: all_some_None_iff intro: rev_image_eqI)
  then show "q' = q" "res = Some marshal_err" using assms(1) by (simp_all add: EnqueueBatch_def)
next
  assume "res = None"
  then show "topic_records q + mset (map valid_record rs) \<subseteq># topic_records q'"
    using kafka.enq_ok[OF assms(2,3)] assms(1) by simp
next
  show "set_mset (topic_records q' - topic_records q) \<subseteq> valid_record ` set rs" using kafka.enq_new[OF assms(3,1)] .
qed

lemma EnqueueBatch_outcome_witness:
  "EnqueueBatch \<lparr>kw_copies = (\<lambda>i. 1), kw_err = None\<rparr>
     [\<lparr>Timestamp = \<lparr>t_sec = 400000000000, t_nsec = 0, t_off = 0\<rparr>, Path = ''/a'', UserAgent = ''x''\<rparr>] ex_queue = (ex_queue, Some marshal_err)"
proof -
  let ?e = "\<lparr>kw_copies = (\<lambda>i. 1), kw_err = None\<rparr>"
  let ?r = "\<lparr>Timestamp = \<lparr>t_sec = 400000000000, t_nsec = 0, t_off = 0\<rparr>, Path = ''/a'', UserAgent = ''x''\<rparr>"
  have "marshal_record ?r = None" by code_simp
  moreover have "kw_ok ?e" "list_all utc_ok [?r]" by (simp_all add: kw_ok_def utc_ok_def wf_time_def)
  ultimately show ?thesis
    using EnqueueBatch_outcome[of ?e "[?r]" ex_queue "fst (EnqueueBatch ?e [?r] ex_queue)" "snd (EnqueueBatch ?e [?r] ex_queue)"]
    by (simp add: prod_eq_iff)
qed

lemma dial_loop_result:
  assumes "\<forall>i. ctx i = None"
  shows "dial_loop dial ctx i bs lastErr (q, ob) =
    (if \<exists>b \<in> set bs. dial b = None then ((q\<lparr>kafkaDown := False\<rparr>, SetKafkaUp True ob), None)
     else ((q, ob), Some (wrap ''dial kafka brokers: '' (case (if bs = [] then lastErr else dial (last bs)) of
            None \<Rightarrow> ErrMsg ''no brokers to dial'' | Some e \<Rightarrow> e))))"
  using assms by (induction bs arbitrary: i lastErr) (auto split: option.splits)

text \<open>\<^verbatim>\<open>CheckConnectivity\<close> succeeds exactly when some broker accepts a connection, as long as the context lives, and
  marks Kafka up then; otherwise it reports the last dial error and changes nothing.\<close>

theorem CheckConnectivity_iff:
  assumes "\<forall>i. ctx i = None" "kq_brokers q \<noteq> []"
  shows "CheckConnectivity dial ctx (q, ob) =
    (if \<exists>b \<in> set (kq_brokers q). dial b = None then ((q\<lparr>kafkaDown := False\<rparr>, SetKafkaUp True ob), None)
     else ((q, ob), Some (wrap ''dial kafka brokers: '' (the (dial (last (kq_brokers q)))))))"
proof (cases "dial (last (kq_brokers q))")
  case None
  then have "\<exists>b \<in> set (kq_brokers q). dial b = None" using last_in_set[OF assms(2)] by blast
  then show ?thesis using assms(2) dial_loop_result[OF assms(1), of dial 0 "kq_brokers q" None q ob] by (simp add: CheckConnectivity_def)
next
  case (Some e)
  then show ?thesis using assms(2) dial_loop_result[OF assms(1), of dial 0 "kq_brokers q" None q ob] by (simp add: CheckConnectivity_def)
qed

lemma CheckConnectivity_iff_witness:
  "snd (CheckConnectivity (\<lambda>b. Some (NetErr True ''refused'')) ctx_ok (ex_queue, obs0)) =
     Some (wrap ''dial kafka brokers: '' (NetErr True ''refused''))"
  using CheckConnectivity_iff[of ctx_ok ex_queue "\<lambda>b. Some (NetErr True ''refused'')" obs0]
  by (simp add: ex_queue_def NewKafkaLogQueue_def)

end
