(* ===== verification/Producer_Async.thy ===== *)
theory Producer_Async
  imports Producer Kafka_Queue
begin

section \<open>The producer on Kafka, and its workers\<close>

text \<open>
  The producer's operations on the Kafka queue, and the machine of callers of \<^verbatim>\<open>Enqueue\<close>, the channel, the
  workers of \<^verbatim>\<open>runProducer\<close> and \<^verbatim>\<open>Close\<close>. A call of \<^verbatim>\<open>Enqueue\<close> takes two steps, its guards and its send,
  because other goroutines run in between; a worker takes one step to receive a batch, one per attempt to publish it
  (\<open>WTry\<close> with the number of the attempt) and one for the dead-letter file (\<open>WDead\<close>); \<^verbatim>\<open>Close\<close> takes three: the flag, the
  channel, the cancellation. \<open>am_accepted\<close>, \<open>am_published\<close> and \<open>am_failed\<close> are ghost variables: the batches for which
  \<^verbatim>\<open>Enqueue\<close> returned nil, and what became of the batches the workers no longer try to publish.
\<close>

lemmas kafka_EnqueueSync_publishes = log_queue.EnqueueSync_publishes[OF kafka.log_queue_axioms]

datatype caller = CIdle | CChecked "LogRecord list" | CReturned "goerr option"

datatype wjob = WTry "LogRecord list" nat | WDead "LogRecord list" goerr

record async =
  am_prod :: producer
  am_obs :: obs
  am_queue :: KafkaLogQueue
  am_fs :: fsys
  am_callers :: "nat \<Rightarrow> caller"
  am_inflight :: "wjob multiset"
  am_panic :: bool
  am_accepted :: "LogRecord list multiset"
  am_published :: "LogRecord list multiset"
  am_failed :: "LogRecord list multiset"

definition at_caller :: "nat \<Rightarrow> caller \<Rightarrow> async \<Rightarrow> async" where
  "at_caller i s S = S\<lparr>am_callers := (am_callers S)(i := s)\<rparr>"

inductive am_step :: "(rat \<Rightarrow> rat) \<Rightarrow> prod_cfg \<Rightarrow> async \<Rightarrow> async \<Rightarrow> bool" for fl c where
  am_start: "am_step fl c S (S\<lparr>am_prod := StartAsync (am_prod S)\<rparr>)"
| am_reject: "am_callers S i = CIdle \<Longrightarrow> enqueue_guards now ctxErr (am_prod S) = (Inl e, p1) \<Longrightarrow>
     am_step fl c S (at_caller i (CReturned (Some e)) (S\<lparr>am_prod := p1\<rparr>))"
| am_check: "am_callers S i = CIdle \<Longrightarrow> batch \<noteq> [] \<Longrightarrow> enqueue_guards now ctxErr (am_prod S) = (Inr (), p1) \<Longrightarrow>
     am_step fl c S (at_caller i (CChecked batch) (S\<lparr>am_prod := p1\<rparr>))"
| am_send: "am_callers S i = CChecked batch \<Longrightarrow> send_batch fl c batch (am_prod S, am_obs S) = Some ((p1, ob1), res) \<Longrightarrow>
     am_step fl c S (at_caller i (CReturned res) (S\<lparr>am_prod := p1, am_obs := ob1,
       am_accepted := (if res = None then add_mset batch (am_accepted S) else am_accepted S)\<rparr>))"
| am_send_panic: "am_callers S i = CChecked batch \<Longrightarrow> send_batch fl c batch (am_prod S, am_obs S) = None \<Longrightarrow>
     am_step fl c S (S\<lparr>am_panic := True\<rparr>)"
| am_receive: "workCh (am_prod S) = batch # rest \<Longrightarrow> started (am_prod S) \<Longrightarrow> int (size (am_inflight S)) < workers c \<Longrightarrow>
     am_step fl c S (S\<lparr>am_prod := (am_prod S)\<lparr>workCh := rest\<rparr>, am_obs := SetIngestionQueueDepth (int (length rest)) (am_obs S),
       am_inflight := add_mset (WTry batch 1) (am_inflight S)\<rparr>)"
| am_retry: "WTry batch a \<in># am_inflight S \<Longrightarrow>
     try_once EnqueueBatch c env batch w (max_attempts c) a (am_prod S, am_obs S, am_queue S) = ((p1, ob1, q1), None) \<Longrightarrow>
     am_step fl c S (S\<lparr>am_prod := p1, am_obs := ob1, am_queue := q1,
       am_inflight := add_mset (WTry batch (Suc a)) (am_inflight S - {#WTry batch a#})\<rparr>)"
| am_publish: "WTry batch a \<in># am_inflight S \<Longrightarrow>
     try_once EnqueueBatch c env batch w (max_attempts c) a (am_prod S, am_obs S, am_queue S) = ((p1, ob1, q1), Some None) \<Longrightarrow>
     am_step fl c S (S\<lparr>am_prod := p1, am_obs := SetIngestionQueueDepth (int (length (workCh p1))) ob1, am_queue := q1,
       am_inflight := am_inflight S - {#WTry batch a#}, am_published := add_mset batch (am_published S)\<rparr>)"
| am_give_up: "WTry batch a \<in># am_inflight S \<Longrightarrow>
     try_once EnqueueBatch c env batch w (max_attempts c) a (am_prod S, am_obs S, am_queue S) = ((p1, ob1, q1), Some (Some e)) \<Longrightarrow>
     am_step fl c S (S\<lparr>am_prod := p1, am_obs := ob1, am_queue := q1,
       am_inflight := add_mset (WDead batch e) (am_inflight S - {#WTry batch a#}), am_failed := add_mset batch (am_failed S)\<rparr>)"
| am_dead: "WDead batch e \<in># am_inflight S \<Longrightarrow> writeProducerDLQ c os now batch e (am_fs S, am_obs S) = (fs1, ob1) \<Longrightarrow>
     am_step fl c S (S\<lparr>am_obs := SetIngestionQueueDepth (int (length (workCh (am_prod S)))) ob1, am_fs := fs1,
       am_inflight := am_inflight S - {#WDead batch e#}\<rparr>)"
| am_close: "\<not> closed (am_prod S) \<Longrightarrow> am_step fl c S (S\<lparr>am_prod := close_flag (am_prod S)\<rparr>)"
| am_close_channel: "closed (am_prod S) \<Longrightarrow> \<not> chanClosed (am_prod S) \<Longrightarrow> close_channel (am_prod S, am_obs S) = (p1, ob1) \<Longrightarrow>
     am_step fl c S (S\<lparr>am_prod := p1, am_obs := ob1\<rparr>)"
| am_close_cancel: "chanClosed (am_prod S) \<Longrightarrow> am_step fl c S (S\<lparr>am_prod := close_cancel (am_prod S)\<rparr>)"

inductive am_reach :: "(rat \<Rightarrow> rat) \<Rightarrow> prod_cfg \<Rightarrow> async \<Rightarrow> async \<Rightarrow> bool" for fl c S0 where
  am_refl: "am_reach fl c S0 S0"
| am_next: "am_reach fl c S0 S \<Longrightarrow> am_step fl c S T \<Longrightarrow> am_reach fl c S0 T"

definition am_init :: "prod_cfg \<times> producer \<Rightarrow> KafkaLogQueue \<Rightarrow> fsys \<Rightarrow> async" where
  "am_init np q fs = \<lparr>am_prod = snd np, am_obs = obs0, am_queue = q, am_fs = fs, am_callers = (\<lambda>_. CIdle), am_inflight = {#},
     am_panic = False, am_accepted = {#}, am_published = {#}, am_failed = {#}\<rparr>"

subsection \<open>Invariant\<close>

fun trying :: "wjob \<Rightarrow> LogRecord list multiset" where
  "trying (WTry batch a) = {#batch#}"
| "trying (WDead batch e) = {#}"

fun attempt_ok :: "prod_cfg \<Rightarrow> wjob \<Rightarrow> bool" where
  "attempt_ok c (WTry batch a) = (1 \<le> a \<and> int a \<le> max_attempts c)"
| "attempt_ok c (WDead batch e) = True"

text \<open>The batches a worker is trying to publish.\<close>

definition in_workers :: "async \<Rightarrow> LogRecord list multiset" where
  "in_workers S = (\<Sum>j \<in># am_inflight S. trying j)"

definition am_inv :: "prod_cfg \<Rightarrow> async \<Rightarrow> bool" where
  "am_inv c S \<longleftrightarrow>
     am_accepted S = mset (workCh (am_prod S)) + in_workers S + am_published S + am_failed S
     \<and> int (length (workCh (am_prod S))) \<le> chanCap c
     \<and> (chanClosed (am_prod S) \<longrightarrow> closed (am_prod S))
     \<and> (\<forall>j \<in># am_inflight S. attempt_ok c j)"

lemma isCircuitOpen_frame [simp]:
  "isCircuitOpen now p = (p1, b) \<Longrightarrow> workCh p1 = workCh p \<and> closed p1 = closed p \<and> chanClosed p1 = chanClosed p \<and> started p1 = started p"
  by (auto simp: isCircuitOpen_def Let_def split: if_splits)

lemma guards_frame:
  "enqueue_guards now ctxErr p = (r, p1) \<Longrightarrow> workCh p1 = workCh p \<and> closed p1 = closed p \<and> chanClosed p1 = chanClosed p \<and> started p1 = started p"
  by (auto simp: enqueue_guards_def dest!: isCircuitOpen_frame split: if_splits prod.splits bool.splits option.splits)

lemma send_frame:
  assumes "send_batch fl c batch (p, ob) = Some ((p1, ob1), res)"
  shows "closed p1 = closed p" "chanClosed p1 = chanClosed p"
    "workCh p1 = (if res = None then workCh p @ [batch] else workCh p)"
    "int (length (workCh p)) \<le> chanCap c \<Longrightarrow> int (length (workCh p1)) \<le> chanCap c"
  using assms by (auto simp: send_batch_def Let_def split: if_splits)

lemma try_once_frame:
  assumes "try_once enq c env batch w m a (p, ob, q) = ((p', ob', q'), res)"
  shows "workCh p' = workCh p \<and> closed p' = closed p \<and> chanClosed p' = chanClosed p \<and> started p' = started p"
    "res = None \<Longrightarrow> int a \<noteq> m"
  using assms
  by (auto simp: try_once_def onEnqueueSuccess_def Let_def dest!: logEnqueueFailure_frame onEnqueueFailure_frame
      split: prod.splits option.splits if_splits)

lemma am_step_inv: "am_step fl c S T \<Longrightarrow> am_inv c S \<Longrightarrow> am_inv c T"
proof (induction rule: am_step.induct)
  case (am_start S)
  then show ?case by (simp add: am_inv_def in_workers_def StartAsync_def)
next
  case (am_reject S i now ctxErr e p1)
  then show ?case using guards_frame[OF am_reject(2)] by (simp add: am_inv_def in_workers_def at_caller_def)
next
  case (am_check S i batch now ctxErr p1)
  then show ?case using guards_frame[OF am_check(3)] by (simp add: am_inv_def in_workers_def at_caller_def)
next
  case (am_send S i batch p1 ob1 res)
  then show ?case using send_frame[OF am_send(2)] by (auto simp: am_inv_def in_workers_def at_caller_def)
next
  case (am_send_panic S i batch)
  then show ?case by (auto simp: am_inv_def in_workers_def)
next
  case (am_receive S batch rest)
  then show ?case by (auto simp: am_inv_def in_workers_def max_attempts_def Let_def)
next
  case (am_retry batch a S env w p1 ob1 q1)
  obtain A where "am_inflight S = add_mset (WTry batch a) A" using multi_member_split[OF am_retry(1)] by blast
  then show ?case using am_retry(3) try_once_frame[OF am_retry(2)] by (auto simp: am_inv_def in_workers_def)
next
  case (am_publish batch a S env w p1 ob1 q1)
  obtain A where "am_inflight S = add_mset (WTry batch a) A" using multi_member_split[OF am_publish(1)] by blast
  then show ?case using am_publish(3) try_once_frame[OF am_publish(2)] by (auto simp: am_inv_def in_workers_def)
next
  case (am_give_up batch a S env w p1 ob1 q1 e)
  obtain A where "am_inflight S = add_mset (WTry batch a) A" using multi_member_split[OF am_give_up(1)] by blast
  then show ?case using am_give_up(3) try_once_frame[OF am_give_up(2)] by (auto simp: am_inv_def in_workers_def)
next
  case (am_dead batch e S os now fs1 ob1)
  obtain A where "am_inflight S = add_mset (WDead batch e) A" using multi_member_split[OF am_dead(1)] by blast
  then show ?case using am_dead(3) by (auto simp: am_inv_def in_workers_def)
qed (auto simp: am_inv_def in_workers_def close_flag_def close_channel_def close_cancel_def)

lemma am_reach_inv: "am_reach fl c S0 S \<Longrightarrow> am_inv c S0 \<Longrightarrow> am_inv c S"
  by (induction rule: am_reach.induct) (auto intro: am_step_inv)

lemma am_init_inv: "am_inv (fst (NewProducerService cfg)) (am_init (NewProducerService cfg) q fs)"
  by (auto simp: am_inv_def in_workers_def am_init_def NewProducerService_def default_cfg_def split: option.splits)

text \<open>Runs in which no call is between its guards and its send at the moment \<^verbatim>\<open>Close\<close> sets the flag. What happens
  afterwards is not restricted: it is the guard on the flag that keeps later calls away from the channel.\<close>

definition between :: "async \<Rightarrow> bool" where
  "between S \<longleftrightarrow> (\<exists>i b. am_callers S i = CChecked b)"

inductive am_quiet :: "(rat \<Rightarrow> rat) \<Rightarrow> prod_cfg \<Rightarrow> async \<Rightarrow> async \<Rightarrow> bool" for fl c S0 where
  quiet_refl: "am_quiet fl c S0 S0"
| quiet_next: "am_quiet fl c S0 S \<Longrightarrow> am_step fl c S T \<Longrightarrow> (\<not> closed (am_prod S) \<Longrightarrow> closed (am_prod T) \<Longrightarrow> \<not> between S) \<Longrightarrow>
     am_quiet fl c S0 T"

lemma open_guards: "enqueue_guards now ctxErr p = (Inr (), p1) \<Longrightarrow> \<not> closed p"
  by (auto simp: enqueue_guards_def split: if_splits prod.splits bool.splits)

lemma quiet_step:
  assumes "am_step fl c S T" "am_inv c S" "closed (am_prod S) \<Longrightarrow> \<not> between S" "\<not> am_panic S"
    and "\<not> closed (am_prod S) \<Longrightarrow> closed (am_prod T) \<Longrightarrow> \<not> between S"
  shows "(closed (am_prod T) \<longrightarrow> \<not> between T) \<and> \<not> am_panic T"
  using assms(1)
proof cases
  case (am_start)
  then show ?thesis using assms(3,4) by (auto simp: between_def StartAsync_def)
next
  case (am_reject i now ctxErr e p1)
  then show ?thesis using assms(3,4) guards_frame[OF am_reject(3)] by (auto simp: between_def at_caller_def split: if_splits)
next
  case (am_check i batch now ctxErr p1)
  then show ?thesis using assms(4) guards_frame[OF am_check(4)] open_guards[OF am_check(4)] by (simp add: at_caller_def)
next
  case (am_send i batch p1 ob1 res)
  then show ?thesis using assms(3,4) send_frame(1)[OF am_send(3)] by (auto simp: between_def at_caller_def split: if_splits)
next
  case (am_send_panic i batch)
  then have "chanClosed (am_prod S)" by (auto simp: send_batch_def Let_def split: if_splits)
  then show ?thesis using assms(2,3) am_send_panic(2) by (auto simp: am_inv_def between_def)
next
  case (am_retry batch a env w p1 ob1 q1)
  then show ?thesis using assms(3,4) try_once_frame(1)[OF am_retry(3)] by (simp add: between_def)
next
  case (am_publish batch a env w p1 ob1 q1)
  then show ?thesis using assms(3,4) try_once_frame(1)[OF am_publish(3)] by (simp add: between_def)
next
  case (am_give_up batch a env w p1 ob1 q1 e)
  then show ?thesis using assms(3,4) try_once_frame(1)[OF am_give_up(3)] by (simp add: between_def)
qed (use assms(3-5) in \<open>auto simp: between_def close_flag_def close_channel_def close_cancel_def\<close>)

lemma quiet_inv: "am_quiet fl c S0 S \<Longrightarrow> am_inv c S0 \<Longrightarrow> (closed (am_prod S0) \<longrightarrow> \<not> between S0) \<Longrightarrow> \<not> am_panic S0 \<Longrightarrow>
    am_inv c S \<and> (closed (am_prod S) \<longrightarrow> \<not> between S) \<and> \<not> am_panic S"
proof (induction rule: am_quiet.induct)
  case (quiet_next S T)
  then show ?case using quiet_step[OF quiet_next(2)] am_step_inv[OF quiet_next(2)] by blast
qed simp

subsection \<open>Properties\<close>

text \<open>(C17) No accepted batch is lost inside the process: in every reachable state the batches for which \<^verbatim>\<open>Enqueue\<close>
  returned nil are exactly those waiting in the channel, being tried by a worker, published, or failed after the last
  attempt; and the channel never exceeds its capacity.\<close>

theorem accepted_batches_conserved:
  assumes "am_reach fl (fst (NewProducerService cfg)) (am_init (NewProducerService cfg) q fs) S"
  shows "am_accepted S = mset (workCh (am_prod S)) + in_workers S + am_published S + am_failed S
    \<and> int (length (workCh (am_prod S))) \<le> chanCap (fst (NewProducerService cfg))"
  using am_reach_inv[OF assms am_init_inv] by (simp add: am_inv_def)

definition one_batch :: "LogRecord list" where
  "one_batch = [zero_record]"

definition np :: "prod_cfg \<times> producer" where
  "np = NewProducerService None"

lemma run_accepts:
  "\<exists>S. am_reach (\<lambda>x. x) (fst np) (am_init np ex_queue \<lparr>fs_files = [], fs_dirs = []\<rparr>) S \<and> am_callers S 0 = CReturned None
     \<and> am_accepted S = {#one_batch#} \<and> started (am_prod S) \<and> workCh (am_prod S) = [one_batch] \<and> am_inflight S = {#}
     \<and> \<not> closed (am_prod S) \<and> \<not> chanClosed (am_prod S)"
proof -
  let ?S0 = "am_init np ex_queue \<lparr>fs_files = [], fs_dirs = []\<rparr>"
  let ?p = "(snd np)\<lparr>started := True\<rparr>"
  let ?S1 = "?S0\<lparr>am_prod := ?p\<rparr>"
  let ?S2 = "at_caller 0 (CChecked one_batch) (?S1\<lparr>am_prod := ?p\<rparr>)"
  have 1: "am_step (\<lambda>x. x) (fst np) ?S0 ?S1" using am_start[of "\<lambda>x. x" "fst np" ?S0] by (simp add: StartAsync_def am_init_def)
  have 2: "am_step (\<lambda>x. x) (fst np) ?S1 ?S2"
    by (rule am_check[where now = 0 and ctxErr = None])
      (simp_all add: am_init_def one_batch_def enqueue_guards_def isCircuitOpen_def np_def NewProducerService_def)
  obtain p1 ob1 where sb: "send_batch (\<lambda>x. x) (fst np) one_batch (am_prod ?S2, am_obs ?S2) = Some ((p1, ob1), None)"
      "started p1" "workCh p1 = [one_batch]" "\<not> closed p1" "\<not> chanClosed p1"
    by (simp add: send_batch_def at_caller_def am_init_def np_def NewProducerService_def default_cfg_def Let_def)
  have "am_callers ?S2 0 = CChecked one_batch" by (simp add: at_caller_def)
  note 3 = am_send[OF this sb(1)]
  show ?thesis
    by (rule exI, rule conjI[OF am_next[OF am_next[OF am_next[OF am_refl 1] 2] 3]]) (simp add: at_caller_def am_init_def sb(2-))
qed

lemma accepted_batches_conserved_witness:
  "\<exists>S :: async. am_accepted S = {#one_batch#} \<and> am_accepted S = mset (workCh (am_prod S)) + in_workers S + am_published S + am_failed S"
proof -
  obtain S where S: "am_reach (\<lambda>x. x) (fst np) (am_init np ex_queue \<lparr>fs_files = [], fs_dirs = []\<rparr>) S" "am_accepted S = {#one_batch#}"
    using run_accepts by blast
  have "am_accepted S = mset (workCh (am_prod S)) + in_workers S + am_published S + am_failed S"
    using accepted_batches_conserved[OF S(1)[unfolded np_def]] by blast
  then show ?thesis using S(2) by blast
qed

text \<open>(C20) The guard on the closed flag does not protect the send: there is a run in which a call of \<^verbatim>\<open>Enqueue\<close> that
  has passed its guards sends on the channel that \<^verbatim>\<open>Close\<close> has closed meanwhile, which panics.\<close>

theorem enqueue_close_race_panics:
  "\<exists>S. am_reach (\<lambda>x. x) (fst (NewProducerService None))
     (am_init (NewProducerService None) ex_queue \<lparr>fs_files = [], fs_dirs = []\<rparr>) S \<and> am_panic S"
proof -
  let ?c = "fst np" and ?S0 = "am_init np ex_queue \<lparr>fs_files = [], fs_dirs = []\<rparr>"
  let ?p = "(snd np)\<lparr>started := True\<rparr>"
  let ?S1 = "?S0\<lparr>am_prod := ?p\<rparr>"
  let ?S2 = "at_caller 0 (CChecked one_batch) (?S1\<lparr>am_prod := ?p\<rparr>)"
  have 1: "am_step (\<lambda>x. x) ?c ?S0 ?S1" using am_start[of "\<lambda>x. x" ?c ?S0] by (simp add: StartAsync_def am_init_def)
  have 2: "am_step (\<lambda>x. x) ?c ?S1 ?S2"
    by (rule am_check[where now = 0 and ctxErr = None])
      (simp_all add: am_init_def one_batch_def enqueue_guards_def isCircuitOpen_def np_def NewProducerService_def)
  let ?S3 = "?S2\<lparr>am_prod := close_flag (am_prod ?S2)\<rparr>"
  have open2: "\<not> closed (am_prod ?S2)" "\<not> chanClosed (am_prod ?S2)" by (simp_all add: at_caller_def np_def NewProducerService_def)
  have 3: "am_step (\<lambda>x. x) ?c ?S2 ?S3" by (rule am_close[OF open2(1)])
  obtain p1 ob1 where cl: "close_channel (am_prod ?S3, am_obs ?S3) = (p1, ob1)" by fastforce
  then have p1: "chanClosed p1" by (auto simp: close_channel_def)
  let ?S4 = "?S3\<lparr>am_prod := p1, am_obs := ob1\<rparr>"
  have 4: "am_step (\<lambda>x. x) ?c ?S3 ?S4" by (rule am_close_channel[OF _ _ cl]) (use open2(2) in \<open>simp_all add: close_flag_def\<close>)
  have 5: "am_step (\<lambda>x. x) ?c ?S4 (?S4\<lparr>am_panic := True\<rparr>)"
    by (rule am_send_panic[where i = 0 and batch = one_batch]) (simp_all add: at_caller_def send_batch_def p1)
  have "am_reach (\<lambda>x. x) ?c ?S0 (?S4\<lparr>am_panic := True\<rparr>)"
    by (rule am_next[OF am_next[OF am_next[OF am_next[OF am_next[OF am_refl 1] 2] 3] 4] 5])
  then show ?thesis unfolding np_def[symmetric] by (intro exI conjI) auto
qed

text \<open>(C19) The panic needs that race: when no call is between its guards and its send at the moment \<^verbatim>\<open>Close\<close> sets the closed
  flag, no run panics, whatever calls arrive while and after the channel is closed: the guard on the flag turns them away.\<close>

theorem no_panic_when_quiet:
  assumes "am_quiet fl (fst (NewProducerService cfg)) (am_init (NewProducerService cfg) q fs) S"
  shows "\<not> am_panic S"
  using quiet_inv[OF assms am_init_inv] by (simp add: between_def am_init_def)

lemma no_panic_when_quiet_witness:
  "\<exists>S :: async. closed (am_prod S) \<and> chanClosed (am_prod S) \<and> am_callers S 0 = CReturned (Some ErrProducerStopped) \<and> \<not> am_panic S"
proof -
  let ?S0 = "am_init np ex_queue \<lparr>fs_files = [], fs_dirs = []\<rparr>" and ?q = "am_quiet (\<lambda>x. x) (fst np)"
  define S1 where "S1 = ?S0\<lparr>am_prod := StartAsync (snd np)\<rparr>"
  define S2 where "S2 = S1\<lparr>am_prod := close_flag (am_prod S1)\<rparr>"
  obtain p3 ob3 where cl: "close_channel (am_prod S2, am_obs S2) = (p3, ob3)" by fastforce
  define S3 where "S3 = S2\<lparr>am_prod := p3, am_obs := ob3\<rparr>"
  define S4 where "S4 = at_caller 0 (CReturned (Some ErrProducerStopped)) (S3\<lparr>am_prod := p3\<rparr>)"
  note d = S1_def S2_def am_init_def StartAsync_def close_flag_def np_def NewProducerService_def between_def
  have p3: "closed p3" "chanClosed p3" "started p3" using cl by (auto simp: close_channel_def d)
  have "am_step (\<lambda>x. x) (fst np) ?S0 S1" using am_start[of "\<lambda>x. x" "fst np" ?S0] by (simp add: S1_def am_init_def)
  then have 1: "?q ?S0 S1" by (rule quiet_next[OF quiet_refl]) (simp add: d)
  have "am_step (\<lambda>x. x) (fst np) S1 S2" unfolding S2_def by (rule am_close) (simp add: d)
  then have 2: "?q ?S0 S2" by (rule quiet_next[OF 1]) (simp add: d)
  have "am_step (\<lambda>x. x) (fst np) S2 S3" unfolding S3_def by (rule am_close_channel[OF _ _ cl]) (simp_all add: d)
  then have 3: "?q ?S0 S3" by (rule quiet_next[OF 2]) (simp add: d)
  have "am_step (\<lambda>x. x) (fst np) S3 S4" unfolding S4_def
    by (rule am_reject[where now = 0 and ctxErr = None]) (simp_all add: S3_def enqueue_guards_def p3, simp add: d)
  then have 4: "?q ?S0 S4" by (rule quiet_next[OF 3]) (simp add: S3_def p3)
  have "\<not> am_panic S4" using no_panic_when_quiet[OF 4[unfolded np_def]] .
  then show ?thesis by (intro exI[of _ S4]) (simp add: S4_def S3_def at_caller_def p3)
qed

text \<open>(C21) At-least-once publishing: a call of \<^verbatim>\<open>EnqueueSync\<close> on the Kafka queue that returns nil has published every
  record of its batch, whatever attempts failed before; and no call, successful or not, loses or invents a record.\<close>

theorem EnqueueSync_at_least_once:
  assumes "EnqueueSync EnqueueBatch c now envs batch (p, ob, q) = ((p', ob', q'), res)"
    and "\<forall>r \<in> set batch. utc_ok r" "\<forall>i. kw_ok (at_env (envs i))"
  shows "topic_records q \<subseteq># topic_records q' \<and> set_mset (topic_records q' - topic_records q) \<subseteq> valid_record ` set batch
    \<and> (res = None \<longrightarrow> topic_records q + mset (map valid_record batch) \<subseteq># topic_records q')"
  using assms by (intro kafka_EnqueueSync_publishes[of c now envs batch p ob q p' ob' q' res]) (auto simp: list_all_iff)

definition ex_rec :: LogRecord where
  "ex_rec = \<lparr>Timestamp = \<lparr>t_sec = 63871286400, t_nsec = 0, t_off = 0\<rparr>, Path = ''/a'', UserAgent = ''x''\<rparr>"

definition ok_env :: "nat \<Rightarrow> kw_env att_env" where
  "ok_env i = \<lparr>at_env = \<lparr>kw_copies = (\<lambda>_. 1), kw_err = (if i = 1 then Some (NetErr True ''timeout'') else None)\<rparr>,
     at_log_now = 0, at_fail_now = 0, at_wait = (\<lambda>_. None)\<rparr>"

lemma EnqueueSync_at_least_once_witness:
  "{#ex_rec#} \<subseteq># topic_records (snd (snd (fst (EnqueueSync EnqueueBatch (fst np) 0 ok_env [ex_rec] (snd np, obs0, ex_queue)))))"
proof -
  obtain p' ob' q' res where e: "EnqueueSync EnqueueBatch (fst np) 0 ok_env [ex_rec] (snd np, obs0, ex_queue) = ((p', ob', q'), res)"
    by (metis prod.exhaust)
  obtain m where m: "marshal_record ex_rec = Some m" using marshal_record_None[of ex_rec] by (cases "marshal_record ex_rec") (auto, code_simp)
  have at: "max_attempts (fst np) = 4" by (simp add: max_attempts_def np_def NewProducerService_def default_cfg_def wrap64_def)
  have n4: "nat (max_attempts (fst np)) = Suc (Suc (Suc (Suc 0)))" by (simp add: at)
  have c0: "closed (snd np) = False" "isCircuitOpen 0 (snd np) = (snd np, False)"
    by (simp_all add: np_def NewProducerService_def isCircuitOpen_def)
  have a1: "\<exists>q1. EnqueueBatch (at_env (ok_env 1)) [ex_rec] ex_queue = (q1, Some (NetErr True ''timeout''))"
    and a2: "\<exists>q2. EnqueueBatch (at_env (ok_env (Suc 1))) [ex_rec] q1 = (q2, None)" for q1
    using m by (simp_all add: EnqueueBatch_def WriteMessages_def ok_env_def)
  have w: "at_wait (ok_env i) d = None" for i d by (simp add: ok_env_def)
  from a1 obtain q1 where q1: "EnqueueBatch (at_env (ok_env 1)) [ex_rec] ex_queue = (q1, Some (NetErr True ''timeout''))" by blast
  from a2 obtain q2 where q2: "EnqueueBatch (at_env (ok_env (Suc 1))) [ex_rec] q1 = (q2, None)" by blast
  have "res = None"
    using e q1 q2 by (auto simp: EnqueueSync_def tryEnqueueWithRetry_def n4 c0 w Let_def split: prod.splits)
  moreover have "valid_record ex_rec = ex_rec" by (simp add: valid_record_def ex_rec_def to_valid_ascii bv_def)
  moreover have "\<forall>r \<in> set [ex_rec]. utc_ok r" "\<forall>i. kw_ok (at_env (ok_env i))"
    by (simp_all add: utc_ok_def ex_rec_def wf_time_def kw_ok_def ok_env_def)
  ultimately have "topic_records ex_queue + {#ex_rec#} \<subseteq># topic_records q'"
    using EnqueueSync_at_least_once[OF e] by simp
  then show ?thesis unfolding e by (simp add: insert_subset_eq_iff)
qed

lemma try_loop_unencodable:
  assumes "r \<in> set batch" "marshal_record r = None"
  shows "try_loop EnqueueBatch c envs batch w m a n (p, ob, q) = ((p', ob', q'), res) \<Longrightarrow> q' = q \<and> res \<noteq> None"
proof (induction n arbitrary: a p ob)
  case (Suc n)
  have "all_some (map marshal_record batch) = None" "batch \<noteq> []"
    using assms by (auto simp: all_some_None_iff intro: rev_image_eqI)
  then have e: "EnqueueBatch (at_env (envs a)) batch q = (q, Some marshal_err)" by (simp add: EnqueueBatch_def)
  obtain p1 ob1 where l: "logEnqueueFailure (at_log_now (envs a)) marshal_err [F ''error'' (FErr marshal_err), F ''attempt'' (FInt (int a)),
      F ''max_attempts'' (FInt m), if w \<ge> 0 then F ''worker_id'' (FInt w) else F ''mode'' (FStr ''sync'')] (p, IncIngestErrors ob) = (p1, ob1)"
    by fastforce
  show ?case
  proof (cases "n = 0")
    case True
    then show ?thesis using Suc.prems e l by (auto simp: Let_def split: if_splits prod.splits)
  next
    case False
    show ?thesis
    proof (cases "at_wait (envs a) (wrap64 (retryBackoff c * int a))")
      case None
      then show ?thesis using False Suc.prems Suc.IH[of "Suc a" p1 ob1] e l by (simp add: Let_def)
    next
      case (Some ce)
      then have "try_loop EnqueueBatch c envs batch w m a (Suc n) (p, ob, q) = ((p1, ob1, q), Some ce)"
        using False e l by (simp add: Let_def)
      then have "((p1, ob1, q), Some ce) = ((p', ob', q'), res)" using Suc.prems by (simp only:)
      then show ?thesis by auto
    qed
  qed
qed auto

text \<open>(C22) One timestamp that JSON cannot represent loses the whole accepted batch: publishing fails on every attempt and the
  dead-letter file cannot be written either, so neither the topic nor any file holds one of its records.\<close>

theorem unencodable_batch_is_lost:
  assumes "r \<in> set batch" "marshal_record r = None"
    and "handle_batch EnqueueBatch c envs os now w batch (p, ob, q, fs) = ((p', ob', q', fs'), res)"
  shows "res \<noteq> None \<and> q' = q \<and> fs_files fs' = fs_files fs"
proof -
  obtain p2 ob2 q2 r2 where t: "tryEnqueueWithRetry EnqueueBatch c envs batch w (p, SetIngestionQueueDepth (int (length (workCh p))) ob, q) = ((p2, ob2, q2), r2)"
    by (metis prod.exhaust)
  then have q: "q2 = q" "r2 \<noteq> None" using try_loop_unencodable[OF assms(1,2)] by (auto simp: tryEnqueueWithRetry_def)
  then obtain e where e: "r2 = Some e" by blast
  have "record_indented 2 r = None" using assms(2) by (simp add: record_indented_None)
  then have md: "marshal_dlq batch reason tm = None" for reason tm
    using assms(1) by (auto simp: marshal_dlq_def all_some_None_iff intro: rev_image_eqI split: option.splits)
  have "fs_files (fst (writeProducerDLQ c os now batch e (fs, ob2))) = fs_files fs"
    by (simp add: writeProducerDLQ_def md MkdirAll_def Let_def split: option.splits)
  then show ?thesis using assms(3) t q e by (auto simp: handle_batch_def Let_def split: prod.splits)
qed

lemma unencodable_batch_is_lost_witness:
  "fs_files (snd (snd (snd (fst (handle_batch EnqueueBatch (fst np) ok_env (os_fine 0) (\<lambda>_. zero_time) 0
     [ex_rec, ex_rec\<lparr>Timestamp := \<lparr>t_sec = 400000000000, t_nsec = 0, t_off = 0\<rparr>\<rparr>] (snd np, obs0, ex_queue, \<lparr>fs_files = [], fs_dirs = []\<rparr>)))))) = []"
proof -
  let ?bad = "ex_rec\<lparr>Timestamp := \<lparr>t_sec = 400000000000, t_nsec = 0, t_off = 0\<rparr>\<rparr>"
  obtain p' ob' q' fs' res where h: "handle_batch EnqueueBatch (fst np) ok_env (os_fine 0) (\<lambda>_. zero_time) 0 [ex_rec, ?bad]
      (snd np, obs0, ex_queue, \<lparr>fs_files = [], fs_dirs = []\<rparr>) = ((p', ob', q', fs'), res)" by (metis prod.exhaust)
  have "marshal_record ?bad = None" by code_simp
  then show ?thesis unfolding h using unencodable_batch_is_lost[OF _ _ h, of ?bad] by simp
qed

end
