(* ===== verification/Consumer.thy ===== *)
theory Consumer
  imports Dlq_Files Metrics
begin

section \<open>The consumer (service/consumer.go)\<close>

text \<open>
  \<open>consumerBatchWriter\<close> collects the messages of all Kafka readers in \<open>pending\<close>, and stores a batch when it is full
  or when the ticker fires; the messages of a stored batch are committed one by one, a batch that cannot be stored is
  written to a dead-letter file. The repository is any implementation of \<^verbatim>\<open>Repository\<close>: \<open>save\<close> works on its own
  state and the file system. \<open>commits\<close> is the sequence of partition and offset pairs whose \<^verbatim>\<open>Commit\<close> succeeded.
  What the world answers while a batch is stored is a record \<open>persist_env\<close>; \<open>force\<close> only selects the context,
  so the answers of the repository and of the commits depend on it.
\<close>

record ConsumerBatchConfig =
  FlushSize :: int
  FlushInterval :: duration
  PersistTimeout :: duration
  DLQDirC :: string

record writer_cfg =
  flushSize :: int
  flushInterval :: duration
  persistTimeout :: duration
  wDlqDir :: string

definition newConsumerWriter :: "ConsumerBatchConfig \<Rightarrow> writer_cfg \<times> ConsumedMessage list" where
  "newConsumerWriter cfg =
     (\<lparr>flushSize = (if FlushSize cfg \<le> 0 then 512 else FlushSize cfg),
       flushInterval = (if FlushInterval cfg \<le> 0 then 500 * Millisecond else FlushInterval cfg),
       persistTimeout = (if PersistTimeout cfg \<le> 0 then 5 * Second else PersistTimeout cfg),
       wDlqDir = (if DLQDirC cfg = [] then ''dlq'' else DLQDirC cfg)\<rparr>, [])"

definition drainLocked :: "ConsumedMessage list \<Rightarrow> ConsumedMessage list \<times> ConsumedMessage list" where
  "drainLocked pending = (if pending = [] then ([], []) else ([], pending))"

text \<open>The critical section of \<^verbatim>\<open>Add\<close>: the new pending list and the batch to store (empty: none).\<close>

definition add_locked :: "writer_cfg \<Rightarrow> ConsumedMessage \<Rightarrow> ConsumedMessage list \<Rightarrow> ConsumedMessage list \<times> ConsumedMessage list" where
  "add_locked c msg pending =
     (let pending1 = pending @ [msg] in
      if int (length pending1) \<ge> flushSize c then drainLocked pending1 else (pending1, []))"

subsection \<open>Storing a batch\<close>

record 'e persist_env =
  pe_save :: "bool \<Rightarrow> 'e"
  pe_commit :: "bool \<Rightarrow> nat \<Rightarrow> goerr option"
  pe_os :: os_env
  pe_now :: "nat \<Rightarrow> gotime"

type_synonym ('e, 'r) save_op = "'e \<Rightarrow> LogRecord list \<Rightarrow> 'r \<times> fsys \<Rightarrow> ('r \<times> fsys) \<times> goerr option"

type_synonym commits = "(int \<times> int) list"

definition dlq_entry :: "string \<Rightarrow> ConsumedMessage \<Rightarrow> string option" where
  "dlq_entry reason msg =
     (case record_indented 2 (Record msg) of
        None \<Rightarrow> None
      | Some r \<Rightarrow> Some (json_object 1 [(''record'', r), (''partition'', show_int (Partition msg)),
                                    (''offset'', show_int (Offset msg)), (''reason'', quote reason)]))"

definition marshal_entries :: "string \<Rightarrow> ConsumedMessage list \<Rightarrow> string option" where
  "marshal_entries reason batch = map_option (json_array 0) (all_some (map (dlq_entry reason) batch))"

definition writeDLQ :: "writer_cfg \<Rightarrow> os_env \<Rightarrow> (nat \<Rightarrow> gotime) \<Rightarrow> ConsumedMessage list \<Rightarrow> goerr \<Rightarrow> fsys \<times> obs \<Rightarrow> fsys \<times> obs" where
  "writeDLQ c os now batch reason st =
     (case st of (fs, ob) \<Rightarrow>
        if wDlqDir c = [] then (fs, ob)
        else
          let path = dlq_path (wDlqDir c) ''consumer_'' now in
          (case MkdirAll os (Dir path) fs of
             (fs1, Some e) \<Rightarrow> (fs1, log_msg LWarn ''failed to create dlq directory'' [F ''error'' (FErr e)] ob)
           | (fs1, None) \<Rightarrow>
               (case marshal_entries (err_text reason) batch of
                  None \<Rightarrow> (fs1, log_msg LWarn ''failed to marshal dlq batch'' [F ''error'' (FErr marshal_err)] ob)
                | Some bytes \<Rightarrow>
                    (case WriteFile os path bytes fs1 of
                       (fs2, Some e) \<Rightarrow> (fs2, log_msg LWarn ''failed to write dlq batch''
                           [F ''error'' (FErr e), F ''path'' (FStr path)] ob)
                     | (fs2, None) \<Rightarrow> (fs2, log_msg LWarn ''wrote batch to dlq''
                           [F ''path'' (FStr path), F ''count'' (FInt (int (length batch)))] ob)))))"

text \<open>\<^verbatim>\<open>persist\<close> up to the return of \<^verbatim>\<open>SaveBatch\<close> with what it counts and logs then, and one turn of the
  loop of commits.\<close>

definition persist_save ::
  "('e, 'r) save_op \<Rightarrow> 'e persist_env \<Rightarrow> bool \<Rightarrow> ConsumedMessage list \<Rightarrow> obs \<times> 'r \<times> fsys \<Rightarrow> (obs \<times> 'r \<times> fsys) \<times> goerr option" where
  "persist_save save env force batch st =
     (case st of (ob, r, fs) \<Rightarrow>
        case save (pe_save env force) (map Record batch) (r, fs) of
          ((r1, fs1), Some e) \<Rightarrow>
            ((log_msg LError ''consumer batch write failed''
                [F ''error'' (FErr e), F ''batch_size'' (FInt (int (length batch)))] (IncIngestErrors ob), r1, fs1), Some e)
        | ((r1, fs1), None) \<Rightarrow> ((AddLogsIngested (int (length batch)) ob, r1, fs1), None))"

definition commit_one :: "goerr option \<Rightarrow> ConsumedMessage \<Rightarrow> obs \<times> commits \<Rightarrow> obs \<times> commits" where
  "commit_one answer msg st =
     (case st of (ob, cm) \<Rightarrow>
        if \<not> HasCommit msg then (ob, cm)
        else case answer of
               None \<Rightarrow> (ob, cm @ [(Partition msg, Offset msg)])
             | Some e \<Rightarrow> (log_msg LWarn ''failed to commit kafka message after persist''
                   [F ''error'' (FErr e), F ''partition'' (FInt (Partition msg)), F ''offset'' (FInt (Offset msg))] ob, cm))"

fun commit_loop :: "(nat \<Rightarrow> goerr option) \<Rightarrow> nat \<Rightarrow> ConsumedMessage list \<Rightarrow> obs \<times> commits \<Rightarrow> obs \<times> commits" where
  "commit_loop answers i [] st = st"
| "commit_loop answers i (m # ms) st = commit_loop answers (Suc i) ms (commit_one (answers i) m st)"

definition persist ::
  "('e, 'r) save_op \<Rightarrow> writer_cfg \<Rightarrow> 'e persist_env \<Rightarrow> bool \<Rightarrow> ConsumedMessage list \<Rightarrow> obs \<times> commits \<times> 'r \<times> fsys \<Rightarrow> obs \<times> commits \<times> 'r \<times> fsys" where
  "persist save c env force batch st =
     (if batch = [] then st
      else case st of (ob, cm, r, fs) \<Rightarrow>
        (case persist_save save env force batch (ob, r, fs) of
           ((ob1, r1, fs1), Some e) \<Rightarrow>
             (case writeDLQ c (pe_os env) (pe_now env) batch e (fs1, ob1) of (fs2, ob2) \<Rightarrow> (ob2, cm, r1, fs2))
         | ((ob1, r1, fs1), None) \<Rightarrow>
             (case commit_loop (pe_commit env force) 0 batch (ob1, cm) of (ob2, cm2) \<Rightarrow> (ob2, cm2, r1, fs1))))"

text \<open>\<^verbatim>\<open>Add\<close> and \<^verbatim>\<open>flush\<close> run by one goroutine alone.\<close>

definition Add ::
  "('e, 'r) save_op \<Rightarrow> writer_cfg \<Rightarrow> bool \<Rightarrow> 'e persist_env \<Rightarrow> ConsumedMessage \<Rightarrow>
   ConsumedMessage list \<times> obs \<times> commits \<times> 'r \<times> fsys \<Rightarrow> ConsumedMessage list \<times> obs \<times> commits \<times> 'r \<times> fsys" where
  "Add save c ctxDone env msg st =
     (if ctxDone then st
      else case add_locked c msg (fst st) of
             (pending, batch) \<Rightarrow> (pending, persist save c env False batch (snd st)))"

definition flush ::
  "('e, 'r) save_op \<Rightarrow> writer_cfg \<Rightarrow> 'e persist_env \<Rightarrow> bool \<Rightarrow>
   ConsumedMessage list \<times> obs \<times> commits \<times> 'r \<times> fsys \<Rightarrow> ConsumedMessage list \<times> obs \<times> commits \<times> 'r \<times> fsys" where
  "flush save c env force st =
     (case drainLocked (fst st) of (pending, batch) \<Rightarrow>
        if batch = [] then (pending, snd st) else (pending, persist save c env force batch (snd st)))"

subsection \<open>The service\<close>

datatype 'w svc_state = NotStarted | StartFailed goerr | Consuming 'w

text \<open>\<^verbatim>\<open>Start\<close> and \<^verbatim>\<open>Close\<close> of the service: \<open>startErr\<close> is the answer of \<^verbatim>\<open>StartConsumers\<close>; the second component
  of the result lists what is shut down, in order.\<close>

definition Start :: "bool \<Rightarrow> goerr option \<Rightarrow> ConsumerBatchConfig \<Rightarrow> (writer_cfg \<times> ConsumedMessage list) svc_state \<Rightarrow>
    (writer_cfg \<times> ConsumedMessage list) svc_state \<times> string list" where
  "Start hasQueue startErr cfg s =
     (case s of
        NotStarted \<Rightarrow>
          if \<not> hasQueue then (StartFailed (ErrMsg ''log queue not configured''), [])
          else (case startErr of
                  Some e \<Rightarrow> (StartFailed e, [''writer''])
                | None \<Rightarrow> (Consuming (newConsumerWriter cfg), []))
      | _ \<Rightarrow> (s, []))"

definition start_result :: "'w svc_state \<Rightarrow> goerr option" where
  "start_result s = (case s of StartFailed e \<Rightarrow> Some e | _ \<Rightarrow> None)"

definition close_service :: "bool \<Rightarrow> 'w svc_state \<times> bool \<Rightarrow> bool \<times> string list" where
  "close_service hasCloser st =
     (case st of (s, alreadyClosed) \<Rightarrow>
        if alreadyClosed then (True, [])
        else (True, (case s of Consuming _ \<Rightarrow> [''writer''] | _ \<Rightarrow> []) @ (if hasCloser then [''closer''] else [])))"

subsection \<open>Effects of the operations\<close>

lemma MkdirAll_content: "MkdirAll os d fs = (fs', r) \<Longrightarrow> fs_content fs' p = fs_content fs p"
  by (auto simp: MkdirAll_def fs_content_def fs_file_def split: option.splits)

lemma WriteFile_other: "WriteFile os q bs fs = (fs', r) \<Longrightarrow> p \<noteq> q \<longrightarrow> fs_content fs' p = fs_content fs p"
  by (auto simp: WriteFile_def fs_content_def fs_file_def fs_put_def split: option.splits if_splits)

lemma drainLocked_eq: "drainLocked p = ([], p)"
  by (simp add: drainLocked_def)

lemma add_locked_mset: "add_locked c m p = (p', b) \<Longrightarrow> mset p' + mset b = add_mset m (mset p)"
  by (auto simp: add_locked_def drainLocked_eq Let_def split: if_splits)

lemma add_locked_bound: "add_locked c m p = (p', b) \<Longrightarrow> 0 < flushSize c \<Longrightarrow> int (length p') < flushSize c"
  by (auto simp: add_locked_def drainLocked_eq Let_def split: if_splits)

lemma writeDLQ_frame:
  assumes "writeDLQ c os now batch e (fs, ob) = (fs', ob')"
  shows "is_log p \<Longrightarrow> fs_content fs' p = fs_content fs p"
    "logsIngested ob' = logsIngested ob" "batchesReceived ob' = batchesReceived ob" "ingestErrors ob' = ingestErrors ob"
proof -
  have nl: "\<not> is_log (dlq_path (wDlqDir c) ''consumer_'' now)" by (rule dlq_not_log) (simp_all add: plain_comp_def)
  show "is_log p \<Longrightarrow> fs_content fs' p = fs_content fs p"
    using assms nl by (auto simp: writeDLQ_def Let_def dest!: MkdirAll_content[where p = p] WriteFile_other[where p = p]
        split: if_splits option.splits prod.splits)
  show "logsIngested ob' = logsIngested ob" "batchesReceived ob' = batchesReceived ob" "ingestErrors ob' = ingestErrors ob"
    using assms by (auto simp: writeDLQ_def Let_def obs_simps split: if_splits option.splits prod.splits)
qed

text \<open>The messages of a batch whose commit is called and answers nil.\<close>

definition acknowledged :: "(nat \<Rightarrow> goerr option) \<Rightarrow> nat \<Rightarrow> ConsumedMessage list \<Rightarrow> ConsumedMessage list" where
  "acknowledged answers i ms = map snd (filter (\<lambda>(j, m). HasCommit m \<and> answers j = None) (List.enumerate i ms))"

lemma commit_loop_commits:
  "commit_loop answers i ms (ob, cm) = (ob', cm') \<Longrightarrow> cm' = cm @ map (\<lambda>m. (Partition m, Offset m)) (acknowledged answers i ms)"
proof (induction ms arbitrary: i ob cm)
  case (Cons m ms)
  obtain ob1 cm1 where o: "commit_one (answers i) m (ob, cm) = (ob1, cm1)" by fastforce
  then have "cm1 = (if HasCommit m \<and> answers i = None then cm @ [(Partition m, Offset m)] else cm)"
    by (auto simp: commit_one_def split: if_splits option.splits)
  then show ?case using Cons.IH[of "Suc i" ob1 cm1] Cons.prems o by (simp add: acknowledged_def)
qed (simp add: acknowledged_def)

lemma commit_loop_metrics:
  "commit_loop answers i ms (ob, cm) = (ob', cm') \<Longrightarrow> logsIngested ob' = logsIngested ob \<and> ingestErrors ob' = ingestErrors ob"
proof (induction ms arbitrary: i ob cm)
  case (Cons m ms)
  obtain ob1 cm1 where o: "commit_one (answers i) m (ob, cm) = (ob1, cm1)" by fastforce
  then have "logsIngested ob1 = logsIngested ob \<and> ingestErrors ob1 = ingestErrors ob"
    by (auto simp: commit_one_def obs_simps split: if_splits option.splits)
  then show ?case using Cons.IH[of "Suc i" ob1 cm1] Cons.prems o by simp
qed simp

end
