(* ===== verification/Consumer_Machine.thy ===== *)
theory Consumer_Machine
  imports Consumer
begin

section \<open>The consumer's goroutines\<close>

text \<open>
  The batch writer under concurrency: goroutine 0 is \<^verbatim>\<open>flushLoop\<close>, the others are the readers that call \<^verbatim>\<open>Add\<close>.
  \<open>cm_jobs\<close> holds what each busy goroutine is doing: between the poll of the context and the lock (\<open>JAdd\<close>),
  about to store a drained batch (\<open>JSave\<close>), inside \<^verbatim>\<open>SaveBatch\<close> (\<open>JStoring\<close>), writing the dead-letter file of a
  batch that failed (\<open>JDead\<close>) or committing the rest of a stored one (\<open>JCommit\<close>). A call of \<^verbatim>\<open>SaveBatch\<close> begins in one
  step and returns in another, if it ever does: nothing makes it return. Its effect is that of the return. A reader is in one
  call of \<^verbatim>\<open>Add\<close> at a time. \<open>ok\<close> restricts the environment of a save, \<open>rok\<close> the records that arrive.
  The last four fields are ghost variables: every message the writer took, and what became of it.
\<close>

datatype job =
    JAdd ConsumedMessage
  | JSave "ConsumedMessage list" bool
  | JStoring "ConsumedMessage list" bool
  | JDead "ConsumedMessage list" goerr
  | JCommit "ConsumedMessage list" bool

record 'r cstate =
  cm_pending :: "ConsumedMessage list"
  cm_ctxDone :: bool
  cm_final :: bool
  cm_obs :: obs
  cm_commits :: commits
  cm_store :: "'r \<times> fsys"
  cm_jobs :: "(nat \<times> job) multiset"
  cm_received :: "ConsumedMessage multiset"
  cm_dropped :: "ConsumedMessage multiset"
  cm_saved :: "ConsumedMessage multiset"
  cm_failed :: "ConsumedMessage multiset"

definition idle :: "nat \<Rightarrow> 'r cstate \<Rightarrow> bool" where
  "idle i S \<longleftrightarrow> (\<forall>x \<in># cm_jobs S. fst x \<noteq> i)"

definition save_job :: "nat \<Rightarrow> ConsumedMessage list \<Rightarrow> bool \<Rightarrow> (nat \<times> job) multiset" where
  "save_job i batch force = (if batch = [] then {#} else {#(i, JSave batch force)#})"

inductive cm_step :: "('e, 'r) save_op \<Rightarrow> ('e \<Rightarrow> bool) \<Rightarrow> (LogRecord \<Rightarrow> bool) \<Rightarrow> writer_cfg \<Rightarrow> 'r cstate \<Rightarrow> 'r cstate \<Rightarrow> bool"
  for save :: "('e, 'r) save_op" and ok rok c where
  cm_call: "idle i S \<Longrightarrow> 0 < i \<Longrightarrow> \<not> cm_ctxDone S \<Longrightarrow> rok (Record m) \<Longrightarrow>
     cm_step save ok rok c S (S\<lparr>cm_jobs := add_mset (i, JAdd m) (cm_jobs S), cm_received := add_mset m (cm_received S)\<rparr>)"
| cm_drop: "idle i S \<Longrightarrow> 0 < i \<Longrightarrow> cm_ctxDone S \<Longrightarrow>
     cm_step save ok rok c S (S\<lparr>cm_dropped := add_mset m (cm_dropped S)\<rparr>)"
| cm_append: "(i, JAdd m) \<in># cm_jobs S \<Longrightarrow> add_locked c m (cm_pending S) = (p, batch) \<Longrightarrow>
     cm_step save ok rok c S (S\<lparr>cm_pending := p, cm_jobs := cm_jobs S - {#(i, JAdd m)#} + save_job i batch False\<rparr>)"
| cm_tick: "idle 0 S \<Longrightarrow> \<not> cm_final S \<Longrightarrow> drainLocked (cm_pending S) = (p, batch) \<Longrightarrow>
     cm_step save ok rok c S (S\<lparr>cm_pending := p, cm_jobs := cm_jobs S + save_job 0 batch False\<rparr>)"
| cm_cancel: "cm_step save ok rok c S (S\<lparr>cm_ctxDone := True\<rparr>)"
| cm_last: "idle 0 S \<Longrightarrow> cm_ctxDone S \<Longrightarrow> \<not> cm_final S \<Longrightarrow> drainLocked (cm_pending S) = (p, batch) \<Longrightarrow>
     cm_step save ok rok c S (S\<lparr>cm_pending := p, cm_jobs := cm_jobs S + save_job 0 batch True, cm_final := True\<rparr>)"
| cm_begin: "(i, JSave batch force) \<in># cm_jobs S \<Longrightarrow>
     cm_step save ok rok c S (S\<lparr>cm_jobs := add_mset (i, JStoring batch force) (cm_jobs S - {#(i, JSave batch force)#})\<rparr>)"
| cm_save: "(i, JStoring batch force) \<in># cm_jobs S \<Longrightarrow> ok (pe_save env force) \<Longrightarrow>
     persist_save save env force batch (cm_obs S, cm_store S) = ((ob1, st1), None) \<Longrightarrow>
     cm_step save ok rok c S (S\<lparr>cm_obs := ob1, cm_store := st1, cm_saved := cm_saved S + mset batch,
       cm_jobs := add_mset (i, JCommit batch force) (cm_jobs S - {#(i, JStoring batch force)#})\<rparr>)"
| cm_fail: "(i, JStoring batch force) \<in># cm_jobs S \<Longrightarrow> ok (pe_save env force) \<Longrightarrow>
     persist_save save env force batch (cm_obs S, cm_store S) = ((ob1, st1), Some e) \<Longrightarrow>
     cm_step save ok rok c S (S\<lparr>cm_obs := ob1, cm_store := st1, cm_failed := cm_failed S + mset batch,
       cm_jobs := add_mset (i, JDead batch e) (cm_jobs S - {#(i, JStoring batch force)#})\<rparr>)"
| cm_dead: "(i, JDead batch e) \<in># cm_jobs S \<Longrightarrow> cm_store S = (r, fs) \<Longrightarrow>
     writeDLQ c os now batch e (fs, cm_obs S) = (fs1, ob1) \<Longrightarrow>
     cm_step save ok rok c S (S\<lparr>cm_obs := ob1, cm_store := (r, fs1), cm_jobs := cm_jobs S - {#(i, JDead batch e)#}\<rparr>)"
| cm_commit: "(i, JCommit (m # ms) force) \<in># cm_jobs S \<Longrightarrow> commit_one answer m (cm_obs S, cm_commits S) = (ob1, cs1) \<Longrightarrow>
     cm_step save ok rok c S (S\<lparr>cm_obs := ob1, cm_commits := cs1,
       cm_jobs := add_mset (i, JCommit ms force) (cm_jobs S - {#(i, JCommit (m # ms) force)#})\<rparr>)"
| cm_return: "(i, JCommit [] force) \<in># cm_jobs S \<Longrightarrow>
     cm_step save ok rok c S (S\<lparr>cm_jobs := cm_jobs S - {#(i, JCommit [] force)#}\<rparr>)"

inductive cm_reach :: "('e, 'r) save_op \<Rightarrow> ('e \<Rightarrow> bool) \<Rightarrow> (LogRecord \<Rightarrow> bool) \<Rightarrow> writer_cfg \<Rightarrow> 'r cstate \<Rightarrow> 'r cstate \<Rightarrow> bool"
  for save :: "('e, 'r) save_op" and ok rok c S0 where
  cm_refl: "cm_reach save ok rok c S0 S0"
| cm_next: "cm_reach save ok rok c S0 S \<Longrightarrow> cm_step save ok rok c S T \<Longrightarrow> cm_reach save ok rok c S0 T"

definition cm_init :: "writer_cfg \<times> ConsumedMessage list \<Rightarrow> 'r \<times> fsys \<Rightarrow> 'r cstate" where
  "cm_init w st = \<lparr>cm_pending = snd w, cm_ctxDone = False, cm_final = False, cm_obs = obs0, cm_commits = [], cm_store = st,
     cm_jobs = {#}, cm_received = {#}, cm_dropped = {#}, cm_saved = {#}, cm_failed = {#}\<rparr>"

subsection \<open>Every message is accounted for\<close>

fun held :: "job \<Rightarrow> ConsumedMessage multiset" where
  "held (JAdd m) = {#m#}"
| "held (JSave b f) = mset b"
| "held (JStoring b f) = mset b"
| "held (JDead b e) = {#}"
| "held (JCommit b f) = {#}"

fun job_ok :: "ConsumedMessage multiset \<Rightarrow> job \<Rightarrow> bool" where
  "job_ok saved (JAdd m) = True"
| "job_ok saved (JSave b f) = (b \<noteq> [])"
| "job_ok saved (JStoring b f) = (b \<noteq> [])"
| "job_ok saved (JDead b e) = (b \<noteq> [])"
| "job_ok saved (JCommit b f) = (set b \<subseteq> set_mset saved)"

definition in_hand :: "'r cstate \<Rightarrow> ConsumedMessage multiset" where
  "in_hand S = (\<Sum>x \<in># cm_jobs S. held (snd x))"

definition tag :: "ConsumedMessage \<Rightarrow> int \<times> int" where
  "tag m = (Partition m, Offset m)"

definition cm_inv :: "(LogRecord \<Rightarrow> bool) \<Rightarrow> writer_cfg \<Rightarrow> 'r cstate \<Rightarrow> bool" where
  "cm_inv rok c S \<longleftrightarrow>
     cm_received S = mset (cm_pending S) + in_hand S + cm_saved S + cm_failed S
     \<and> int (length (cm_pending S)) < flushSize c
     \<and> set (cm_commits S) \<subseteq> tag ` set_mset (cm_saved S)
     \<and> (\<forall>x \<in># cm_jobs S. job_ok (cm_saved S) (snd x))
     \<and> (\<forall>m \<in># cm_received S. rok (Record m))"

lemma in_hand_save_job: "(\<Sum>x \<in># save_job i b f. held (snd x)) = mset b"
  by (simp add: save_job_def)

lemma save_job_ok: "\<forall>x \<in># save_job i b f. job_ok saved (snd x)"
  by (simp add: save_job_def)

lemma job_ok_mono: "job_ok A j \<Longrightarrow> job_ok (A + B) j"
  by (cases j) auto

lemma commit_one_set: "commit_one a m (ob, cm) = (ob', cm') \<Longrightarrow> set cm' \<subseteq> insert (tag m) (set cm)"
  by (auto simp: commit_one_def tag_def split: if_splits option.splits)

lemmas cm_inv_simps = cm_inv_def in_hand_def in_hand_save_job drainLocked_eq

lemma cm_step_inv: "cm_step save ok rok c S T \<Longrightarrow> 0 < flushSize c \<Longrightarrow> cm_inv rok c S \<Longrightarrow> cm_inv rok c T"
proof (induction rule: cm_step.induct)
  case (cm_append i m S p batch)
  obtain A where A: "cm_jobs S = add_mset (i, JAdd m) A" using multi_member_split[OF cm_append(1)] by blast
  have r: "cm_received S = mset (cm_pending S) + ({#m#} + (\<Sum>x \<in># A. held (snd x))) + cm_saved S + cm_failed S"
    using cm_append(4) A by (simp add: cm_inv_simps)
  also have "\<dots> = mset p + ((\<Sum>x \<in># A. held (snd x)) + mset batch) + cm_saved S + cm_failed S"
    using add_locked_mset[OF cm_append(2)] by (simp add: ac_simps)
  finally show ?case
    using cm_append A add_locked_bound[OF cm_append(2)] save_job_ok[of i batch False "cm_saved S"]
    by (auto simp: cm_inv_simps)
next
  case (cm_tick S p batch)
  then show ?case using save_job_ok[of 0 batch False "cm_saved S"] by (auto simp: cm_inv_simps)
next
  case (cm_last S p batch)
  then show ?case using save_job_ok[of 0 batch True "cm_saved S"] by (auto simp: cm_inv_simps)
next
  case (cm_begin i batch force S)
  obtain A where "cm_jobs S = add_mset (i, JSave batch force) A" using multi_member_split[OF cm_begin(1)] by blast
  then show ?case using cm_begin by (auto simp: cm_inv_simps)
next
  case (cm_save i batch force S env ob1 st1)
  obtain A where "cm_jobs S = add_mset (i, JStoring batch force) A" using multi_member_split[OF cm_save(1)] by blast
  then show ?case using cm_save by (auto simp: cm_inv_simps intro: job_ok_mono)
next
  case (cm_fail i batch force S env ob1 st1 e)
  obtain A where "cm_jobs S = add_mset (i, JStoring batch force) A" using multi_member_split[OF cm_fail(1)] by blast
  then show ?case using cm_fail by (auto simp: cm_inv_simps)
next
  case (cm_dead i batch e S r fs os now fs1 ob1)
  obtain A where "cm_jobs S = add_mset (i, JDead batch e) A" using multi_member_split[OF cm_dead(1)] by blast
  then show ?case using cm_dead by (auto simp: cm_inv_simps)
next
  case (cm_commit i m ms force S answer ob1 cs1)
  obtain A where "cm_jobs S = add_mset (i, JCommit (m # ms) force) A" using multi_member_split[OF cm_commit(1)] by blast
  then show ?case using cm_commit commit_one_set[OF cm_commit(2)] by (auto simp: cm_inv_simps)
next
  case (cm_return i force S)
  obtain A where "cm_jobs S = add_mset (i, JCommit [] force) A" using multi_member_split[OF cm_return(1)] by blast
  then show ?case using cm_return by (auto simp: cm_inv_simps)
qed (auto simp: cm_inv_simps)

lemma cm_reach_inv: "cm_reach save ok rok c S0 S \<Longrightarrow> 0 < flushSize c \<Longrightarrow> cm_inv rok c S0 \<Longrightarrow> cm_inv rok c S"
  by (induction rule: cm_reach.induct) (auto intro: cm_step_inv)

lemma cm_init_inv: "cm_inv rok (fst (newConsumerWriter cfg)) (cm_init (newConsumerWriter cfg) st)"
  "0 < flushSize (fst (newConsumerWriter cfg))"
  by (simp_all add: cm_inv_def cm_init_def newConsumerWriter_def in_hand_def)

subsection \<open>Specification: at-least-once delivery\<close>

text \<open>
  What the consumer promises, without goroutines, locks and batches: a message is open until a group of open messages is
  made durable or given up; only a message that was made durable is ever acknowledged.
\<close>

record delivery =
  dl_open :: "ConsumedMessage multiset"
  dl_durable :: "LogRecord multiset"
  dl_stored :: "ConsumedMessage multiset"
  dl_dead :: "ConsumedMessage multiset"
  dl_acked :: "(int \<times> int) set"

definition recs :: "(LogRecord \<Rightarrow> LogRecord) \<Rightarrow> ConsumedMessage multiset \<Rightarrow> LogRecord multiset" where
  "recs canon M = image_mset (\<lambda>m. canon (Record m)) M"

inductive dl_step :: "(LogRecord \<Rightarrow> LogRecord) \<Rightarrow> delivery \<Rightarrow> delivery \<Rightarrow> bool" for canon where
  dl_skip: "dl_step canon D D"
| dl_take: "dl_step canon D (D\<lparr>dl_open := add_mset m (dl_open D)\<rparr>)"
| dl_store: "B \<subseteq># dl_open D \<Longrightarrow>
    dl_step canon D (D\<lparr>dl_open := dl_open D - B, dl_durable := dl_durable D + recs canon B, dl_stored := dl_stored D + B\<rparr>)"
| dl_give_up: "B \<subseteq># dl_open D \<Longrightarrow> part \<subseteq># recs canon B \<Longrightarrow>
    dl_step canon D (D\<lparr>dl_open := dl_open D - B, dl_durable := dl_durable D + part, dl_dead := dl_dead D + B\<rparr>)"
| dl_ack: "m \<in># dl_stored D \<Longrightarrow> dl_step canon D (D\<lparr>dl_acked := insert (tag m) (dl_acked D)\<rparr>)"

inductive dl_reach :: "(LogRecord \<Rightarrow> LogRecord) \<Rightarrow> delivery \<Rightarrow> delivery \<Rightarrow> bool" for canon D0 where
  dl_refl: "dl_reach canon D0 D0"
| dl_next: "dl_reach canon D0 D \<Longrightarrow> dl_step canon D E \<Longrightarrow> dl_reach canon D0 E"

definition cm_abs :: "('r \<times> fsys \<Rightarrow> LogRecord multiset) \<Rightarrow> 'r cstate \<Rightarrow> delivery" where
  "cm_abs stored S = \<lparr>dl_open = mset (cm_pending S) + in_hand S, dl_durable = stored (cm_store S), dl_stored = cm_saved S,
     dl_dead = cm_failed S, dl_acked = set (cm_commits S)\<rparr>"

definition dl_inv :: "(LogRecord \<Rightarrow> LogRecord) \<Rightarrow> LogRecord multiset \<Rightarrow> delivery \<Rightarrow> bool" where
  "dl_inv canon base D \<longleftrightarrow>
     dl_acked D \<subseteq> tag ` set_mset (dl_stored D)
     \<and> base + recs canon (dl_stored D) \<subseteq># dl_durable D
     \<and> dl_durable D \<subseteq># base + recs canon (dl_stored D) + recs canon (dl_dead D)"

lemma recs_add [simp]: "recs canon (A + B) = recs canon A + recs canon B" "recs canon {#} = {#}"
  by (simp_all add: recs_def)

lemma dl_step_inv: "dl_step canon D E \<Longrightarrow> dl_inv canon base D \<Longrightarrow> dl_inv canon base E"
proof (induction rule: dl_step.induct)
  case (dl_store B D)
  then show ?case
    by (auto simp: dl_inv_def subset_mset.add_right_mono add.assoc[symmetric])
next
  case (dl_give_up B D part)
  have "dl_durable D + part \<subseteq># base + recs canon (dl_stored D) + recs canon (dl_dead D) + recs canon B"
    using dl_give_up by (intro subset_mset.add_mono) (auto simp: dl_inv_def)
  then show ?case using dl_give_up by (auto simp: dl_inv_def add.assoc intro: subset_mset.trans)
qed (auto simp: dl_inv_def)

lemma dl_reach_inv: "dl_reach canon D0 D \<Longrightarrow> dl_inv canon base D0 \<Longrightarrow> dl_inv canon base D"
  by (induction rule: dl_reach.induct) (auto intro: dl_step_inv)

subsection \<open>The machine implements the specification on every repository\<close>

locale consumer_store = repository save env_ok rec_ok canon inv stored
  for save :: "('e, 'r) save_op" and env_ok rec_ok canon inv stored +
  fixes whole :: "'e \<Rightarrow> bool"
  assumes save_keeps: "env_ok e \<Longrightarrow> whole e \<Longrightarrow> inv (n + length rs) s \<Longrightarrow> list_all rec_ok rs \<Longrightarrow> save e rs s = (s', res) \<Longrightarrow> inv n s'"
    and dlq_frame: "(\<forall>p. is_log p \<longrightarrow> fs_content fs' p = fs_content fs p) \<Longrightarrow>
      stored (r, fs') = stored (r, fs) \<and> inv n (r, fs') = inv n (r, fs)"
begin

abbreviation good :: "'e \<Rightarrow> bool" where
  "good e \<equiv> env_ok e \<and> whole e"

lemma persist_save_effect:
  assumes "persist_save save env force batch (ob, st) = ((ob1, st1), res)"
    and "good (pe_save env force)" "inv (n + length batch) st" "\<forall>m \<in> set batch. rec_ok (Record m)"
  shows "inv n st1 \<and> (if res = None then stored st1 = stored st + recs canon (mset batch)
    else \<exists>part. part \<subseteq># recs canon (mset batch) \<and> stored st1 = stored st + part)"
proof -
  have s: "save (pe_save env force) (map Record batch) st = (st1, res)"
    using assms(1) by (cases st) (auto simp: persist_save_def split: prod.splits option.splits)
  have rk: "list_all rec_ok (map Record batch)" using assms(4) by (simp add: list_all_iff)
  have room: "inv (n + length (map Record batch)) st" "inv (length (map Record batch)) st"
    using assms(3) inv_less[of "length batch" n] by (simp_all add: add.commute)
  have k: "inv n st1" using save_keeps[OF _ _ room(1) rk s] assms(2) by blast
  have rc: "mset (map canon (map Record batch)) = recs canon (mset batch)" by (simp add: recs_def multiset.map_comp comp_def)
  show ?thesis
  proof (cases res)
    case None
    then show ?thesis using k save_ok[OF _ room(1) rk] assms(2) s rc by fastforce
  next
    case (Some e)
    then show ?thesis using k save_err[OF _ room(2) rk] assms(2) s rc by fastforce
  qed
qed

lemma writeDLQ_effect:
  "writeDLQ c os now batch e (fs, ob) = (fs1, ob1) \<Longrightarrow> stored (r, fs1) = stored (r, fs) \<and> inv n (r, fs1) = inv n (r, fs)"
  by (intro dlq_frame) (auto dest: writeDLQ_frame(1))

text \<open>The room left for a run that takes at most \<open>N\<close> messages: what is stored or given up needs none any more.\<close>

definition budget :: "nat \<Rightarrow> 'r cstate \<Rightarrow> nat" where
  "budget N S = N - size (cm_saved S) - size (cm_failed S)"

lemma budget_batch:
  assumes "cm_inv rec_ok c S" "(i, JStoring batch force) \<in># cm_jobs S" "size (cm_received S) \<le> N"
  shows "budget N S = N - size (cm_saved S) - size (cm_failed S) - length batch + length batch"
proof -
  obtain A where "cm_jobs S = add_mset (i, JStoring batch force) A" using multi_member_split[OF assms(2)] by blast
  then have "size (cm_saved S) + size (cm_failed S) + length batch \<le> N" using assms(1,3) by (simp add: cm_inv_def in_hand_def)
  then show ?thesis by (simp add: budget_def)
qed

lemma commit_sim:
  assumes "commit_one a m (ob, cs) = (ob1, cs1)"
  shows "set cs1 = set cs \<or> set cs1 = insert (tag m) (set cs)"
  using assms by (auto simp: commit_one_def tag_def split: if_splits option.splits)

lemma cm_step_sim:
  assumes "cm_step save good rec_ok c S T" "cm_inv rec_ok c S" "inv (budget N S) (cm_store S)" "size (cm_received T) \<le> N"
  shows "dl_step canon (cm_abs stored S) (cm_abs stored T) \<and> inv (budget N T) (cm_store T)"
  using assms(1)
proof cases
  case (cm_call i m)
  then show ?thesis using assms(3) dl_take[of canon "cm_abs stored S" m] by (simp add: cm_abs_def in_hand_def budget_def)
next
  case (cm_append i m p batch)
  obtain A where A: "cm_jobs S = add_mset (i, JAdd m) A" using multi_member_split[OF cm_append(2)] by blast
  have "cm_abs stored T = cm_abs stored S"
    using cm_append A add_locked_mset[OF cm_append(3)] by (simp add: cm_abs_def in_hand_def in_hand_save_job ac_simps)
  then show ?thesis using assms(3) cm_append(1) by (simp add: dl_skip budget_def)
next
  case (cm_begin i batch force)
  obtain A where "cm_jobs S = add_mset (i, JSave batch force) A" using multi_member_split[OF cm_begin(2)] by blast
  then show ?thesis using assms(3) cm_begin(1) dl_skip[of canon "cm_abs stored S"] by (simp add: cm_abs_def in_hand_def budget_def)
next
  case (cm_save i batch force env ob1 st1)
  obtain A where A: "cm_jobs S = add_mset (i, JStoring batch force) A" using multi_member_split[OF cm_save(2)] by blast
  then have "\<forall>m \<in> set batch. rec_ok (Record m)" using assms(2) by (auto simp: cm_inv_def in_hand_def)
  moreover have "inv (budget N T + length batch) (cm_store S)"
    using assms(3,4) budget_batch[OF assms(2) cm_save(2), of N] cm_save(1) by (simp add: budget_def ac_simps)
  ultimately have e: "inv (budget N T) st1 \<and> stored st1 = stored (cm_store S) + recs canon (mset batch)"
    using persist_save_effect[OF cm_save(4,3)] by simp
  have "mset batch \<subseteq># dl_open (cm_abs stored S)" using A by (simp add: cm_abs_def in_hand_def budget_def)
  from dl_store[OF this, of canon] show ?thesis using e A cm_save(1) by (simp add: cm_abs_def in_hand_def budget_def)
next
  case (cm_fail i batch force env ob1 st1 e)
  obtain A where A: "cm_jobs S = add_mset (i, JStoring batch force) A" using multi_member_split[OF cm_fail(2)] by blast
  then have "\<forall>m \<in> set batch. rec_ok (Record m)" using assms(2) by (auto simp: cm_inv_def in_hand_def)
  moreover have "inv (budget N T + length batch) (cm_store S)"
    using assms(3,4) budget_batch[OF assms(2) cm_fail(2), of N] cm_fail(1) by (simp add: budget_def ac_simps)
  ultimately obtain part where e: "inv (budget N T) st1" "part \<subseteq># recs canon (mset batch)" "stored st1 = stored (cm_store S) + part"
    using persist_save_effect[OF cm_fail(4,3)] by auto
  have "mset batch \<subseteq># dl_open (cm_abs stored S)" using A by (simp add: cm_abs_def in_hand_def budget_def)
  from dl_give_up[OF this e(2)] show ?thesis using e A cm_fail(1) by (simp add: cm_abs_def in_hand_def budget_def)
next
  case (cm_dead i batch e r fs os now fs1 ob1)
  obtain A where A: "cm_jobs S = add_mset (i, JDead batch e) A" using multi_member_split[OF cm_dead(2)] by blast
  have w: "stored (r, fs1) = stored (r, fs)" "inv (budget N S) (r, fs1) = inv (budget N S) (r, fs)" using writeDLQ_effect[OF cm_dead(4)] by auto
  then have "cm_abs stored T = cm_abs stored S" using A cm_dead(1,3) by (simp add: cm_abs_def in_hand_def)
  then show ?thesis using assms(3) cm_dead(1,3) w(2) dl_skip[of canon "cm_abs stored S"] by (simp add: budget_def)
next
  case (cm_commit i m ms force answer ob1 cs1)
  obtain A where A: "cm_jobs S = add_mset (i, JCommit (m # ms) force) A" using multi_member_split[OF cm_commit(2)] by blast
  then have "m \<in># dl_stored (cm_abs stored S)" using assms(2) by (simp add: cm_inv_def cm_abs_def)
  from dl_ack[OF this, of canon] commit_sim[OF cm_commit(3)] show ?thesis
    using A assms(3) dl_skip[of canon "cm_abs stored S"] cm_commit(1) by (auto simp: cm_abs_def in_hand_def budget_def)
next
  case (cm_return i force)
  obtain A where "cm_jobs S = add_mset (i, JCommit [] force) A" using multi_member_split[OF cm_return(2)] by blast
  then show ?thesis using assms(3) cm_return(1) dl_skip[of canon "cm_abs stored S"] by (simp add: cm_abs_def in_hand_def budget_def)
qed (use assms(3) dl_skip[of canon "cm_abs stored S"] in \<open>auto simp: cm_abs_def in_hand_def in_hand_save_job drainLocked_eq budget_def ac_simps\<close>)

lemma cm_reach_sim:
  assumes "cm_reach save good rec_ok c S0 S" "0 < flushSize c" "cm_inv rec_ok c S0" "inv (budget N S0) (cm_store S0)" "size (cm_received S) \<le> N"
  shows "dl_reach canon (cm_abs stored S0) (cm_abs stored S) \<and> inv (budget N S) (cm_store S)"
  using assms
proof (induction rule: cm_reach.induct)
  case (cm_next S T)
  have "cm_received S \<subseteq># cm_received T" using cm_next(2) by (cases rule: cm_step.cases) auto
  then have "size (cm_received S) \<le> N" using cm_next(7) size_mset_mono le_trans by blast
  then show ?case using cm_step_sim[OF cm_next(2) _ _ cm_next(7)] cm_next cm_reach_inv[OF cm_next(1)] by (auto intro: dl_next)
qed (auto intro: dl_refl)

lemma consumer_sim:
  assumes "cm_reach save good rec_ok (fst (newConsumerWriter cfg)) (cm_init (newConsumerWriter cfg) st) S" "inv (size (cm_received S)) st"
  shows "dl_reach canon (cm_abs stored (cm_init (newConsumerWriter cfg) st)) (cm_abs stored S)"
    "dl_inv canon (stored st) (cm_abs stored S)" "inv (budget (size (cm_received S)) S) (cm_store S)"
proof -
  let ?S0 = "cm_init (newConsumerWriter cfg) st :: 'r cstate"
  have "inv (budget (size (cm_received S)) ?S0) (cm_store ?S0)" using assms(2) by (simp add: budget_def cm_init_def)
  from cm_reach_sim[OF assms(1) cm_init_inv(2,1) this]
  show r: "dl_reach canon (cm_abs stored ?S0) (cm_abs stored S)" and "inv (budget (size (cm_received S)) S) (cm_store S)" by simp_all
  show "dl_inv canon (stored st) (cm_abs stored S)" by (rule dl_reach_inv[OF r]) (simp add: dl_inv_def cm_abs_def cm_init_def)
qed

end

end
