(* ===== verification/Consumer_Files.thy ===== *)
theory Consumer_Files
  imports Consumer_Machine
begin

section \<open>The consumer on the file repository\<close>

text \<open>
  The file repository provides what the consumer relies on, as long as no write stops in the middle of a line
  (\<open>whole_writes\<close>): a write may fail, but then it has written nothing. Under that condition the log
  files keep ending with complete lines whatever fails, and dead-letter files are no log files; so the machine of the consumer
  on \<^verbatim>\<open>FileRepo\<close> implements at-least-once delivery. Without it the promise is broken: a cut line swallows the record
  that is saved next (\<open>torn_write_damages_next\<close> in the theory of the file repository).
\<close>

definition whole_writes :: "save_env \<Rightarrow> bool" where
  "whole_writes env \<longleftrightarrow> (\<forall>p k. case write_out (se_os env) p k of None \<Rightarrow> True | Some (n, e) \<Rightarrow> n = 0)"

definition log_ends :: "fsys \<Rightarrow> bool" where
  "log_ends fs \<longleftrightarrow> (\<forall>p. is_log p \<longrightarrow> ends_line (fs_content fs p))"

lemma append_loop_clean:
  "append_loop os p k rs fs = (fs', res) \<Longrightarrow> (\<And>q i n e. write_out os q i = Some (n, e) \<Longrightarrow> n = 0) \<Longrightarrow> log_ends fs \<Longrightarrow> log_ends fs'"
proof (induction rs arbitrary: k fs)
  case (Cons r rs)
  show ?case
  proof (cases "marshal_record r")
    case None
    then show ?thesis using Cons.prems by simp
  next
    case (Some d)
    have put: "log_ends (fs_put p (fs_content fs p @ t) (clock os) fs)" if "ends_line t" for t
      using Cons.prems(3) that by (auto simp: log_ends_def intro: ends_line_append)
    show ?thesis
    proof (cases "write_out os p k")
      case None
      then have "append_loop os p (Suc k) rs (fs_put p (fs_content fs p @ d @ [newline]) (clock os) fs) = (fs', res)"
        using Cons.prems(1) Some by (simp add: WriteAppend_def)
      then show ?thesis using Cons.IH Cons.prems(2) put[of "d @ [newline]"] by (simp add: ends_line_def)
    next
      case (Some x)
      then have "fst x = 0" using Cons.prems(2)[of p k "fst x" "snd x"] by simp
      then show ?thesis
        using Cons.prems(1) \<open>marshal_record r = Some d\<close> Some put[of "[]"] by (cases x) (auto simp: WriteAppend_def)
    qed
  qed
qed simp

lemma save_groups_clean:
  "save_groups os gs (s, fs) = ((s', fs'), res) \<Longrightarrow> (\<And>q i n e. write_out os q i = Some (n, e) \<Longrightarrow> n = 0) \<Longrightarrow> log_ends fs \<Longrightarrow> log_ends fs'"
proof (induction gs arbitrary: s fs)
  case (Cons g gs)
  obtain p rs where g: "g = (p, rs)" by fastforce
  obtain fs1 r1 where m: "MkdirAll os (Dir p) fs = (fs1, r1)" by fastforce
  then have c1: "log_ends fs1" using Cons.prems(3) MkdirAll_effect[OF m] by (simp add: log_ends_def)
  obtain fs2 r2 where o: "OpenAppend os p fs1 = (fs2, r2)" by fastforce
  then have c2: "log_ends fs2" using c1
    by (auto simp: OpenAppend_def log_ends_def fs_content_def fs_file_def fs_put_def split: option.splits if_splits)
  obtain fs3 r3 where a: "append_loop os p 0 rs fs2 = (fs3, r3)" by fastforce
  have c3: "log_ends fs3" using append_loop_clean[OF a Cons.prems(2) c2] .
  show ?case
    using Cons.prems(1) g m o a c1 c2 c3 Cons.IH[OF _ Cons.prems(2), of "fst (lockFor p s)" fs3]
    by (auto simp: appendRecords_def Let_def split: option.splits)
qed simp

lemma SaveBatch_keeps_clean:
  assumes "SaveBatch env rs (s, fs) = ((s', fs'), res)" "whole_writes env" "logs_clean (s, fs)"
  shows "logs_clean (s', fs')"
proof -
  have w: "n = 0" if "write_out (se_os env) q i = Some (n, e)" for q i n e
    using assms(2)[unfolded whole_writes_def, rule_format, of q i] that by simp
  have "log_ends fs" using assms(3) by (simp add: logs_clean_iff log_ends_def)
  then have "log_ends fs'"
    using assms(1) by (auto simp: SaveBatch_def split: if_splits sum.splits intro: save_groups_clean[OF _ w])
  then show ?thesis by (simp add: logs_clean_iff log_ends_def)
qed

interpretation file_store: consumer_store SaveBatch "\<lambda>env. reorders (se_ord env)" "\<lambda>r. wf_time (Timestamp r)" readable
  "\<lambda>_. logs_clean" stored_files whole_writes
proof
  fix env rs and s s' :: "FileRepo \<times> fsys" and res
  assume "whole_writes env" "logs_clean s" "SaveBatch env rs s = (s', res)"
  then show "logs_clean s'" using SaveBatch_keeps_clean[of env rs "fst s" "snd s" "fst s'" "snd s'" res] by simp
next
  fix fs fs' and r :: FileRepo
  assume "\<forall>p. is_log p \<longrightarrow> fs_content fs' p = fs_content fs p"
  then show "stored_files (r, fs') = stored_files (r, fs) \<and> logs_clean (r, fs') = logs_clean (r, fs)"
    using stored_files_cong by blast
qed

text \<open>Environments of a save in which the map order is a permutation and no write is cut in the middle of a line.\<close>

abbreviation file_env :: "save_env \<Rightarrow> bool" where
  "file_env env \<equiv> reorders (se_ord env) \<and> whole_writes env"

abbreviation time_ok :: "LogRecord \<Rightarrow> bool" where
  "time_ok r \<equiv> wf_time (Timestamp r)"

lemmas file_consumer_sim = file_store.consumer_sim(1)
lemmas file_consumer_dl_inv = file_store.consumer_sim(2)

subsection \<open>A run\<close>

text \<open>Two readers and a batch size of two: reader 2 fills the batch with a message of partition 1 and has to store the
  message of partition 0 too; the ticker stores the next message of partition 0 meanwhile.\<close>

definition msg_at :: "int \<Rightarrow> int \<Rightarrow> string \<Rightarrow> ConsumedMessage" where
  "msg_at part off p = \<lparr>Record = \<lparr>Timestamp = \<lparr>t_sec = 63871286400, t_nsec = 0, t_off = 0\<rparr>, Path = p, UserAgent = ''x''\<rparr>,
     Partition = part, Offset = off, HasCommit = True\<rparr>"

definition ex_writer :: ConsumerBatchConfig where
  "ex_writer = \<lparr>FlushSize = 2, FlushInterval = 0, PersistTimeout = 0, DLQDirC = []\<rparr>"

definition late_env :: "save_env persist_env" where
  "late_env = \<lparr>pe_save = (\<lambda>_. ex_env\<lparr>se_ctx := (\<lambda>_. Some DeadlineExceeded)\<rparr>), pe_commit = (\<lambda>_ _. None),
     pe_os = (os_fine 7)\<lparr>mkdir_err := (\<lambda>_. Some (OsErr False ''no space left on device''))\<rparr>, pe_now = (\<lambda>_. zero_time)\<rparr>"

definition fine_env :: "save_env persist_env" where
  "fine_env = \<lparr>pe_save = (\<lambda>_. ex_env), pe_commit = (\<lambda>_ _. None), pe_os = os_fine 7, pe_now = (\<lambda>_. zero_time)\<rparr>"

abbreviation ex_cw :: "writer_cfg \<times> ConsumedMessage list" where
  "ex_cw \<equiv> newConsumerWriter ex_writer"

abbreviation ex_files :: "FileRepo \<times> fsys" where
  "ex_files \<equiv> (NewFileRepo ''logs'', ex_fs)"

definition ex_saved :: "FileRepo \<times> fsys" where
  "ex_saved = fst (SaveBatch ex_env [Record (msg_at 0 2 ''/b'')] ex_files)"

lemma ex_saved_eq: "SaveBatch ex_env [Record (msg_at 0 2 ''/b'')] ex_files = (ex_saved, None)"
  "map fst (fs_files (snd ex_saved)) = [''logs/2025-01-01/00.log.json'']"
proof -
  have "snd (SaveBatch ex_env [Record (msg_at 0 2 ''/b'')] ex_files) = None" by code_simp
  then show "SaveBatch ex_env [Record (msg_at 0 2 ''/b'')] ex_files = (ex_saved, None)" by (simp add: ex_saved_def prod_eq_iff)
  show "map fst (fs_files (snd ex_saved)) = [''logs/2025-01-01/00.log.json'']" unfolding ex_saved_def by code_simp
qed

lemma file_env_ex [simp]: "file_env ex_env" "file_env (ex_env\<lparr>se_ctx := x\<rparr>)"
  by (simp_all add: whole_writes_def ex_env_def os_fine_def)

lemma readable_msg: "readable (Record (msg_at part off ''/a'')) = Record (msg_at part off ''/a'')"
  "readable (Record (msg_at part off ''/b'')) = Record (msg_at part off ''/b'')"
  by (simp_all add: readable_def valid_record_def msg_at_def utc_record_def UTC_def to_valid_ascii bv_def)

lemma ex_saved_stored: "stored_files ex_saved = {#Record (msg_at 0 2 ''/b'')#}"
  using files.save_ok[OF _ _ _ ex_saved_eq(1)] readable_msg(2)[of 0 2] by (simp add: wf_time_def msg_at_def)

lemma overtaking_run:
  "\<exists>S. cm_reach SaveBatch file_env time_ok (fst ex_cw) (cm_init ex_cw ex_files) S
     \<and> cm_commits S = [(0, 2)] \<and> cm_saved S = {#msg_at 0 2 ''/b''#} \<and> cm_failed S = {#msg_at 0 1 ''/a'', msg_at 1 7 ''/a''#}
     \<and> cm_store S = ex_saved"
proof -
  let ?m1 = "msg_at 0 1 ''/a''" and ?mq = "msg_at 1 7 ''/a''" and ?m2 = "msg_at 0 2 ''/b''"
  let ?R = "cm_reach SaveBatch file_env time_ok (fst ex_cw) (cm_init ex_cw ex_files)"
  let ?stp = "cm_step SaveBatch file_env time_ok (fst ex_cw)"
  let ?st = "\<lambda>p js rc sv fl cms sto ob. \<lparr>cm_pending = p, cm_ctxDone = False, cm_final = False, cm_obs = ob, cm_commits = cms,
    cm_store = sto, cm_jobs = js, cm_received = rc, cm_dropped = {#}, cm_saved = sv, cm_failed = fl\<rparr>"
  have fsz: "flushSize (fst ex_cw) = 2" by (simp add: newConsumerWriter_def ex_writer_def)
  have tm: "wf_time (Timestamp (Record (msg_at a b q)))" for a b q by (simp add: msg_at_def wf_time_def)
  have m2: "HasCommit ?m2" "Partition ?m2 = 0" "Offset ?m2 = 2" by (simp_all add: msg_at_def)
  note d = idle_def add_locked_def drainLocked_eq save_job_def fsz tm Let_def
  have 0: "cm_init ex_cw ex_files = ?st [] {#} {#} {#} {#} [] ex_files obs0" by (simp add: cm_init_def newConsumerWriter_def)
  have 1: "?stp (?st [] {#} {#} {#} {#} [] ex_files obs0) (?st [] {#(1, JAdd ?m1)#} {#?m1#} {#} {#} [] ex_files obs0)"
    using cm_call[of 1 "?st [] {#} {#} {#} {#} [] ex_files obs0" time_ok ?m1] by (simp add: d)
  have 2: "?stp (?st [] {#(1, JAdd ?m1)#} {#?m1#} {#} {#} [] ex_files obs0) (?st [?m1] {#} {#?m1#} {#} {#} [] ex_files obs0)"
    using cm_append[of 1 ?m1 "?st [] {#(1, JAdd ?m1)#} {#?m1#} {#} {#} [] ex_files obs0" "fst ex_cw" "[?m1]" "[]"] by (simp add: d)
  have 3: "?stp (?st [?m1] {#} {#?m1#} {#} {#} [] ex_files obs0) (?st [?m1] {#(2, JAdd ?mq)#} {#?mq, ?m1#} {#} {#} [] ex_files obs0)"
    using cm_call[of 2 "?st [?m1] {#} {#?m1#} {#} {#} [] ex_files obs0" time_ok ?mq] by (simp add: d)
  have 4: "?stp (?st [?m1] {#(2, JAdd ?mq)#} {#?mq, ?m1#} {#} {#} [] ex_files obs0)
      (?st [] {#(2, JSave [?m1, ?mq] False)#} {#?mq, ?m1#} {#} {#} [] ex_files obs0)"
    using cm_append[of 2 ?mq "?st [?m1] {#(2, JAdd ?mq)#} {#?mq, ?m1#} {#} {#} [] ex_files obs0" "fst ex_cw" "[]" "[?m1, ?mq]"] by (simp add: d)
  let ?J = "(2, JStoring [?m1, ?mq] False)" and ?D = "(2, JDead [?m1, ?mq] DeadlineExceeded)" and ?rc = "{#?m2, ?mq, ?m1#}"
  have 41: "?stp (?st [] {#(2, JSave [?m1, ?mq] False)#} {#?mq, ?m1#} {#} {#} [] ex_files obs0) (?st [] {#?J#} {#?mq, ?m1#} {#} {#} [] ex_files obs0)"
    using cm_begin[of 2 "[?m1, ?mq]" False "?st [] {#(2, JSave [?m1, ?mq] False)#} {#?mq, ?m1#} {#} {#} [] ex_files obs0"] by simp
  have 5: "?stp (?st [] {#?J#} {#?mq, ?m1#} {#} {#} [] ex_files obs0) (?st [] {#(1, JAdd ?m2), ?J#} ?rc {#} {#} [] ex_files obs0)"
    using cm_call[of 1 "?st [] {#?J#} {#?mq, ?m1#} {#} {#} [] ex_files obs0" time_ok ?m2] by (simp add: d)
  have 6: "?stp (?st [] {#(1, JAdd ?m2), ?J#} ?rc {#} {#} [] ex_files obs0) (?st [?m2] {#?J#} ?rc {#} {#} [] ex_files obs0)"
    using cm_append[of 1 ?m2 "?st [] {#(1, JAdd ?m2), ?J#} ?rc {#} {#} [] ex_files obs0" "fst ex_cw" "[?m2]" "[]"] by (simp add: d)
  have 7: "?stp (?st [?m2] {#?J#} ?rc {#} {#} [] ex_files obs0) (?st [] {#(0, JSave [?m2] False), ?J#} ?rc {#} {#} [] ex_files obs0)"
    using cm_tick[of "?st [?m2] {#?J#} ?rc {#} {#} [] ex_files obs0" "[]" "[?m2]"] by (simp add: d)
  have 71: "?stp (?st [] {#(0, JSave [?m2] False), ?J#} ?rc {#} {#} [] ex_files obs0)
      (?st [] {#(0, JStoring [?m2] False), ?J#} ?rc {#} {#} [] ex_files obs0)"
    using cm_begin[of 0 "[?m2]" False "?st [] {#(0, JSave [?m2] False), ?J#} ?rc {#} {#} [] ex_files obs0"] by simp
  obtain ob1 where ps: "persist_save SaveBatch fine_env False [?m2] (obs0, ex_files) = ((ob1, ex_saved), None)"
    using ex_saved_eq(1) by (auto simp: persist_save_def fine_env_def)
  have 8: "?stp (?st [] {#(0, JStoring [?m2] False), ?J#} ?rc {#} {#} [] ex_files obs0)
      (?st [] {#(0, JCommit [?m2] False), ?J#} ?rc {#?m2#} {#} [] ex_saved ob1)"
    using cm_save[of 0 "[?m2]" False "?st [] {#(0, JStoring [?m2] False), ?J#} ?rc {#} {#} [] ex_files obs0" file_env fine_env
        SaveBatch ob1 ex_saved] ps file_env_ex(1) by (simp add: fine_env_def)
  have 9: "?stp (?st [] {#(0, JCommit [?m2] False), ?J#} ?rc {#?m2#} {#} [] ex_saved ob1)
      (?st [] {#(0, JCommit [] False), ?J#} ?rc {#?m2#} {#} [(0, 2)] ex_saved ob1)"
    using cm_commit[of 0 ?m2 "[]" False "?st [] {#(0, JCommit [?m2] False), ?J#} ?rc {#?m2#} {#} [] ex_saved ob1" None ob1 "[(0, 2)]"]
    by (simp add: commit_one_def m2)
  have "SaveBatch (pe_save late_env False) (map Record [?m1, ?mq]) ex_saved = (ex_saved, Some DeadlineExceeded)"
    by (simp add: SaveBatch_def late_env_def)
  then obtain ob2 where pf: "persist_save SaveBatch late_env False [?m1, ?mq] (ob1, ex_saved) = ((ob2, ex_saved), Some DeadlineExceeded)"
    by (cases ex_saved) (auto simp: persist_save_def)
  have 10: "?stp (?st [] {#(0, JCommit [] False), ?J#} ?rc {#?m2#} {#} [(0, 2)] ex_saved ob1)
      (?st [] {#?D, (0, JCommit [] False)#} ?rc {#?m2#} {#?m1, ?mq#} [(0, 2)] ex_saved ob2)"
    using cm_fail[of 2 "[?m1, ?mq]" False "?st [] {#(0, JCommit [] False), ?J#} ?rc {#?m2#} {#} [(0, 2)] ex_saved ob1" file_env late_env
        SaveBatch ob2 ex_saved DeadlineExceeded] pf file_env_ex(2) by (simp add: late_env_def)
  obtain r fs where rf: "ex_saved = (r, fs)" by fastforce
  obtain ob3 where wd: "writeDLQ (fst ex_cw) (pe_os late_env) (pe_now late_env) [?m1, ?mq] DeadlineExceeded (fs, ob2) = (fs, ob3)"
    by (auto simp: writeDLQ_def MkdirAll_def late_env_def newConsumerWriter_def ex_writer_def Let_def)
  have 11: "?stp (?st [] {#?D, (0, JCommit [] False)#} ?rc {#?m2#} {#?m1, ?mq#} [(0, 2)] ex_saved ob2)
      (?st [] {#(0, JCommit [] False)#} ?rc {#?m2#} {#?m1, ?mq#} [(0, 2)] ex_saved ob3)"
    using cm_dead[of 2 "[?m1, ?mq]" DeadlineExceeded "?st [] {#?D, (0, JCommit [] False)#} ?rc {#?m2#} {#?m1, ?mq#} [(0, 2)] ex_saved ob2"
        r fs "fst ex_cw" "pe_os late_env" "pe_now late_env" fs ob3] wd rf by simp
  have "?R (?st [] {#(0, JCommit [] False)#} ?rc {#?m2#} {#?m1, ?mq#} [(0, 2)] ex_saved ob3)"
    unfolding 0 by (rule cm_next[OF cm_next[OF cm_next[OF cm_next[OF cm_next[OF cm_next[OF cm_next[OF cm_next[OF cm_next[OF cm_next[OF
      cm_next[OF cm_next[OF cm_next[OF cm_refl 1] 2] 3] 4] 41] 5] 6] 7] 71] 8] 9] 10] 11])
  then show ?thesis by (intro exI[of _ "?st [] {#(0, JCommit [] False)#} ?rc {#?m2#} {#?m1, ?mq#} [(0, 2)] ex_saved ob3"]) simp
qed

subsection \<open>Properties\<close>

text \<open>(C3) The consumer on the file repository implements at-least-once delivery, as long as no write is cut in the middle of a
  line: every run of its goroutines, whatever the interleaving of \<^verbatim>\<open>Add\<close>, the ticker, cancellation, saves that fail (expired
  context, directory, open, encoding, a write that fails having written nothing) and failed commits, is a run of the delivery
  specification, in which a message is acknowledged only after it was made durable.\<close>

theorem consumer_refines_delivery:
  assumes "cm_reach SaveBatch file_env time_ok (fst (newConsumerWriter cfg)) (cm_init (newConsumerWriter cfg) st) S" "logs_clean st"
  shows "dl_reach readable (cm_abs stored_files (cm_init (newConsumerWriter cfg) st)) (cm_abs stored_files S)"
  using assms by (rule file_consumer_sim)

lemma consumer_refines_delivery_witness:
  "\<exists>S :: FileRepo cstate. cm_commits S = [(0, 2)] \<and> dl_reach readable (cm_abs stored_files (cm_init ex_cw ex_files)) (cm_abs stored_files S)"
proof -
  obtain S where S: "cm_reach SaveBatch file_env time_ok (fst ex_cw) (cm_init ex_cw ex_files) S" "cm_commits S = [(0, 2)]"
    using overtaking_run by blast
  then show ?thesis using consumer_refines_delivery[OF S(1)] by auto
qed

text \<open>(C8) A committed offset stands for a stored record, as long as no write is cut in the middle of a line: in every reachable
  state each committed partition and offset is that of a saved message, the log files hold what they held before and every saved
  message, and nothing but saved messages and parts of batches that failed. (After a cut write the next saved record can be
  unreadable, \<open>torn_write_damages_next\<close>.)\<close>

theorem consumer_commits_only_saved:
  assumes "cm_reach SaveBatch file_env time_ok (fst (newConsumerWriter cfg)) (cm_init (newConsumerWriter cfg) st) S" "logs_clean st"
  shows "set (cm_commits S) \<subseteq> tag ` set_mset (cm_saved S)
    \<and> stored_files st + recs readable (cm_saved S) \<subseteq># stored_files (cm_store S)
    \<and> stored_files (cm_store S) \<subseteq># stored_files st + recs readable (cm_saved S) + recs readable (cm_failed S)"
  using file_consumer_dl_inv[OF assms] by (simp add: dl_inv_def cm_abs_def)

lemma consumer_commits_only_saved_witness:
  "\<exists>S :: FileRepo cstate. cm_commits S = [(0, 2)] \<and> recs readable {#msg_at 0 2 ''/b''#} \<subseteq># stored_files (cm_store S)"
proof -
  obtain S where S: "cm_reach SaveBatch file_env time_ok (fst ex_cw) (cm_init ex_cw ex_files) S" "cm_commits S = [(0, 2)]"
      "cm_saved S = {#msg_at 0 2 ''/b''#}"
    using overtaking_run by blast
  have "recs readable (cm_saved S) \<subseteq># stored_files (cm_store S)" using consumer_commits_only_saved[OF S(1)] by simp
  then show ?thesis using S(2,3) by metis
qed

text \<open>(C15) No message the writer took disappears: in every reachable state, on any repository, the messages taken are
  those pending, in the hands of a goroutine, saved, or in a batch that failed; and fewer than the flush size are pending.\<close>

theorem consumer_conserves_messages:
  assumes "cm_reach save ok rok (fst (newConsumerWriter cfg)) (cm_init (newConsumerWriter cfg) st) S"
  shows "cm_received S = mset (cm_pending S) + in_hand S + cm_saved S + cm_failed S
    \<and> int (length (cm_pending S)) < flushSize (fst (newConsumerWriter cfg))"
  using cm_reach_inv[OF assms cm_init_inv(2) cm_init_inv(1)] by (simp add: cm_inv_def)

lemma consumer_conserves_messages_witness:
  "\<exists>S :: FileRepo cstate. cm_commits S = [(0, 2)] \<and> cm_received S = mset (cm_pending S) + in_hand S + cm_saved S + cm_failed S"
proof -
  obtain S where S: "cm_reach SaveBatch file_env time_ok (fst ex_cw) (cm_init ex_cw ex_files) S" "cm_commits S = [(0, 2)]"
    using overtaking_run by blast
  then show ?thesis using consumer_conserves_messages[OF S(1)] by blast
qed

text \<open>(C16) Commits do not wait for earlier messages: there is a run in which offset 2 of partition 0 is committed while the
  batch with offset 1 of the same partition fails and its dead-letter file cannot be written, so that record is in no
  file although Kafka counts every offset up to 2 as processed.\<close>

theorem commit_overtakes_failed_message:
  "\<exists>S. cm_reach SaveBatch file_env time_ok (fst (newConsumerWriter ex_writer)) (cm_init (newConsumerWriter ex_writer) ex_files) S
     \<and> (0, 2) \<in> set (cm_commits S) \<and> msg_at 0 1 ''/a'' \<in># cm_failed S
     \<and> readable (Record (msg_at 0 1 ''/a'')) \<notin># stored_files (cm_store S)
     \<and> list_all is_log (map fst (fs_files (snd (cm_store S))))"
proof -
  obtain S where S: "cm_reach SaveBatch file_env time_ok (fst ex_cw) (cm_init ex_cw ex_files) S" "cm_commits S = [(0, 2)]"
      "cm_failed S = {#msg_at 0 1 ''/a'', msg_at 1 7 ''/a''#}" "cm_store S = ex_saved"
    using overtaking_run by blast
  have "readable (Record (msg_at 0 1 ''/a'')) \<notin># stored_files ex_saved"
    by (simp add: ex_saved_stored readable_msg) (simp add: msg_at_def)
  moreover have "list_all is_log (map fst (fs_files (snd ex_saved)))"
    unfolding ex_saved_eq(2) by (simp add: is_log_def HasSuffix_def)
  ultimately show ?thesis using S by (intro exI[of _ S]) simp
qed

text \<open>Storing one batch: when the repository takes it, exactly the messages whose commit succeeds are committed, in
  order, and the ingested counter grows by the size of the batch; when it does not, nothing is committed, the error counter
  grows by one and the log files are as the repository left them.\<close>

theorem persist_outcome:
  assumes "persist save c env force batch (ob, cm, r, fs) = (ob', cm', r', fs')" "batch \<noteq> []"
    and "save (pe_save env force) (map Record batch) (r, fs) = ((r1, fs1), res)"
  shows "r' = r1 \<and> (\<forall>p. is_log p \<longrightarrow> fs_content fs' p = fs_content fs1 p)
    \<and> cm' = cm @ (if res = None then map tag (acknowledged (pe_commit env force) 0 batch) else [])
    \<and> logsIngested ob' = logsIngested ob + (if res = None then length batch else 0)
    \<and> ingestErrors ob' = ingestErrors ob + (if res = None then 0 else 1)"
proof (cases res)
  case None
  obtain ob2 cm2 where l: "commit_loop (pe_commit env force) 0 batch (AddLogsIngested (int (length batch)) ob, cm) = (ob2, cm2)" by fastforce
  have "ob' = ob2" "cm' = cm2" "r' = r1" "fs' = fs1" using assms None l by (auto simp: persist_def persist_save_def)
  then show ?thesis using commit_loop_commits[OF l] commit_loop_metrics[OF l] None by (simp add: tag_def[abs_def] obs_simps)
next
  case (Some e)
  obtain fs2 ob2 where d: "writeDLQ c (pe_os env) (pe_now env) batch e (fs1, log_msg LError ''consumer batch write failed''
      [F ''error'' (FErr e), F ''batch_size'' (FInt (int (length batch)))] (IncIngestErrors ob)) = (fs2, ob2)" by fastforce
  have "ob' = ob2" "cm' = cm" "r' = r1" "fs' = fs2" using assms Some d by (auto simp: persist_def persist_save_def Let_def)
  then show ?thesis using writeDLQ_frame[OF d] Some by (auto simp: obs_simps)
qed

lemma persist_outcome_witness:
  "logsIngested (fst (persist SaveBatch (fst ex_cw) fine_env False [msg_at 0 2 ''/b''] (obs0, [], NewFileRepo ''logs'', ex_fs))) = 1"
proof -
  obtain ob' cm' r' fs' where p: "persist SaveBatch (fst ex_cw) fine_env False [msg_at 0 2 ''/b''] (obs0, [], NewFileRepo ''logs'', ex_fs)
      = (ob', cm', r', fs')" by (metis prod.exhaust)
  have s: "SaveBatch (pe_save fine_env False) (map Record [msg_at 0 2 ''/b'']) (NewFileRepo ''logs'', ex_fs) =
      ((fst ex_saved, snd ex_saved), None)" using ex_saved_eq(1) by (simp add: fine_env_def)
  show ?thesis unfolding p using persist_outcome[OF p _ s] by (simp add: obs0_def)
qed

end
