(* ===== verification/Ingestion.thy ===== *)
theory Ingestion
  imports Producer_Async Consumer_Files
begin

section \<open>The ingestion service (service/ingestion.go)\<close>

text \<open>
  \<open>ProcessBatch\<close> routes a batch to the repository (direct mode) or to the producer (queue mode). The two dependencies are
  arguments, \<open>None\<close> for a nil interface: \<open>repo\<close> is \<^verbatim>\<open>SaveBatch\<close> in the environment of the call, \<open>prd\<close> the pair of
  \<^verbatim>\<open>Enqueue\<close> and \<^verbatim>\<open>EnqueueSync\<close>. An operation of the producer may panic (a send on a closed channel), which is the
  result \<open>None\<close>. \<open>producer_ops\<close> is \<open>ProducerService\<close> as such a pair.
\<close>

datatype PipelineMode = ModeDirect | ModeQueue

record IngestionService =
  mode :: PipelineMode
  syncOnIngest :: bool
  ing_closed :: bool
  lastTransientQueueLogNs :: int
  transientQueueErrEvents :: int

definition NewIngestionService :: "PipelineMode \<Rightarrow> bool \<Rightarrow> IngestionService" where
  "NewIngestionService m sync = \<lparr>mode = m, syncOnIngest = sync, ing_closed = False, lastTransientQueueLogNs = 0,
     transientQueueErrEvents = 0\<rparr>"

definition ingestionTransientLogInterval :: duration where
  "ingestionTransientLogInterval = 5 * Second"

definition isTransientQueueError :: "goerr \<Rightarrow> bool" where
  "isTransientQueueError e \<longleftrightarrow>
     err_is e ErrProducerCircuitOpen \<or> err_is e ErrQueueFull \<or> err_is e ErrProducerNotStarted
     \<or> err_is e ErrProducerStopped \<or> err_is e DeadlineExceeded \<or> err_is e ContextCanceled"

definition logQueueEnqueueError :: "int \<Rightarrow> goerr \<Rightarrow> IngestionService \<times> obs \<Rightarrow> IngestionService \<times> obs" where
  "logQueueEnqueueError now e st =
     (case st of (s, ob) \<Rightarrow>
        if \<not> isTransientQueueError e then (s, log_msg LError ''failed to enqueue logs'' [F ''error'' (FErr e)] ob)
        else
          let s1 = s\<lparr>transientQueueErrEvents := (transientQueueErrEvents s + 1) mod 2 ^ 64\<rparr>;
              last = lastTransientQueueLogNs s1 in
          if wrap64 (now - last) < ingestionTransientLogInterval then (s1, ob)
          else
            let events = (if transientQueueErrEvents s1 = 0 then 1 else transientQueueErrEvents s1) in
            (s1\<lparr>lastTransientQueueLogNs := now, transientQueueErrEvents := 0\<rparr>,
             log_msg LWarn ''failed to enqueue logs (transient, suppressed)'' [F ''error'' (FErr e), F ''events'' (FInt events)] ob))"

type_synonym 'p prod_op = "LogRecord list \<Rightarrow> obs \<times> 'p \<Rightarrow> ((obs \<times> 'p) \<times> goerr option) option"

definition ProcessBatch ::
  "(LogRecord list \<Rightarrow> 's \<Rightarrow> 's \<times> goerr option) option \<Rightarrow> ('p prod_op \<times> 'p prod_op) option \<Rightarrow> int \<Rightarrow> LogRecord list \<Rightarrow>
   IngestionService \<times> obs \<times> 's \<times> 'p \<Rightarrow> ((IngestionService \<times> obs \<times> 's \<times> 'p) \<times> goerr option) option" where
  "ProcessBatch repo prd now records st =
     (if records = [] then Some (st, None)
      else case st of (s, ob, r, p) \<Rightarrow>
        (case mode s of
           ModeQueue \<Rightarrow>
             if ing_closed s then Some (st, Some ErrIngestionStopped)
             else (case prd of
                     None \<Rightarrow> Some (st, Some ErrProducerNotConfigured)
                   | Some (enqueue, enqueueSync) \<Rightarrow>
                       (case (if syncOnIngest s then enqueueSync else enqueue) records (ob, p) of
                          None \<Rightarrow> None
                        | Some ((ob1, p1), Some e) \<Rightarrow>
                            (case logQueueEnqueueError now e (s, IncIngestErrors ob1) of (s1, ob2) \<Rightarrow> Some ((s1, ob2, r, p1), Some e))
                        | Some ((ob1, p1), None) \<Rightarrow> Some ((s, IncBatchesReceived ob1, r, p1), None)))
         | ModeDirect \<Rightarrow>
             (case repo of
                None \<Rightarrow> Some (st, Some ErrLogStoreNotConfigured)
              | Some save \<Rightarrow>
                  (case save records r of
                     (r1, Some e) \<Rightarrow> Some ((s, log_msg LError ''failed to save logs'' [F ''error'' (FErr e)] (IncIngestErrors ob), r1, p), Some e)
                   | (r1, None) \<Rightarrow> Some ((s, AddLogsIngested (int (length records)) (IncBatchesReceived ob), r1, p), None)))))"

definition close_ingestion :: "IngestionService \<Rightarrow> IngestionService" where
  "close_ingestion s = (if mode s = ModeQueue then s\<lparr>ing_closed := True\<rparr> else s)"

definition producer_ops ::
  "('e, 'q) enq_op \<Rightarrow> (rat \<Rightarrow> rat) \<Rightarrow> prod_cfg \<Rightarrow> int \<Rightarrow> goerr option \<Rightarrow> (nat \<Rightarrow> 'e att_env) \<Rightarrow> (producer \<times> 'q) prod_op \<times> (producer \<times> 'q) prod_op" where
  "producer_ops enq fl c now ctxErr envs =
     (\<lambda>batch st. case st of (ob, p, q) \<Rightarrow>
        (case Enqueue fl c now ctxErr batch (p, ob) of
           None \<Rightarrow> None
         | Some ((p1, ob1), res) \<Rightarrow> Some ((ob1, p1, q), res)),
      \<lambda>batch st. case st of (ob, p, q) \<Rightarrow>
        (case EnqueueSync enq c now envs batch (p, ob, q) of ((p1, ob1, q1), res) \<Rightarrow> Some ((ob1, p1, q1), res)))"

subsection \<open>Direct mode on any repository\<close>

context repository
begin

lemma ProcessBatch_direct:
  assumes "ProcessBatch (Some (save e)) prd now rs (s, ob, r, p) = Some ((s', ob', r', p'), res)"
    and "mode s = ModeDirect" "rs \<noteq> []" "env_ok e" "inv (n + length rs) r" "list_all rec_ok rs"
  shows "s' = s \<and> p' = p \<and> stored r \<subseteq># stored r' \<and> stored r' \<subseteq># stored r + mset (map canon rs)
    \<and> (res = None \<longrightarrow> inv n r' \<and> stored r' = stored r + mset (map canon rs))
    \<and> logsIngested ob' = logsIngested ob + (if res = None then length rs else 0)
    \<and> batchesReceived ob' = batchesReceived ob + (if res = None then 1 else 0)
    \<and> ingestErrors ob' = ingestErrors ob + (if res = None then 0 else 1)"
proof -
  obtain r1 res1 where s: "save e rs r = (r1, res1)" by fastforce
  have b: "stored r \<subseteq># stored r1 \<and> stored r1 \<subseteq># stored r + mset (map canon rs)"
    using save_bounds[OF assms(4) inv_less assms(6) s, of n] assms(5) by (simp add: add.commute)
  show ?thesis
  proof (cases res1)
    case None
    then show ?thesis using assms(1-3) s b save_ok[OF assms(4-6)] by (auto simp: ProcessBatch_def obs_simps)
  next
    case (Some err)
    then show ?thesis using assms(1-3) s b by (auto simp: ProcessBatch_def obs_simps)
  qed
qed

end

subsection \<open>Properties\<close>

text \<open>Direct mode on the file repository: a batch that is answered with nil is in the log files, all of it and nothing
  else new, and counts once as a batch and with its size as ingested logs; a batch answered with an error counts as one
  ingest error, and at most a part of it is in the log files.\<close>

theorem ProcessBatch_direct_stores:
  assumes "ProcessBatch (Some (SaveBatch env)) prd now rs (s, ob, st, p) = Some ((s', ob', st', p'), res)"
    and "mode s = ModeDirect" "rs \<noteq> []" "reorders (se_ord env)" "logs_clean st" "\<forall>r \<in> set rs. wf_time (Timestamp r)"
  shows "stored_files st \<subseteq># stored_files st' \<and> stored_files st' \<subseteq># stored_files st + mset (map readable rs)
    \<and> (res = None \<longrightarrow> stored_files st' = stored_files st + mset (map readable rs))
    \<and> logsIngested ob' = logsIngested ob + (if res = None then length rs else 0)
    \<and> batchesReceived ob' = batchesReceived ob + (if res = None then 1 else 0)
    \<and> ingestErrors ob' = ingestErrors ob + (if res = None then 0 else 1)"
proof -
  have "list_all (\<lambda>r. wf_time (Timestamp r)) rs" using assms(6) by (simp add: list_all_iff)
  note d = files.ProcessBatch_direct[OF assms(1-5) this]
  then show ?thesis by blast
qed

lemma ProcessBatch_direct_stores_witness:
  "\<exists>s' ob' st' p'. ProcessBatch (Some (SaveBatch ex_env)) (None :: (unit prod_op \<times> unit prod_op) option) 0 ex_batch
      (NewIngestionService ModeDirect False, obs0, (NewFileRepo ''logs'', ex_fs), ()) = Some ((s', ob', st', p'), None)
    \<and> stored_files st' = mset (map readable ex_batch) \<and> logsIngested ob' = 3"
proof -
  obtain st' where sv: "SaveBatch ex_env ex_batch (NewFileRepo ''logs'', ex_fs) = (st', None)"
    using ex_save by (metis prod.collapse)
  have l: "length ex_batch = 3" "ex_batch \<noteq> []" by (simp_all add: ex_batch_def)
  obtain s' ob' p' where p: "ProcessBatch (Some (SaveBatch ex_env)) (None :: (unit prod_op \<times> unit prod_op) option) 0 ex_batch
      (NewIngestionService ModeDirect False, obs0, (NewFileRepo ''logs'', ex_fs), ()) = Some ((s', ob', st', p'), None)"
    using sv l(2) by (simp add: ProcessBatch_def NewIngestionService_def)
  have "stored_files st' = mset (map readable ex_batch) \<and> logsIngested ob' = 3"
    using ProcessBatch_direct_stores[OF p] l by (simp add: NewIngestionService_def obs0_def)
  then show ?thesis using p by blast
qed

text \<open>Synchronous queue mode end to end: when \<^verbatim>\<open>ProcessBatch\<close> answers nil, every record of the batch is in the Kafka
  topic.\<close>

theorem ProcessBatch_sync_publishes:
  assumes "ProcessBatch repo (Some (producer_ops EnqueueBatch fl c now ctxErr envs)) t rs (s, ob, r, p, q) = Some ((s', ob', r', p', q'), None)"
    and "mode s = ModeQueue" "syncOnIngest s" "\<forall>x \<in> set rs. utc_ok x" "\<forall>i. kw_ok (at_env (envs i))"
  shows "topic_records q + mset (map valid_record rs) \<subseteq># topic_records q'"
proof (cases "rs = []")
  case True
  then show ?thesis using assms(1) by (simp add: ProcessBatch_def)
next
  case False
  obtain p1 ob1 q1 res where e: "EnqueueSync EnqueueBatch c now envs rs (p, ob, q) = ((p1, ob1, q1), res)" by (metis prod.exhaust)
  have ok: "\<not> ing_closed s" using assms(1,2) False by (auto simp: ProcessBatch_def)
  have "res = None \<and> q' = q1"
    using assms(1-3) False e ok by (cases res) (auto simp: ProcessBatch_def producer_ops_def split: prod.splits)
  then show ?thesis using kafka_EnqueueSync_publishes[OF e] assms(4,5) by (simp add: list_all_iff)
qed

lemma ProcessBatch_sync_publishes_witness:
  "\<exists>s' ob' p' q'. ProcessBatch None (Some (producer_ops EnqueueBatch (\<lambda>x. x) (fst np) 0 None (\<lambda>i. ok_env 2))) 0 [ex_rec]
      (NewIngestionService ModeQueue True, obs0, (), snd np, ex_queue) = Some ((s', ob', (), p', q'), None)
    \<and> {#ex_rec#} \<subseteq># topic_records q'"
proof -
  have m: "\<exists>m. marshal_record ex_rec = Some m" using marshal_record_None[of ex_rec] by (cases "marshal_record ex_rec") (auto, code_simp)
  have n4: "nat (max_attempts (fst np)) = Suc (Suc (Suc (Suc 0)))" by (simp add: max_attempts_def np_def NewProducerService_def default_cfg_def wrap64_def)
  have c0: "closed (snd np) = False" "isCircuitOpen 0 (snd np) = (snd np, False)"
    by (simp_all add: np_def NewProducerService_def isCircuitOpen_def)
  obtain p1 ob1 q1 where e: "EnqueueSync EnqueueBatch (fst np) 0 (\<lambda>i. ok_env 2) [ex_rec] (snd np, obs0, ex_queue) = ((p1, ob1, q1), None)"
    using m by (auto simp: EnqueueSync_def tryEnqueueWithRetry_def n4 c0 ok_env_def EnqueueBatch_def WriteMessages_def Let_def)
  obtain s' ob' where p: "ProcessBatch None (Some (producer_ops EnqueueBatch (\<lambda>x. x) (fst np) 0 None (\<lambda>i. ok_env 2))) 0 [ex_rec]
      (NewIngestionService ModeQueue True, obs0, (), snd np, ex_queue) = Some ((s', ob', (), p1, q1), None)"
    using e by (simp add: ProcessBatch_def NewIngestionService_def producer_ops_def)
  have "topic_records ex_queue + mset (map valid_record [ex_rec]) \<subseteq># topic_records q1"
    by (rule ProcessBatch_sync_publishes[OF p]) (simp_all add: NewIngestionService_def utc_ok_def ex_rec_def wf_time_def kw_ok_def ok_env_def)
  moreover have "valid_record ex_rec = ex_rec" by (simp add: valid_record_def ex_rec_def to_valid_ascii bv_def)
  ultimately have "{#ex_rec#} \<subseteq># topic_records q1" by (simp add: insert_subset_eq_iff)
  then show ?thesis using p by blast
qed

text \<open>After \<^verbatim>\<open>Close\<close> in queue mode every non-empty batch is refused with \<^verbatim>\<open>ErrIngestionStopped\<close> before the producer is
  touched, so nothing changes; in direct mode \<^verbatim>\<open>Close\<close> changes nothing.\<close>

theorem closed_ingestion_refuses:
  "(if mode s = ModeQueue \<and> rs \<noteq> []
    then ProcessBatch repo prd now rs (close_ingestion s, ob, r, p) = Some ((close_ingestion s, ob, r, p), Some ErrIngestionStopped)
    else if mode s = ModeQueue then ProcessBatch repo prd now rs (close_ingestion s, ob, r, p) = Some ((close_ingestion s, ob, r, p), None)
    else close_ingestion s = s)"
  by (simp add: ProcessBatch_def close_ingestion_def)

end
