(* ===== verification/Handler.thy ===== *)
theory Handler
  imports Go_Csv Ingestion
begin

section \<open>The HTTP handler (internal/http/handler.go)\<close>

text \<open>
  A request is its method, its headers (keys in canonical form, as the server stores them), the bytes of its body and how
  reading the body ends (\<open>None\<close>: EOF). \<open>MaxBytesReader\<close> cuts the body at 2 MiB and ends with \<open>MaxBytesError\<close> when there
  was more. The ingestion service is an argument: \<open>None\<close> for nil, otherwise its \<^verbatim>\<open>ProcessBatch\<close> under the context of
  the request with its timeout; it may panic, and then so does the handler (\<open>None\<close>). The handler's own state is
  the time of its last transient log line.
\<close>

record Handler =
  requestTimeout :: duration
  authEnabled :: bool
  authHeader :: string
  allowedAPIKeys :: "string list"
  lastTransientLogNs :: int

record request =
  req_method :: string
  req_headers :: "(string \<times> string list) list"
  req_body :: string
  req_end :: "goerr option"

record response =
  status :: int
  resp_headers :: "(string \<times> string) list"
  resp_body :: string

definition maxRequestBodyBytes :: int where "maxRequestBodyBytes = 2097152"
definition defaultRequestTimeout :: duration where "defaultRequestTimeout = 5 * Second"
definition transientLogInterval :: duration where "transientLogInterval = 5 * Second"
definition defaultAuthHeaderName :: string where "defaultAuthHeaderName = ''X-API-Key''"

definition NewHandler :: Handler where
  "NewHandler = \<lparr>requestTimeout = defaultRequestTimeout, authEnabled = False, authHeader = defaultAuthHeaderName,
     allowedAPIKeys = [], lastTransientLogNs = 0\<rparr>"

definition WithRequestTimeout :: "duration \<Rightarrow> Handler \<Rightarrow> Handler" where
  "WithRequestTimeout timeout h = (if timeout > 0 then h\<lparr>requestTimeout := timeout\<rparr> else h)"

subsection \<open>Package net/http\<close>

definition is_lower :: "char \<Rightarrow> bool" where "is_lower c \<longleftrightarrow> 97 \<le> bv c \<and> bv c \<le> 122"
definition is_upper :: "char \<Rightarrow> bool" where "is_upper c \<longleftrightarrow> 65 \<le> bv c \<and> bv c \<le> 90"

definition token_char :: "char \<Rightarrow> bool" where
  "token_char c \<longleftrightarrow> is_lower c \<or> is_upper c \<or> is_digit c \<or> c = CHR 0x27 \<or> c = CHR 0x60 \<or> c \<in> set ''!#$%&*+-.^_|~''"

fun canonical :: "bool \<Rightarrow> string \<Rightarrow> string" where
  "canonical upper [] = []"
| "canonical upper (c # s) =
     (let d = (if upper \<and> is_lower c then bc (bv c - 32) else if \<not> upper \<and> is_upper c then bc (bv c + 32) else c)
      in d # canonical (d = CHR ''-'') s)"

definition CanonicalHeaderKey :: "string \<Rightarrow> string" where
  "CanonicalHeaderKey s = (if list_all token_char s then canonical True s else s)"

definition header_get :: "string \<Rightarrow> request \<Rightarrow> string" where
  "header_get name r = (case alookup (req_headers r) (CanonicalHeaderKey name) of Some (v # _) \<Rightarrow> v | _ \<Rightarrow> [])"

definition http_error :: "(string \<times> string) list \<Rightarrow> string \<Rightarrow> int \<Rightarrow> response" where
  "http_error hs msg code =
     \<lparr>status = code, resp_headers = hs @ [(''Content-Type'', ''text/plain; charset=utf-8''), (''X-Content-Type-Options'', ''nosniff'')],
      resp_body = msg @ [newline]\<rparr>"

definition MaxBytesReader :: "request \<Rightarrow> string \<times> goerr option" where
  "MaxBytesReader r =
     (if int (length (req_body r)) > maxRequestBodyBytes then (take (nat maxRequestBodyBytes) (req_body r), Some MaxBytesError)
      else (req_body r, req_end r))"

subsection \<open>Authentication\<close>

definition WithAPIKeyAuth :: "bool \<Rightarrow> string \<Rightarrow> string list \<Rightarrow> Handler \<Rightarrow> Handler" where
  "WithAPIKeyAuth enabled header keys h =
     (let header1 = TrimSpace header;
          name = (if header1 \<noteq> [] then CanonicalHeaderKey header1
                  else if TrimSpace (authHeader h) = [] then defaultAuthHeaderName else authHeader h)
      in h\<lparr>authEnabled := enabled, authHeader := name, allowedAPIKeys := filter (\<lambda>k. k \<noteq> []) (map TrimSpace keys)\<rparr>)"

definition authorizeLogsRequest :: "Handler \<Rightarrow> request \<Rightarrow> bool" where
  "authorizeLogsRequest h r =
     (if \<not> authEnabled h then True
      else let headerName = (if TrimSpace (authHeader h) = [] then defaultAuthHeaderName else TrimSpace (authHeader h));
               key = TrimSpace (header_get headerName r)
           in if key = [] then False else key \<in> set (allowedAPIKeys h))"

subsection \<open>Decoding\<close>

fun validate_loop :: "nat \<Rightarrow> LogRecord list \<Rightarrow> LogRecord list result" where
  "validate_loop i [] = Inr []"
| "validate_loop i (r # rs) =
     (if IsZero (Timestamp r) then Inl (ErrMsg (''record '' @ show_int (int i) @ '' missing timestamp''))
      else if TrimSpace (Path r) = [] then Inl (ErrMsg (''record '' @ show_int (int i) @ '' missing path''))
      else if TrimSpace (UserAgent r) = [] then Inl (ErrMsg (''record '' @ show_int (int i) @ '' missing userAgent''))
      else case validate_loop (Suc i) rs of
             Inl e \<Rightarrow> Inl e
           | Inr rs' \<Rightarrow> Inr (\<lparr>Timestamp = UTC (Timestamp r), Path = TrimSpace (Path r), UserAgent = TrimSpace (UserAgent r)\<rparr> # rs'))"

definition validate :: "LogRecord list \<Rightarrow> LogRecord list result" where
  "validate rs = (if rs = [] then Inl (ErrMsg ''no log records provided'') else validate_loop 0 rs)"

fun is_num :: "json \<Rightarrow> bool" where
  "is_num (JNum _) = True"
| "is_num _ = False"

text \<open>The first \<^verbatim>\<open>Decode\<close> reports the error of the reader only when the value is not complete in the bytes before it (a number
  at the end is not: the next byte could continue it); the second one has to find EOF.\<close>

definition decodeJSON :: "string \<times> goerr option \<Rightarrow> LogRecord list result" where
  "decodeJSON body =
     (case body of (s, e) \<Rightarrow>
        let bad = Inl (wrap ''invalid JSON payload: '' (JsonErr s));
            ended = (case e of None \<Rightarrow> bad | Some err \<Rightarrow> Inl (wrap ''invalid JSON payload: '' err)) in
        case parse_json s of
          POk v rest \<Rightarrow>
            if is_num v \<and> rest = [] \<and> e \<noteq> None then ended
            else (case decode_records v of
                    None \<Rightarrow> bad
                  | Some rs \<Rightarrow> if skip_ws rest \<noteq> [] \<or> e \<noteq> None
                               then Inl (ErrMsg ''invalid JSON payload: unexpected trailing data'')
                               else validate rs)
        | PMore \<Rightarrow> ended
        | _ \<Rightarrow> bad)"

fun csv_rows :: "nat \<Rightarrow> string list list \<Rightarrow> LogRecord list result" where
  "csv_rows i [] = Inr []"
| "csv_rows i (row # rows) =
     (case row of
        c0 # c1 # c2 # _ \<Rightarrow>
          (case parse_rfc3339 (TrimSpace c0) of
             None \<Rightarrow> Inl (wrap (''row '' @ show_int (int i + 1) @ '' has invalid timestamp: '') (TimeErr (TrimSpace c0)))
           | Some ts \<Rightarrow>
               (case csv_rows (Suc i) rows of
                  Inl e \<Rightarrow> Inl e
                | Inr rs \<Rightarrow> Inr (\<lparr>Timestamp = ts, Path = TrimSpace c1, UserAgent = TrimSpace c2\<rparr> # rs)))
      | _ \<Rightarrow> Inl (ErrMsg (''row '' @ show_int (int i + 1) @ '' missing required columns'')))"

definition is_header :: "string list \<Rightarrow> bool" where
  "is_header row \<longleftrightarrow> length row \<ge> 3 \<and> EqualFold (hd row) ''timestamp''"

definition decodeCSV :: "string \<times> goerr option \<Rightarrow> LogRecord list result" where
  "decodeCSV body =
     (case ReadAll (snd body) (fst body) of
        Inl e \<Rightarrow> Inl (wrap ''invalid CSV payload: '' e)
      | Inr [] \<Rightarrow> Inl (ErrMsg ''empty CSV payload'')
      | Inr (row # rows) \<Rightarrow>
          (case (if is_header row then csv_rows 1 rows else csv_rows 0 (row # rows)) of
             Inl e \<Rightarrow> Inl e
           | Inr rs \<Rightarrow> validate rs))"

definition decodeRecords :: "request \<Rightarrow> LogRecord list result" where
  "decodeRecords r =
     (let contentType = header_get ''Content-Type'' r in
      if Contains contentType ''application/json'' then decodeJSON (MaxBytesReader r)
      else if Contains contentType ''text/csv'' then decodeCSV (MaxBytesReader r)
      else Inl (ErrWrap [] ErrUnsupportedContentType ('': '' @ contentType)))"

subsection \<open>The /logs endpoint\<close>

definition logTransientProcessError :: "int \<Rightarrow> goerr \<Rightarrow> Handler \<times> obs \<Rightarrow> Handler \<times> obs" where
  "logTransientProcessError now e st =
     (case st of (h, ob) \<Rightarrow>
        if wrap64 (now - lastTransientLogNs h) < transientLogInterval then (h, ob)
        else (h\<lparr>lastTransientLogNs := now\<rparr>, log_msg LWarn ''transient /logs processing issue'' [F ''error'' (FErr e)] ob))"

definition is_unavailable :: "goerr \<Rightarrow> bool" where
  "is_unavailable e \<longleftrightarrow>
     err_is e ErrProducerNotStarted \<or> err_is e ErrProducerStopped \<or> err_is e ErrProducerCircuitOpen
     \<or> err_is e ErrIngestionStopped \<or> err_is e ErrProducerNotConfigured \<or> err_is e ErrLogStoreNotConfigured
     \<or> err_is e DeadlineExceeded \<or> err_is e ContextCanceled"

definition decode_response :: "goerr \<Rightarrow> response" where
  "decode_response e =
     (if err_is e ErrUnsupportedContentType then http_error [] (err_text e) 415
      else if err_is e MaxBytesError then http_error [] ''request body too large'' 413
      else http_error [] (err_text e) 400)"

definition process_response :: "goerr \<Rightarrow> response \<times> bool" where
  "process_response e =
     (if err_is e ErrQueueFull then (http_error [(''Retry-After'', ''1'')] ''queue full'' 429, True)
      else if is_unavailable e then (http_error [(''Retry-After'', ''1'')] ''service unavailable'' 503, True)
      else (http_error [] ''failed to process logs'' 500, False))"

type_synonym 'w process_op = "duration \<Rightarrow> LogRecord list \<Rightarrow> obs \<times> 'w \<Rightarrow> ((obs \<times> 'w) \<times> goerr option) option"

definition handleLogs ::
  "'w process_op option \<Rightarrow> int \<Rightarrow> request \<Rightarrow> Handler \<times> obs \<times> 'w \<Rightarrow> ((Handler \<times> obs \<times> 'w) \<times> response) option" where
  "handleLogs ingestion now r st =
     (case st of (h, ob, w) \<Rightarrow>
        if req_method r \<noteq> ''POST'' then Some (st, http_error [(''Allow'', ''POST'')] ''method not allowed'' 405)
        else if \<not> authorizeLogsRequest h r then Some (st, http_error [] ''unauthorized'' 401)
        else case ingestion of
          None \<Rightarrow> Some (st, http_error [(''Retry-After'', ''1'')] ''service unavailable'' 503)
        | Some process \<Rightarrow>
            (case decodeRecords r of
               Inl e \<Rightarrow> Some ((h, IncInvalidRequests ob, w), decode_response e)
             | Inr records \<Rightarrow>
                 (case process (requestTimeout h) records (ob, w) of
                    None \<Rightarrow> None
                  | Some ((ob1, w1), Some e) \<Rightarrow>
                      (case process_response e of (resp, transient) \<Rightarrow>
                       case (if transient then logTransientProcessError now e (h, ob1)
                             else (h, log_msg LError ''failed to process logs'' [F ''error'' (FErr e)] ob1)) of
                         (h1, ob2) \<Rightarrow> Some ((h1, ob2, w1), resp))
                  | Some ((ob1, w1), None) \<Rightarrow> Some ((h, ob1, w1), \<lparr>status = 202, resp_headers = [], resp_body = []\<rparr>))))"

subsection \<open>What a decoded request holds\<close>

text \<open>The form of every record that leaves the handler.\<close>

definition normalized :: "LogRecord \<Rightarrow> bool" where
  "normalized r \<longleftrightarrow> t_off (Timestamp r) = 0 \<and> wf_time (Timestamp r) \<and> \<not> IsZero (Timestamp r)
     \<and> Path r \<noteq> [] \<and> TrimSpace (Path r) = Path r \<and> UserAgent r \<noteq> [] \<and> TrimSpace (UserAgent r) = UserAgent r"

lemma get_frac_bound: "fst (get_frac s) < 1000000000"
proof -
  have "read_nat 0 (take 9 ds) * 10 ^ (9 - length (take 9 ds)) < 1000000000" if "\<forall>c \<in> set ds. is_digit c" for ds
  proof -
    have "read_nat 0 (take 9 ds) < 10 ^ length (take 9 ds)" using read_nat_bound[of "take 9 ds" 0] that by (auto dest: in_set_takeD)
    then have "read_nat 0 (take 9 ds) * 10 ^ (9 - length (take 9 ds)) < 10 ^ length (take 9 ds) * 10 ^ (9 - length (take 9 ds))" by simp
    also have "\<dots> = 10 ^ 9" by (subst power_add[symmetric]) simp
    finally show ?thesis by simp
  qed
  note b = this
  have w: "\<forall>c \<in> set (takeWhile is_digit ds). is_digit c" for ds by (auto dest: set_takeWhileD)
  show ?thesis
  proof (cases "\<exists>a b r. s = a # b # r \<and> (a = CHR ''.'' \<or> a = comma) \<and> is_digit b")
    case True
    then obtain a b r where "s = a # b # r" "a = CHR ''.'' \<or> a = comma" "is_digit b" by blast
    then have "fst (get_frac s) = read_nat 0 (take 9 (takeWhile is_digit (b # r))) * 10 ^ (9 - length (take 9 (takeWhile is_digit (b # r))))"
      unfolding get_frac_def by (simp only: Let_def list.case if_True fst_conv simp_thms)
    then show ?thesis using b[OF w] by metis
  next
    case False
    then have "fst (get_frac s) = 0" by (auto simp: get_frac_def split: list.splits)
    then show ?thesis by simp
  qed
qed

lemma parse_rfc3339_wf: "parse_rfc3339 s = Some t \<Longrightarrow> wf_time t"
  using get_frac_bound
  by (auto simp: parse_rfc3339_def wf_time_def mk_time_def Let_def split: option.splits prod.splits if_splits)
    (metis fst_conv)+

text \<open>What validation does to a list of records.\<close>

definition norm_rec :: "LogRecord \<Rightarrow> LogRecord" where
  "norm_rec r = \<lparr>Timestamp = UTC (Timestamp r), Path = TrimSpace (Path r), UserAgent = TrimSpace (UserAgent r)\<rparr>"

definition complete_rec :: "LogRecord \<Rightarrow> bool" where
  "complete_rec r \<longleftrightarrow> \<not> IsZero (Timestamp r) \<and> TrimSpace (Path r) \<noteq> [] \<and> TrimSpace (UserAgent r) \<noteq> []"

lemma validate_loop_Inr: "validate_loop i rs = Inr rs' \<longleftrightarrow> list_all complete_rec rs \<and> rs' = map norm_rec rs"
proof (induction rs arbitrary: i rs')
  case (Cons r rs)
  show ?case
    using Cons.IH[of "Suc i"] by (cases "validate_loop (Suc i) rs") (auto simp: complete_rec_def norm_rec_def)
qed auto

lemma validate_Inr: "validate rs = Inr rs' \<longleftrightarrow> rs \<noteq> [] \<and> list_all complete_rec rs \<and> rs' = map norm_rec rs"
  by (auto simp: validate_def validate_loop_Inr)

lemma norm_normalized: "complete_rec r \<Longrightarrow> wf_time (Timestamp r) \<Longrightarrow> normalized (norm_rec r)"
  by (simp add: normalized_def norm_rec_def complete_rec_def wf_time_def IsZero_def)

lemma norm_id: "normalized r \<Longrightarrow> norm_rec r = r \<and> complete_rec r"
  by (cases r) (simp add: normalized_def norm_rec_def complete_rec_def UTC_id)

lemma set_field_wf:
  "wf_time (Timestamp rec) \<Longrightarrow> set_field k v rec = RecOk r \<Longrightarrow> wf_time (Timestamp r)"
  "wf_time (Timestamp rec) \<Longrightarrow> set_field k v rec = RecType r \<Longrightarrow> wf_time (Timestamp r)"
  by (auto simp: set_field_def dest: parse_rfc3339_wf split: if_splits json.splits option.splits)

lemma set_fields_wf: "set_fields ms rec = RecOk r \<Longrightarrow> wf_time (Timestamp rec) \<Longrightarrow> wf_time (Timestamp r)"
  by (induction ms rec arbitrary: r rule: set_fields.induct) (auto split: rec_res.splits dest: set_field_wf)

lemma decode_record_wf: "decode_record v zero_record = RecOk r \<Longrightarrow> wf_time (Timestamp r)"
  by (cases v) (auto simp: zero_record_def zero_time_def wf_time_def dest: set_fields_wf)

lemma decode_elems_wf: "decode_elems vs = Some rs \<Longrightarrow> list_all (\<lambda>r. wf_time (Timestamp r)) rs"
  by (induction vs arbitrary: rs rule: decode_elems.induct) (auto split: rec_res.splits option.splits dest: decode_record_wf)

lemma decode_records_wf: "decode_records v = Some rs \<Longrightarrow> list_all (\<lambda>r. wf_time (Timestamp r)) rs"
  by (cases v) (auto dest: decode_elems_wf)

lemma csv_rows_wf: "csv_rows i rows = Inr rs \<Longrightarrow> list_all (\<lambda>r. wf_time (Timestamp r)) rs"
  by (induction i rows arbitrary: rs rule: csv_rows.induct) (auto split: list.splits option.splits sum.splits dest: parse_rfc3339_wf)

lemma validate_normalized:
  "validate rs = Inr rs' \<Longrightarrow> list_all (\<lambda>r. wf_time (Timestamp r)) rs \<Longrightarrow> rs' \<noteq> [] \<and> list_all normalized rs'"
  by (auto simp: validate_Inr list_all_iff intro: norm_normalized)

lemma decodeJSON_normalized: "decodeJSON body = Inr rs \<Longrightarrow> rs \<noteq> [] \<and> list_all normalized rs"
  by (auto simp: decodeJSON_def Let_def intro: decode_records_wf dest!: validate_normalized
      split: prod.splits pres.splits if_splits option.splits)

lemma decodeCSV_normalized: "decodeCSV body = Inr rs \<Longrightarrow> rs \<noteq> [] \<and> list_all normalized rs"
  by (auto simp: decodeCSV_def simp del: csv_rows.simps intro: csv_rows_wf dest!: validate_normalized
      split: sum.splits list.splits if_splits)

lemma decodeRecords_normalized: "decodeRecords r = Inr rs \<Longrightarrow> rs \<noteq> [] \<and> list_all normalized rs"
  by (auto simp: decodeRecords_def Let_def dest: decodeJSON_normalized decodeCSV_normalized split: if_splits)

subsection \<open>A read error is never overlooked\<close>

lemma decodeJSON_err: "decodeJSON (s, Some e) \<noteq> Inr rs"
  by (auto simp: decodeJSON_def Let_def split: pres.splits if_splits option.splits)

definition err_last :: "goerr option \<Rightarrow> reading list \<Rightarrow> bool" where
  "err_last er rd \<longleftrightarrow> er \<noteq> None \<or> (\<exists>x \<in> set rd. snd x \<noteq> None)"

lemma q_scan_err:
  "err_last er rd \<Longrightarrow> q_scan l acc er rd = QNext f l' er' rd' \<Longrightarrow> err_last er' rd'"
  "err_last er rd \<Longrightarrow> q_scan l acc er rd = QLast f er' rd' \<Longrightarrow> err_last er' rd'"
  by (induction l acc er rd rule: q_scan.induct) (auto simp: err_last_def split: if_splits list.splits)

lemma fields_loop_err: "err_last er rd \<Longrightarrow> fields_loop line er rd acc = FDone fs er' rd' \<Longrightarrow> err_last er' rd'"
proof (induction line er rd acc rule: fields_loop.induct)
  case (1 line er rd acc)
  let ?l = "trim_left line"
  let ?f = "takeWhile (\<lambda>c. c \<noteq> comma) ?l" and ?rest = "dropWhile (\<lambda>c. c \<noteq> comma) ?l"
  show ?case
  proof (cases "?l = [] \<or> hd ?l \<noteq> dquote")
    case plain: True
    obtain rest where r: "?rest = rest" by simp
    have eq: "fields_loop line er rd acc = (case rest of
        [] \<Rightarrow> (let g = (if ?f \<noteq> [] \<and> last ?f = newline then butlast ?f else ?f) in
               if dquote \<in> set g then FErrd ErrBareQuote else FDone (acc @ [g]) er rd)
      | _ # rest' \<Rightarrow> if dquote \<in> set ?f then FErrd ErrBareQuote else fields_loop rest' er rd (acc @ [?f]))"
      unfolding fields_loop.simps[of line] r Let_def using plain by simp
    show ?thesis
    proof (cases rest)
      case Nil
      then show ?thesis using "1.prems" eq by (auto simp: Let_def split: if_splits)
    next
      case (Cons c rest')
      then have "dquote \<notin> set ?f \<and> fields_loop rest' er rd (acc @ [?f]) = FDone fs er' rd'"
        using "1.prems"(2) eq by (auto split: if_splits)
      then show ?thesis using "1.IH"(1)[OF refl plain refl refl _ _ "1.prems"(1)] r Cons by blast
    qed
  next
    case quoted: False
    show ?thesis
    proof (cases "q_scan (tl ?l) [] er rd")
      case (QNext f l' er1 rd1)
      then have "fields_loop l' er1 rd1 (acc @ [f]) = FDone fs er' rd'"
        using quoted "1.prems"(2) by (simp add: fields_loop.simps[of line] Let_def)
      then show ?thesis using "1.IH"(2)[OF refl quoted QNext] q_scan_err(1)[OF "1.prems"(1) QNext] by blast
    next
      case (QLast f er1 rd1)
      then show ?thesis
        using quoted "1.prems" q_scan_err(2)[OF "1.prems"(1) QLast] by (simp add: fields_loop.simps[of line] Let_def)
    next
      case (QErr e)
      then show ?thesis using quoted "1.prems" by (simp add: fields_loop.simps[of line] Let_def)
    qed
  qed
qed

lemma records_loop_err: "err_last None rd \<Longrightarrow> records_loop n rd acc \<noteq> Inr rows"
proof (induction n rd acc rule: records_loop.induct)
  case (2 n l er rd acc)
  show ?case
  proof (cases "er = None \<and> (l = [] \<or> l = [newline])")
    case True
    then show ?thesis using 2(1,3) by (auto simp: err_last_def)
  next
    case False
    have e: "err_last er rd" using "2.prems" by (auto simp: err_last_def)
    show ?thesis using False fields_loop_err[OF e, of l "[]"] 2(2)
      by (auto simp: err_last_def split: fout.splits option.splits if_splits)
  qed
qed (simp add: err_last_def)

lemma ReadAll_err: "ReadAll (Some e) s \<noteq> Inr rows"
  unfolding ReadAll_def by (rule records_loop_err) (simp add: err_last_def readings_def Let_def)

lemma decodeCSV_err: "decodeCSV (s, Some e) \<noteq> Inr rs"
  using ReadAll_err[of e s] by (auto simp: decodeCSV_def split: sum.splits list.splits)

lemma decodeRecords_too_large: "maxRequestBodyBytes < int (length (req_body r)) \<Longrightarrow> decodeRecords r \<noteq> Inr rs"
  using decodeJSON_err decodeCSV_err by (simp add: decodeRecords_def MaxBytesReader_def Let_def)

subsection \<open>The endpoint\<close>

lemma status_http_error [simp]: "status (http_error hs msg code) = code"
  by (simp add: http_error_def)

lemma decode_response_status: "status (decode_response e) \<in> {400, 413, 415}"
  by (simp add: decode_response_def)

lemma process_response_status: "status (fst (process_response e)) \<in> {429, 500, 503}"
  by (simp add: process_response_def)

lemma logTransient_pair: "\<exists>h1 ob1. logTransientProcessError now e st = (h1, ob1)"
  by fastforce

lemma handleLogs_cases:
  assumes "handleLogs (Some process) now r (h, ob, w) = Some ((h', ob', w'), resp)"
  obtains
    (early) "req_method r \<noteq> ''POST'' \<or> \<not> authorizeLogsRequest h r" "h' = h" "ob' = ob" "w' = w" "status resp \<in> {401, 405}"
  | (undecoded) e where "req_method r = ''POST''" "authorizeLogsRequest h r" "decodeRecords r = Inl e" "h' = h"
      "ob' = IncInvalidRequests ob" "w' = w" "status resp \<in> {400, 413, 415}"
  | (failed) rs ob1 e where "req_method r = ''POST''" "authorizeLogsRequest h r" "decodeRecords r = Inr rs"
      "process (requestTimeout h) rs (ob, w) = Some ((ob1, w'), Some e)" "resp = fst (process_response e)"
  | (accepted) rs where "req_method r = ''POST''" "authorizeLogsRequest h r" "decodeRecords r = Inr rs"
      "process (requestTimeout h) rs (ob, w) = Some ((ob', w'), None)" "status resp = 202"
proof (cases "req_method r \<noteq> ''POST'' \<or> \<not> authorizeLogsRequest h r")
  case True
  then show ?thesis using assms by (intro early) (auto simp: handleLogs_def split: if_splits)
next
  case go: False
  show ?thesis
  proof (cases "decodeRecords r")
    case (Inl e)
    then show ?thesis using assms go decode_response_status[of e] by (intro undecoded[of e]) (auto simp: handleLogs_def)
  next
    case (Inr rs)
    obtain ob1 w1 res where p: "process (requestTimeout h) rs (ob, w) = Some ((ob1, w1), res)"
      using assms go Inr by (cases "process (requestTimeout h) rs (ob, w)") (auto simp: handleLogs_def)
    show ?thesis
    proof (cases res)
      case None
      then show ?thesis using assms go Inr p by (intro accepted[of rs]) (auto simp: handleLogs_def)
    next
      case (Some e)
      then have "w1 = w' \<and> resp = fst (process_response e)"
        using assms go Inr p by (auto simp: handleLogs_def split: prod.splits if_splits)
      then show ?thesis using go Inr p Some by (intro failed[of rs ob1 e]) auto
    qed
  qed
qed

lemma handleLogs_total:
  assumes "\<And>t rs x. process t rs x \<noteq> None"
  shows "\<exists>h' ob' w' resp. handleLogs (Some process) now r (h, ob, w) = Some ((h', ob', w'), resp)"
proof (cases "decodeRecords r")
  case (Inr rs)
  obtain ob1 w1 res where "process (requestTimeout h) rs (ob, w) = Some ((ob1, w1), res)" using assms by (metis option.exhaust prod.exhaust)
  then show ?thesis using Inr by (cases res) (auto simp: handleLogs_def split: prod.splits)
qed (simp add: handleLogs_def)

lemma process_response_not_accepted: "status (fst (process_response e)) \<noteq> 202"
  using process_response_status[of e] by auto

subsection \<open>Header names\<close>

lemma token_ascii: "token_char c \<Longrightarrow> bv c < 128 \<and> \<not> ascii_space c"
  by (auto simp: token_char_def is_lower_def is_upper_def is_digit_def ascii_space_def bv_def)

lemma lead_space_ascii: "\<forall>c \<in> set s. bv c < 128 \<and> \<not> ascii_space c \<Longrightarrow> lead_space s = 0"
  by (cases s rule: lead_space.cases) (auto simp: lead_space.simps split: list.splits)

lemma trail_space_ascii: "\<forall>c \<in> set s. bv c < 128 \<and> \<not> ascii_space c \<Longrightarrow> trail_space s = 0"
  by (cases s rule: trail_space.cases) (auto simp: trail_space.simps lead_space_ascii split: list.splits)

lemma TrimSpace_tokens: "list_all token_char s \<Longrightarrow> TrimSpace s = s"
  using lead_space_ascii[of s] trail_space_ascii[of "rev s"] token_ascii
  by (simp add: TrimSpace_def trim_right_def trim_left_id trim_rev_id list_all_iff)

lemma case_flip:
  "is_lower c \<Longrightarrow> is_upper (bc (bv c - 32)) \<and> \<not> is_lower (bc (bv c - 32))"
  "is_upper c \<Longrightarrow> is_lower (bc (bv c + 32)) \<and> \<not> is_upper (bc (bv c + 32))"
  by (auto simp: is_lower_def is_upper_def bv_bc)

lemma canonical_idem: "canonical u (canonical u s) = canonical u s"
proof (induction s arbitrary: u)
  case (Cons c s)
  then show ?case using case_flip[of c] by (auto simp: Let_def)
qed simp

lemma canonical_tokens: "list_all token_char s \<Longrightarrow> list_all token_char (canonical u s)"
  by (induction s arbitrary: u) (auto simp: Let_def token_char_def case_flip)

lemma CanonicalHeaderKey_idem: "CanonicalHeaderKey (CanonicalHeaderKey s) = CanonicalHeaderKey s"
  by (simp add: CanonicalHeaderKey_def canonical_idem canonical_tokens)

lemma TrimSpace_canonical: "TrimSpace (CanonicalHeaderKey (TrimSpace s)) = CanonicalHeaderKey (TrimSpace s)"
  by (simp add: CanonicalHeaderKey_def TrimSpace_tokens canonical_tokens)

lemma canonical_Nil: "CanonicalHeaderKey s = [] \<longleftrightarrow> s = []"
  by (cases s) (auto simp: CanonicalHeaderKey_def Let_def)

lemma header_get_canonical: "header_get (CanonicalHeaderKey s) r = header_get s r"
  by (simp add: header_get_def CanonicalHeaderKey_idem)

text \<open>The header a handler configured with \<open>header\<close> looks at.\<close>

definition key_header :: "string \<Rightarrow> Handler \<Rightarrow> string" where
  "key_header header h =
     (if TrimSpace header \<noteq> [] then TrimSpace header
      else if TrimSpace (authHeader h) = [] then defaultAuthHeaderName else TrimSpace (authHeader h))"

lemma authorize_configured:
  "authorizeLogsRequest (WithAPIKeyAuth True header keys h) r \<longleftrightarrow>
     (let key = TrimSpace (header_get (key_header header h) r) in key \<noteq> [] \<and> key \<in> TrimSpace ` set keys)"
proof -
  have d: "TrimSpace defaultAuthHeaderName = defaultAuthHeaderName" "defaultAuthHeaderName \<noteq> []"
    by (simp_all add: TrimSpace_tokens defaultAuthHeaderName_def token_char_def is_lower_def is_upper_def is_digit_def bv_def)
  show ?thesis
    using d by (auto simp: authorizeLogsRequest_def WithAPIKeyAuth_def key_header_def Let_def TrimSpace_canonical
        canonical_Nil header_get_canonical split: if_splits)
qed

subsection \<open>Properties\<close>

definition ex_req :: request where
  "ex_req = \<lparr>req_method = ''POST'', req_headers = [(''Content-Type'', [''text/csv'']), (''X-Api-Key'', ['' k1 ''])],
     req_body = ''2025-01-01T00:00:00Z, /a ,x'', req_end = None\<rparr>"

lemma ex_req_decoded:
  "decodeRecords ex_req = Inr [\<lparr>Timestamp = \<lparr>t_sec = 63871286400, t_nsec = 0, t_off = 0\<rparr>, Path = ''/a'', UserAgent = ''x''\<rparr>]"
  by code_simp

text \<open>(C25) Every batch that leaves the decoder, JSON or CSV, is non-empty and all its records are normalized: a non-zero
  timestamp in UTC with less than a second of nanoseconds, a path and a user agent that are not empty and have no
  space around them.\<close>

theorem decoded_records_normalized:
  assumes "decodeRecords r = Inr rs"
  shows "rs \<noteq> [] \<and> list_all normalized rs"
  using assms by (rule decodeRecords_normalized)

lemma decoded_records_normalized_witness:
  "normalized \<lparr>Timestamp = \<lparr>t_sec = 63871286400, t_nsec = 0, t_off = 0\<rparr>, Path = ''/a'', UserAgent = ''x''\<rparr>"
  using decoded_records_normalized[OF ex_req_decoded] by simp

text \<open>(C24) The endpoint answers 202 exactly when the request is an authorized POST whose records decode and are
  processed without error; a request rejected with 400, 401, 405, 413 or 415 never reached the ingestion service and
  changed nothing but the counter of invalid requests; every other answer is 429, 500 or 503.\<close>

theorem handleLogs_status:
  assumes "handleLogs (Some process) now r (h, ob, w) = Some ((h', ob', w'), resp)"
  shows "(status resp = 202 \<longleftrightarrow> req_method r = ''POST'' \<and> authorizeLogsRequest h r
      \<and> (\<exists>rs ob1 w1. decodeRecords r = Inr rs \<and> process (requestTimeout h) rs (ob, w) = Some ((ob1, w1), None)))
    \<and> (status resp \<in> {400, 401, 405, 413, 415} \<longrightarrow> h' = h \<and> w' = w \<and> (ob' = ob \<or> ob' = IncInvalidRequests ob))
    \<and> status resp \<in> {202, 400, 401, 405, 413, 415, 429, 500, 503}"
  using assms
proof (cases rule: handleLogs_cases)
  case (failed rs ob1 e)
  then show ?thesis using process_response_status[of e] by auto
qed auto

lemma handleLogs_status_witness:
  "\<exists>st' resp. handleLogs (Some (\<lambda>_ rs (ob, w). Some ((ob, w + length rs), None))) 0 ex_req (NewHandler, obs0, 0 :: nat) = Some (st', resp)
     \<and> status resp = 202"
proof -
  have p: "authorizeLogsRequest NewHandler ex_req" by (simp add: authorizeLogsRequest_def NewHandler_def)
  obtain h' ob' w' resp where h: "handleLogs (Some (\<lambda>_ rs (ob, w). Some ((ob, w + length rs), None))) 0 ex_req (NewHandler, obs0, 0 :: nat) = Some ((h', ob', w'), resp)"
    using ex_req_decoded p by (simp add: handleLogs_def ex_req_def[THEN arg_cong[of _ _ req_method]])
  have "status resp = 202"
    using handleLogs_status[OF h] p ex_req_decoded by (simp add: ex_req_def[THEN arg_cong[of _ _ req_method]])
  then show ?thesis using h by blast
qed

text \<open>(C27) With API keys switched on, a request is let through exactly when the configured header (in any spelling of its
  case) holds a non-empty key that is one of the configured keys, both without the space around them; any other POST is
  answered with 401 and changes nothing, not even a counter.\<close>

theorem api_key_required:
  "(authorizeLogsRequest (WithAPIKeyAuth True header keys h) r \<longleftrightarrow>
      TrimSpace (header_get (key_header header h) r) \<in> TrimSpace ` set keys - {[]})
   \<and> (if req_method r = ''POST'' \<and> TrimSpace (header_get (key_header header h) r) \<notin> TrimSpace ` set keys - {[]}
      then handleLogs ing now r (WithAPIKeyAuth True header keys h, ob, w) =
        Some ((WithAPIKeyAuth True header keys h, ob, w), http_error [] ''unauthorized'' 401) else True)"
  using authorize_configured[of header keys h r] by (auto simp: handleLogs_def Let_def)

text \<open>(C28) A body of more than 2 MiB is never accepted, whatever it starts with: the answer is not 202 and the ingestion
  service is not called.\<close>

theorem oversized_body_rejected:
  assumes "handleLogs (Some process) now r (h, ob, w) = Some ((h', ob', w'), resp)" "2097152 < length (req_body r)"
  shows "status resp \<in> {400, 401, 405, 413, 415} \<and> w' = w"
proof -
  have n: "decodeRecords r \<noteq> Inr rs" for rs using assms(2) by (intro decodeRecords_too_large) (simp add: maxRequestBodyBytes_def)
  from assms(1) show ?thesis by (cases rule: handleLogs_cases) (use n in auto)
qed

lemma oversized_body_rejected_witness:
  "\<exists>st' resp. handleLogs (Some (\<lambda>_ rs (ob, w). Some ((ob, w + length rs), None))) 0 (ex_req\<lparr>req_body := replicate 2097153 (CHR ''a'')\<rparr>)
      (NewHandler, obs0, 0 :: nat) = Some (st', resp) \<and> status resp \<noteq> 202"
proof -
  let ?r = "ex_req\<lparr>req_body := replicate 2097153 (CHR ''a'')\<rparr>"
  have b: "req_body (ex_req\<lparr>req_body := x\<rparr>) = x" for x by simp
  have len: "2097152 < length (req_body ?r)" unfolding b length_replicate by simp
  obtain h' ob' w' resp where h: "handleLogs (Some (\<lambda>_ rs (ob, w). Some ((ob, w + length rs), None))) 0 ?r (NewHandler, obs0, 0 :: nat) = Some ((h', ob', w'), resp)"
    using handleLogs_total[of "\<lambda>_ rs (ob, w). Some ((ob, w + length rs), None)"] by fastforce
  then have "status resp \<in> {400, 401, 405, 413, 415}" using oversized_body_rejected[OF h len] by blast
  then show ?thesis using h by auto
qed

end
