(* ===== verification/Payloads.thy ===== *)
theory Payloads
  imports Handler
begin

section \<open>JSON and CSV payloads\<close>

text \<open>
  What a client sends: \<open>json_payload\<close> is \<^verbatim>\<open>json.Marshal\<close> of a slice of records, \<open>csv_payload\<close> one line per record.
  Both decode to the records, so the two content types are equivalent for records that CSV can carry without quotes.
\<close>

definition encode :: "LogRecord \<Rightarrow> string" where
  "encode r = (case marshal_record r of None \<Rightarrow> [] | Some s \<Rightarrow> s)"

definition json_payload :: "LogRecord list \<Rightarrow> string" where
  "json_payload rs = CHR ''['' # join_with comma (map encode rs) @ [CHR '']'']"

definition csv_line :: "LogRecord \<Rightarrow> string" where
  "csv_line r = format_rfc3339nano (Timestamp r) @ comma # Path r @ comma # UserAgent r"

definition csv_payload :: "LogRecord list \<Rightarrow> string" where
  "csv_payload rs = concat (map (\<lambda>r. csv_line r @ [newline]) rs)"

text \<open>Records as they leave the handler, with a year that RFC 3339 can write, valid UTF-8 and no character that CSV would quote.\<close>

definition csv_safe :: "string \<Rightarrow> bool" where
  "csv_safe s \<longleftrightarrow> comma \<notin> set s \<and> dquote \<notin> set s \<and> newline \<notin> set s"

definition portable :: "LogRecord \<Rightarrow> bool" where
  "portable r \<longleftrightarrow> normalized r \<and> 0 \<le> Year (Timestamp r) \<and> Year (Timestamp r) \<le> 9999
     \<and> to_valid (Path r) = Path r \<and> to_valid (UserAgent r) = UserAgent r"

subsection \<open>JSON\<close>

lemma p_record_rest:
  "p_value (Suc (Suc (Suc (Suc (Suc n))))) (Suc d)
     (CHR ''{'' # quote a @ CHR '':'' # quote x @ CHR '','' # quote b @ CHR '':'' # quote y @ CHR '','' # quote c @ CHR '':'' # quote z @ CHR ''}'' # rest) =
   POk (JObj [(quote_body a, JStr (quote_body x)), (quote_body b, JStr (quote_body y)), (quote_body c, JStr (quote_body z))]) rest"
proof -
  have q: "quote k @ s = dquote # quote_body k @ dquote # s" for k s by (simp add: quote_def)
  have o: "p_open (CHR ''}'') f (quote k @ s) = f (quote k @ s)" for f :: "string \<Rightarrow> (string \<times> json) list pres" and k s
    by (simp add: p_open_def q skip_ws_plain)
  show ?thesis
    unfolding p_value.simps(2)[of "Suc (Suc (Suc (Suc n)))"]
    by (simp add: skip_ws_plain o p_member_str p_next_lits del: p_members.simps p_value.simps)
qed

definition as_json :: "LogRecord \<Rightarrow> json" where
  "as_json r = JObj [(quote_body ''timestamp'', JStr (format_rfc3339nano (Timestamp r))), (quote_body ''path'', JStr (quote_body (Path r))),
     (quote_body ''userAgent'', JStr (quote_body (UserAgent r)))]"

lemma portable_encode:
  assumes "portable r"
  shows "\<exists>s. encode r = CHR ''{'' # s" "p_value (Suc (Suc (Suc (Suc (Suc n))))) (Suc d) (encode r @ rest) = POk (as_json r) rest"
    "decode_record (as_json r) zero_record = RecOk r" "5 \<le> length (encode r)"
proof -
  let ?f = "format_rfc3339nano (Timestamp r)"
  obtain ts where ts: "marshal_time (Timestamp r) = Some ts"
    using assms by (auto simp: portable_def normalized_def marshal_time_def)
  have q: "ts = quote ?f" "quote_body ?f = ?f" using marshal_time_quote[OF ts] by simp_all
  have s: "encode r = CHR ''{'' # quote ''timestamp'' @ CHR '':'' # quote ?f @ CHR '','' # quote ''path'' @ CHR '':'' # quote (Path r)
      @ CHR '','' # quote ''userAgent'' @ CHR '':'' # quote (UserAgent r) @ [CHR ''}'']"
    using ts q by (simp add: encode_def marshal_record_def)
  show "\<exists>s. encode r = CHR ''{'' # s" by (simp add: s)
  show "5 \<le> length (encode r)" by (simp add: s quote_def)
  show "p_value (Suc (Suc (Suc (Suc (Suc n))))) (Suc d) (encode r @ rest) = POk (as_json r) rest"
    using p_record_rest[of n d "''timestamp''" ?f "''path''" "Path r" "''userAgent''" "UserAgent r" rest] q(2)
    by (simp add: s as_json_def del: p_value.simps)
  have "parse_rfc3339 ?f = Some (Timestamp r)"
    using assms by (intro parse_rfc3339_format) (simp_all add: portable_def normalized_def)
  then show "decode_record (as_json r) zero_record = RecOk r"
    using assms by (simp add: as_json_def set_field_def unquote_names field_names unquote_quote[of "Path r"] unquote_quote[of "UserAgent r"]
        portable_def zero_record_def del: EqualFold.simps)
qed

lemma p_elems_payload:
  "rs \<noteq> [] \<Longrightarrow> list_all portable rs \<Longrightarrow> length rs \<le> Suc k \<Longrightarrow>
     p_elems (Suc (Suc (Suc (Suc (Suc (Suc k)))))) (Suc d) (join_with comma (map encode rs) @ CHR '']'' # rest) = POk (map as_json rs) rest"
proof (induction rs arbitrary: k)
  case (Cons r rs)
  have r: "portable r" using Cons.prems by simp
  have w: "\<not> json_ws (CHR '']'')" by (simp add: json_ws_def bv_def)
  have step: "p_elems (Suc (Suc (Suc (Suc (Suc (Suc k)))))) (Suc d) (encode r @ u) =
      p_next (CHR '']'') (as_json r) (p_elems (Suc (Suc (Suc (Suc (Suc k))))) (Suc d)) u" for u
    by (subst p_elems.simps(2)) (simp add: portable_encode(2)[OF r] del: p_value.simps p_elems.simps)
  show ?case
  proof (cases rs)
    case Nil
    then show ?thesis using step[of "CHR '']'' # rest"] w by (simp add: p_next_def skip_ws_plain del: p_elems.simps)
  next
    case (Cons r2 rs2)
    then obtain k' where k': "k = Suc k'" using Cons.prems(3) by (cases k) auto
    have ih: "p_elems (Suc (Suc (Suc (Suc (Suc k))))) (Suc d) (join_with comma (map encode rs) @ CHR '']'' # rest) = POk (map as_json rs) rest"
      unfolding k' using Cons Cons.prems k' by (intro Cons.IH) auto
    have "join_with comma (map encode (r # rs)) = encode r @ comma # join_with comma (map encode rs)" using Cons by simp
    then show ?thesis using step[of "comma # join_with comma (map encode rs) @ CHR '']'' # rest"] ih
      by (simp add: p_next_lits del: p_elems.simps)
  qed
qed simp

lemma decode_elems_json: "list_all portable rs \<Longrightarrow> decode_elems (map as_json rs) = Some rs"
  by (induction rs) (auto simp: portable_encode(3))

lemma length_join: "\<forall>w \<in> set ws. n \<le> length w \<Longrightarrow> n * length ws \<le> length (join_with c ws)"
  by (induction c ws rule: join_with.induct) auto

lemma validate_portable: "rs \<noteq> [] \<Longrightarrow> list_all portable rs \<Longrightarrow> validate rs = Inr rs"
  using norm_id by (auto simp: validate_Inr list_all_iff portable_def intro!: map_idI[symmetric])

lemma decodeJSON_payload:
  assumes "rs \<noteq> []" "list_all portable rs"
  shows "decodeJSON (json_payload rs, None) = Inr rs"
proof -
  let ?j = "join_with comma (map encode rs)"
  have "5 * length rs \<le> length ?j"
    using length_join[of "map encode rs" 5 comma] assms(2) by (auto simp: list_all_iff dest: portable_encode(4))
  moreover have "0 < length rs" "length (json_payload rs) = length ?j + 2" using assms(1) by (simp_all add: json_payload_def)
  ultimately have "\<exists>k. 2 * length (json_payload rs) = Suc (Suc (Suc (Suc (Suc (Suc k))))) \<and> length rs \<le> Suc k"
    by (intro exI[of _ "2 * length ?j - 2"]) arith
  then obtain k where k: "2 * length (json_payload rs) = Suc (Suc (Suc (Suc (Suc (Suc k)))))" "length rs \<le> Suc k" by blast
  obtain s where j: "?j = CHR ''{'' # s"
    using assms portable_encode(1) by (cases rs rule: list.exhaust; cases "tl rs") fastforce+
  have o: "p_open (CHR '']'') f (?j @ u) = f (?j @ u)" for f :: "string \<Rightarrow> json list pres" and u
    by (simp add: p_open_def j skip_ws_plain)
  have w: "\<not> json_ws (CHR ''['')" by (simp add: json_ws_def bv_def)
  have "p_value (2 * length (json_payload rs) + 1) max_depth (json_payload rs) =
      pmap JArr (p_elems (Suc (Suc (Suc (Suc (Suc (Suc k)))))) (Suc 9998) (?j @ [CHR '']'']))"
    unfolding k(1) by (simp add: json_payload_def skip_ws_plain w o max_depth_def del: p_elems.simps)
  then have "parse_json (json_payload rs) = POk (JArr (map as_json rs)) []"
    using p_elems_payload[OF assms k(2), of 9998 "[]"] by (simp add: parse_json_def)
  moreover have "validate rs = Inr rs" by (rule validate_portable[OF assms])
  ultimately show ?thesis using decode_elems_json[OF assms(2)] by (simp add: decodeJSON_def skip_ws_def)
qed

subsection \<open>CSV\<close>

lemma normalized_field:
  assumes "TrimSpace s = s" "s \<noteq> []"
  shows "lead_space s = 0" "last s \<noteq> creturn" "last s \<noteq> newline"
proof -
  obtain u where u: "trim_right (trim_left s) = s" using assms(1) by (simp add: TrimSpace_def)
  obtain k where k: "trim_right (trim_left s) = take k (trim_left s)" using trim_right_take by blast
  have "lead_space (trim_left s) = 0" by simp
  then show "lead_space s = 0" using lead_space_take_mono[of "trim_left s" k] k u by simp
  have "rev s = trim_rev (rev (trim_left s))" using u by (simp add: trim_right_def) (metis rev_rev_ident)
  then have "trail_space (rev s) = 0" by simp
  moreover obtain v c where "s = v @ [c]" using assms(2) by (cases s rule: rev_cases) auto
  ultimately show "last s \<noteq> creturn" "last s \<noteq> newline"
    by (auto simp: trail_space.simps ascii_space_def bv_def split: if_splits)
qed

lemma cut_comma:
  "comma \<notin> set f \<Longrightarrow> takeWhile (\<lambda>c. c \<noteq> comma) (f @ comma # rest) = f \<and> dropWhile (\<lambda>c. c \<noteq> comma) (f @ comma # rest) = comma # rest"
  by (induction f) auto

lemma fields_plain:
  assumes "lead_space (f @ comma # rest) = 0" "f \<noteq> []" "csv_safe f"
  shows "fields_loop (f @ comma # rest) er rd acc = fields_loop rest er rd (acc @ [f])"
proof -
  have h: "hd (f @ comma # rest) \<noteq> dquote" using assms(2,3) by (cases f) (auto simp: csv_safe_def)
  have t: "takeWhile (\<lambda>c. c \<noteq> comma) (f @ comma # rest) = f" "dropWhile (\<lambda>c. c \<noteq> comma) (f @ comma # rest) = comma # rest"
    using assms(3) cut_comma by (simp_all add: csv_safe_def)
  show ?thesis
    unfolding fields_loop.simps[of "f @ comma # rest"] trim_left_id[OF assms(1)] t Let_def
    using h assms(3) by (simp add: csv_safe_def)
qed

lemma fields_last:
  assumes "lead_space (f @ [newline]) = 0" "f \<noteq> []" "csv_safe f"
  shows "fields_loop (f @ [newline]) er rd acc = FDone (acc @ [f]) er rd"
proof -
  have h: "hd (f @ [newline]) \<noteq> dquote" using assms(2,3) by (cases f) (auto simp: csv_safe_def)
  have t: "takeWhile (\<lambda>c. c \<noteq> comma) (f @ [newline]) = f @ [newline]" "dropWhile (\<lambda>c. c \<noteq> comma) (f @ [newline]) = []"
    using assms(3) by (auto simp: csv_safe_def takeWhile_append2 dropWhile_append2)
  show ?thesis
    unfolding fields_loop.simps[of "f @ [newline]"] trim_left_id[OF assms(1)] t Let_def
    using h assms(3) by (simp add: csv_safe_def)
qed

lemma lead_space_ext:
  assumes "lead_space f = 0" "f \<noteq> []" "bv c < 128"
  shows "lead_space (f @ c # rest) = 0"
  using assms by (cases f rule: lead_space.cases) (auto simp: lead_space.simps split: list.splits if_splits)

definition time_char :: "char \<Rightarrow> bool" where
  "time_char c \<longleftrightarrow> is_digit c \<or> c \<in> set ''-:TZ.+''"

lemma time_chars: "list_all time_char (format_rfc3339nano t)"
proof -
  have p: "list_all time_char (show_int_pad w i)" for w i
    using show_int_pad_chars by (fastforce simp: list_all_iff time_char_def)
  have "list_all time_char (format_frac (t_nsec t))"
    using digits_pad[of _ 9 "t_nsec t"] by (auto simp: format_frac_def time_char_def list_all_iff dest!: set_dropWhileD)
  moreover have "list_all time_char (format_date t)"
    by (cases "civil_of_days (day_of t)") (simp add: format_date_def p, simp add: time_char_def)
  moreover have "list_all time_char (format_clock t)" "list_all time_char (format_zone t)"
    unfolding format_clock_def format_zone_def Let_def
    by (simp_all only: list_all_append p split: if_split) (simp_all add: time_char_def)
  ultimately show ?thesis by (simp add: format_rfc3339nano_def time_char_def)
qed

lemma time_char_ascii: "time_char c \<Longrightarrow> bv c < 128 \<and> \<not> ascii_space c \<and> c \<noteq> comma \<and> c \<noteq> dquote \<and> c \<noteq> newline"
  by (auto simp: time_char_def is_digit_def ascii_space_def bv_def)

lemma stamp_field:
  "csv_safe (format_rfc3339nano t)" "lead_space (format_rfc3339nano t) = 0" "format_rfc3339nano t \<noteq> []"
  "TrimSpace (format_rfc3339nano t) = format_rfc3339nano t" "\<not> EqualFold (format_rfc3339nano t) ''timestamp''"
proof -
  let ?s = "format_rfc3339nano t"
  have a: "\<forall>c \<in> set ?s. bv c < 128 \<and> \<not> ascii_space c \<and> c \<noteq> comma \<and> c \<noteq> dquote \<and> c \<noteq> newline"
    using time_chars[of t] time_char_ascii by (auto simp: list_all_iff)
  show "csv_safe ?s" using a by (auto simp: csv_safe_def)
  show l: "lead_space ?s = 0" using a by (intro lead_space_ascii) auto
  show ne: "?s \<noteq> []" by (simp add: format_rfc3339nano_def)
  have "trail_space (rev ?s) = 0" using a by (intro trail_space_ascii) auto
  then show "TrimSpace ?s = ?s" using l by (simp add: TrimSpace_def trim_right_def trim_left_id trim_rev_id)
  obtain y m d where ymd: "civil_of_days (day_of t) = (y, m, d)" by (metis prod.exhaust)
  obtain c s' where c: "show_int_pad 4 y = c # s'" using show_int_pad_Cons[of 4 y] by auto
  then have d: "is_digit c \<or> c = CHR ''-''" using show_int_pad_chars[of c 4 y] by simp
  then have "lower_byte c \<noteq> CHR ''t''" by (auto simp: lower_byte_def is_digit_def bv_def)
  moreover have "bv c < 128" using d by (auto simp: is_digit_def bv_def)
  moreover obtain s'' where "?s = c # s''" using c ymd by (simp add: format_rfc3339nano_def format_date_def)
  ultimately show "\<not> EqualFold ?s ''timestamp''" by (auto split: list.splits)
qed

lemma csv_fields:
  assumes "portable r" "csv_safe (Path r)" "csv_safe (UserAgent r)"
  shows "fields_loop (csv_line r @ [newline]) er rd [] = FDone [format_rfc3339nano (Timestamp r), Path r, UserAgent r] er rd"
    "newline \<notin> set (csv_line r)" "drop_cret (csv_line r) = csv_line r"
proof -
  have p: "Path r \<noteq> []" "TrimSpace (Path r) = Path r" "UserAgent r \<noteq> []" "TrimSpace (UserAgent r) = UserAgent r"
    using assms(1) by (simp_all add: portable_def normalized_def)
  note np = normalized_field[OF p(2,1)] and nu = normalized_field[OF p(4,3)]
  have c: "bv comma < 128" "bv newline < 128" by (simp_all add: bv_def)
  let ?t = "format_rfc3339nano (Timestamp r)" and ?rest = "Path r @ comma # UserAgent r @ [newline]"
  have "fields_loop (?t @ comma # ?rest) er rd [] = fields_loop ?rest er rd [?t]"
    using fields_plain[OF lead_space_ext[OF stamp_field(2,3) c(1)] stamp_field(3,1)] by simp
  also have "\<dots> = fields_loop (UserAgent r @ [newline]) er rd [?t, Path r]"
    using fields_plain[OF lead_space_ext[OF np(1) p(1) c(1)] p(1) assms(2)] by simp
  also have "\<dots> = FDone [?t, Path r, UserAgent r] er rd"
    using fields_last[OF lead_space_ext[OF nu(1) p(3) c(2)] p(3) assms(3)] by simp
  finally show "fields_loop (csv_line r @ [newline]) er rd [] = FDone [?t, Path r, UserAgent r] er rd" by (simp add: csv_line_def)
  show "newline \<notin> set (csv_line r)" using stamp_field(1) assms by (auto simp: csv_line_def csv_safe_def)
  show "drop_cret (csv_line r) = csv_line r" using nu(2) p(3) by (simp add: drop_cret_def csv_line_def)
qed

definition csv_ok :: "LogRecord \<Rightarrow> bool" where
  "csv_ok r \<longleftrightarrow> portable r \<and> csv_safe (Path r) \<and> csv_safe (UserAgent r)"

lemma readings_payload:
  "list_all csv_ok rs \<Longrightarrow> readings None (csv_payload rs) = map (\<lambda>r. (csv_line r @ [newline], None)) rs"
proof -
  assume ok: "list_all csv_ok rs"
  then have "split_on newline (csv_payload rs) = map csv_line rs @ [[]]"
    using csv_fields(2) by (induction rs) (auto simp: csv_payload_def split_on_append_sep split_on_no_sep csv_ok_def)
  then show ?thesis using ok csv_fields(3) by (simp add: readings_def Let_def list_all_iff csv_ok_def)
qed

definition csv_row :: "LogRecord \<Rightarrow> string list" where
  "csv_row r = [format_rfc3339nano (Timestamp r), Path r, UserAgent r]"

lemma records_payload:
  "list_all csv_ok rs \<Longrightarrow> n = 0 \<or> n = 3 \<Longrightarrow>
     records_loop n (map (\<lambda>r. (csv_line r @ [newline], None)) rs) acc = Inr (acc @ map csv_row rs)"
proof (induction rs arbitrary: n acc)
  case (Cons r rs)
  have "csv_line r @ [newline] \<noteq> [newline]" by (simp add: csv_line_def)
  then show ?case using Cons csv_fields(1)[of r] by (auto simp: csv_ok_def csv_row_def)
qed simp

lemma csv_rows_payload: "list_all csv_ok rs \<Longrightarrow> csv_rows i (map csv_row rs) = Inr rs"
proof (induction rs arbitrary: i)
  case (Cons r rs)
  then have r: "normalized r" "0 \<le> Year (Timestamp r)" "Year (Timestamp r) \<le> 9999" by (simp_all add: csv_ok_def portable_def)
  then have "parse_rfc3339 (format_rfc3339nano (Timestamp r)) = Some (Timestamp r)"
    by (intro parse_rfc3339_format) (simp_all add: normalized_def)
  then show ?case using Cons r(1) stamp_field(4) by (simp add: csv_row_def normalized_def)
qed simp

lemma decodeCSV_payload:
  assumes "rs \<noteq> []" "list_all csv_ok rs"
  shows "decodeCSV (csv_payload rs, None) = Inr rs"
proof -
  obtain r rs' where rs: "rs = r # rs'" using assms(1) by (cases rs) auto
  have "ReadAll None (csv_payload rs) = Inr (map csv_row rs)"
    using readings_payload[OF assms(2)] records_payload[OF assms(2), of 0 "[]"] by (simp add: ReadAll_def)
  moreover have "\<not> is_header (csv_row r)" using stamp_field(5) by (simp add: is_header_def csv_row_def)
  moreover have "validate rs = Inr rs" using assms by (intro validate_portable) (auto simp: list_all_iff csv_ok_def)
  ultimately show ?thesis using csv_rows_payload[OF assms(2), of 0] by (simp add: decodeCSV_def rs del: csv_rows.simps)
qed

subsection \<open>Properties\<close>

text \<open>(C26) The two content types are equivalent: for records in the handler's own form that RFC 3339 and unquoted CSV can carry, the JSON
  array and the CSV lines decode to the same result, the records themselves.\<close>

theorem json_csv_equivalent:
  assumes "rs \<noteq> []" "list_all csv_ok rs"
  shows "decodeJSON (json_payload rs, None) = decodeCSV (csv_payload rs, None) \<and> decodeJSON (json_payload rs, None) = Inr rs"
proof -
  have "list_all portable rs" using assms(2) by (simp add: list_all_iff csv_ok_def)
  then show ?thesis using decodeJSON_payload[OF assms(1)] decodeCSV_payload[OF assms] by simp
qed

definition ex_two :: "LogRecord list" where
  "ex_two = [\<lparr>Timestamp = \<lparr>t_sec = 63871286400, t_nsec = 5, t_off = 0\<rparr>, Path = ''/a b'', UserAgent = ''x''\<rparr>,
     \<lparr>Timestamp = \<lparr>t_sec = 63871290000, t_nsec = 0, t_off = 0\<rparr>, Path = ''/b'', UserAgent = ''curl/8''\<rparr>]"

lemma ex_two_ok: "list_all csv_ok ex_two"
proof -
  have y: "Year \<lparr>t_sec = 63871286400, t_nsec = 5, t_off = 0\<rparr> = 2025" "Year \<lparr>t_sec = 63871290000, t_nsec = 0, t_off = 0\<rparr> = 2025"
    by code_simp+
  have t: "TrimSpace ''/a b'' = ''/a b''" "TrimSpace ''x'' = ''x''" "TrimSpace ''/b'' = ''/b''" "TrimSpace ''curl/8'' = ''curl/8''"
    by code_simp+
  show ?thesis
    using y t by (simp add: ex_two_def csv_ok_def portable_def normalized_def csv_safe_def wf_time_def IsZero_def to_valid_ascii bv_def)
qed

lemma json_csv_equivalent_witness:
  "decodeJSON (json_payload ex_two, None) = decodeCSV (csv_payload ex_two, None) \<and> decodeJSON (json_payload ex_two, None) = Inr ex_two"
  by (rule json_csv_equivalent[OF _ ex_two_ok]) (simp add: ex_two_def)

end
