(* ===== verification/Producer_Shutdown.thy ===== *)
theory Producer_Shutdown
  imports Producer_Async
begin

section \<open>Close drains the producer\<close>

text \<open>
  \<^verbatim>\<open>Close\<close> of service/producer.go closes the channel and waits for the workers, which handle what is still buffered. The measure
  \<open>drain_work\<close> bounds the steps the batches in the channel and in the hands of workers still take (an attempt to publish is one step, so
  each call of \<^verbatim>\<open>EnqueueBatch\<close> is taken to return; it gets a context with the write timeout). Once the channel is closed no step raises it,
  every step of a worker lowers it, and as long as it is positive a worker can go on. So \<^verbatim>\<open>Close\<close> returns, and then every accepted batch
  has been published or has failed.
\<close>

fun job_left :: "prod_cfg \<Rightarrow> wjob \<Rightarrow> nat" where
  "job_left c (WTry batch a) = nat (max_attempts c) - a + 2"
| "job_left c (WDead batch e) = 1"

definition drain_work :: "prod_cfg \<Rightarrow> async \<Rightarrow> nat" where
  "drain_work c S = (nat (max_attempts c) + 2) * length (workCh (am_prod S)) + (\<Sum>j \<in># am_inflight S. job_left c j)"

text \<open>A run in which the workers take \<open>n\<close> steps.\<close>

inductive am_run :: "(rat \<Rightarrow> rat) \<Rightarrow> prod_cfg \<Rightarrow> async \<Rightarrow> nat \<Rightarrow> async \<Rightarrow> bool" for fl c S where
  ar_refl: "am_run fl c S 0 S"
| ar_other: "am_run fl c S n T \<Longrightarrow> am_step fl c T U \<Longrightarrow> drain_work c U = drain_work c T \<Longrightarrow> am_run fl c S n U"
| ar_worker: "am_run fl c S n T \<Longrightarrow> am_step fl c T U \<Longrightarrow> drain_work c U \<noteq> drain_work c T \<Longrightarrow> am_run fl c S (Suc n) U"

text \<open>A worker's step lowers the measure.\<close>

lemma attempt_lowers:
  assumes "WTry batch a \<in># am_inflight S" "attempt_ok c (WTry batch a)"
    and "try_once enq c env batch w (max_attempts c) a (am_prod S, ob, q) = ((p1, ob1, q1), res)"
    and "workCh (am_prod T) = workCh p1" "am_inflight T = am_inflight S - {#WTry batch a#} + N"
    and "N = (if res = None then {#WTry batch (Suc a)#} else if res = Some None then {#} else {#WDead batch e#})"
  shows "drain_work c T < drain_work c S"
proof -
  obtain A where A: "am_inflight S = add_mset (WTry batch a) A" using multi_member_split[OF assms(1)] by blast
  have "a < nat (max_attempts c)" if "res = None" using try_once_frame(2)[OF assms(3) that] assms(2) by (simp add: zless_nat_eq_int_zless)
  then show ?thesis using A assms(4-6) try_once_frame(1)[OF assms(3)] by (auto simp: drain_work_def)
qed

lemma dead_lowers:
  assumes "WDead batch e \<in># am_inflight S" "workCh (am_prod T) = workCh (am_prod S)" "am_inflight T = am_inflight S - {#WDead batch e#}"
  shows "drain_work c T < drain_work c S"
proof -
  obtain A where "am_inflight S = add_mset (WDead batch e) A" using multi_member_split[OF assms(1)] by blast
  then show ?thesis using assms(2,3) by (simp add: drain_work_def)
qed

lemma closed_step:
  assumes "am_step fl c S T" "am_inv c S" "chanClosed (am_prod S)" "started (am_prod S)"
  shows "drain_work c T \<le> drain_work c S \<and> chanClosed (am_prod T) \<and> started (am_prod T)"
  using assms(1)
proof cases
  case (am_reject i now ctxErr e p1)
  then show ?thesis using guards_frame[OF am_reject(3)] assms(3,4) by (simp add: drain_work_def at_caller_def)
next
  case (am_check i batch now ctxErr p1)
  then show ?thesis using guards_frame[OF am_check(4)] assms(3,4) by (simp add: drain_work_def at_caller_def)
next
  case (am_send i batch p1 ob1 res)
  then show ?thesis using assms(3) by (simp add: send_batch_def)
next
  case (am_receive batch rest)
  then show ?thesis using assms(3,4) by (simp add: drain_work_def)
next
  case (am_retry batch a env w p1 ob1 q1)
  moreover have "attempt_ok c (WTry batch a)" using assms(2) am_retry(2) by (auto simp: am_inv_def)
  ultimately show ?thesis using attempt_lowers[OF am_retry(2) _ am_retry(3), of T] try_once_frame(1)[OF am_retry(3)] assms(3,4) by simp
next
  case (am_publish batch a env w p1 ob1 q1)
  moreover have "attempt_ok c (WTry batch a)" using assms(2) am_publish(2) by (auto simp: am_inv_def)
  ultimately show ?thesis using attempt_lowers[OF am_publish(2) _ am_publish(3), of T] try_once_frame(1)[OF am_publish(3)] assms(3,4) by simp
next
  case (am_give_up batch a env w p1 ob1 q1 e)
  moreover have "attempt_ok c (WTry batch a)" using assms(2) am_give_up(2) by (auto simp: am_inv_def)
  ultimately show ?thesis using attempt_lowers[OF am_give_up(2) _ am_give_up(3), of T _ e] try_once_frame(1)[OF am_give_up(3)] assms(3,4) by simp
next
  case (am_dead batch e os now fs1 ob1)
  then show ?thesis using dead_lowers[OF am_dead(2), of T c] assms(3,4) by simp
qed (use assms(3,4) in \<open>auto simp: drain_work_def StartAsync_def close_flag_def close_channel_def close_cancel_def\<close>)

lemma run_drains:
  "am_run fl c S n T \<Longrightarrow> am_inv c S \<Longrightarrow> chanClosed (am_prod S) \<Longrightarrow> started (am_prod S) \<Longrightarrow>
   n + drain_work c T \<le> drain_work c S \<and> am_inv c T \<and> chanClosed (am_prod T) \<and> started (am_prod T)"
proof (induction rule: am_run.induct)
  case (ar_other n T U)
  then show ?case using closed_step[OF ar_other(2)] am_step_inv[OF ar_other(2)] by auto
next
  case (ar_worker n T U)
  then show ?case using closed_step[OF ar_worker(2)] am_step_inv[OF ar_worker(2)] by auto
qed simp

text \<open>A worker with a batch can take its next step, and a free worker can receive.\<close>

lemma busy_worker_can_step:
  assumes "j \<in># am_inflight S" "am_inv c S"
  shows "\<exists>T. am_step fl c S T \<and> drain_work c T < drain_work c S"
proof (cases j)
  case (WTry batch a)
  then have j: "WTry batch a \<in># am_inflight S" "attempt_ok c (WTry batch a)" using assms by (auto simp: am_inv_def)
  obtain p1 ob1 q1 res where t: "try_once EnqueueBatch c (ok_env 2) batch 0 (max_attempts c) a (am_prod S, am_obs S, am_queue S) = ((p1, ob1, q1), res)"
    by (metis prod.exhaust)
  note low = attempt_lowers[OF j t]
  consider "res = None" | "res = Some None" | e where "res = Some (Some e)" by (metis option.exhaust)
  then show ?thesis
  proof cases
    case 1
    show ?thesis by (rule exI, rule conjI[OF am_retry[OF j(1) t[unfolded 1]]]) (rule low, auto simp: 1)
  next
    case 2
    show ?thesis by (rule exI, rule conjI[OF am_publish[OF j(1) t[unfolded 2]]]) (rule low, auto simp: 2)
  next
    case (3 e)
    show ?thesis by (rule exI, rule conjI[OF am_give_up[OF j(1) t[unfolded 3]]]) (rule low[where e = e], auto simp: 3)
  qed
next
  case (WDead batch e)
  then have j: "WDead batch e \<in># am_inflight S" using assms by simp
  obtain fs1 ob1 where w: "writeProducerDLQ c (os_fine 0) (\<lambda>_. zero_time) batch e (am_fs S, am_obs S) = (fs1, ob1)" by fastforce
  show ?thesis by (rule exI, rule conjI[OF am_dead[OF j w]]) (rule dead_lowers[OF j], simp_all)
qed

lemma worker_can_step:
  assumes "0 < workers c" "started (am_prod S)" "0 < drain_work c S" "am_inv c S"
  shows "\<exists>T. am_step fl c S T \<and> drain_work c T < drain_work c S"
proof (cases "am_inflight S = {#}")
  case True
  then obtain batch rest where w: "workCh (am_prod S) = batch # rest" using assms(3) by (cases "workCh (am_prod S)") (auto simp: drain_work_def)
  have "int (size (am_inflight S)) < workers c" using True assms(1) by simp
  from am_receive[OF w assms(2) this, of fl] show ?thesis using w max_attempts_pos[of c] by (fastforce simp: drain_work_def)
next
  case False
  then obtain j where "j \<in># am_inflight S" by blast
  then show ?thesis by (rule busy_worker_can_step[OF _ assms(4)])
qed

lemma workers_positive: "0 < workers (fst (NewProducerService cfg))"
  by (auto simp: NewProducerService_def default_cfg_def split: option.splits)

subsection \<open>Properties\<close>

text \<open>(C18) \<^verbatim>\<open>Close\<close> returns: once it has closed the channel of a started producer, the workers take at most \<open>drain_work\<close> more steps in any
  run (the attempts to publish counted one by one), and as long as one is left some worker can take it; when none is left, the channel is empty,
  no worker is busy, and every batch that \<^verbatim>\<open>Enqueue\<close> ever accepted has been published or has failed after its last attempt. (Each call of
  \<^verbatim>\<open>EnqueueBatch\<close> is taken to return.)\<close>

theorem producer_close_drains:
  assumes "am_reach fl (fst (NewProducerService cfg)) (am_init (NewProducerService cfg) q fs) S" "chanClosed (am_prod S)" "started (am_prod S)"
    and "am_run fl (fst (NewProducerService cfg)) S n T"
  shows "n \<le> drain_work (fst (NewProducerService cfg)) S \<and>
    ((\<exists>U. am_step fl (fst (NewProducerService cfg)) T U \<and> drain_work (fst (NewProducerService cfg)) U < drain_work (fst (NewProducerService cfg)) T)
     \<or> workCh (am_prod T) = [] \<and> am_inflight T = {#} \<and> am_accepted T = am_published T + am_failed T)"
proof -
  let ?c = "fst (NewProducerService cfg)"
  have r: "n + drain_work ?c T \<le> drain_work ?c S" "am_inv ?c T" "started (am_prod T)"
    using run_drains[OF assms(4) am_reach_inv[OF assms(1) am_init_inv] assms(2,3)] by simp_all
  show ?thesis
  proof (cases "drain_work ?c T = 0")
    case True
    have "job_left ?c j \<noteq> 0" for j by (cases j) auto
    moreover have "\<forall>j \<in># am_inflight T. job_left ?c j = 0" using True by (simp add: drain_work_def)
    ultimately have "am_inflight T = {#}" by (metis multiset_nonemptyE)
    moreover have "workCh (am_prod T) = []" using True by (simp add: drain_work_def)
    ultimately have e: "am_inflight T = {#}" "workCh (am_prod T) = []" .
    then show ?thesis using r(1,2) by (simp add: am_inv_def in_workers_def)
  next
    case False
    then show ?thesis using worker_can_step[OF workers_positive r(3) _ r(2)] r(1) by simp
  qed
qed

lemma producer_close_drains_witness:
  "\<exists>S T. chanClosed (am_prod S) \<and> am_run (\<lambda>x. x) (fst np) S 2 T \<and> workCh (am_prod T) = [] \<and> am_published T + am_failed T = {#one_batch#}"
proof -
  let ?I = "am_init np ex_queue \<lparr>fs_files = [], fs_dirs = []\<rparr>" and ?r = "am_reach (\<lambda>x. x) (fst np)"
  obtain S where S: "?r ?I S" "am_accepted S = {#one_batch#}" "started (am_prod S)" "workCh (am_prod S) = [one_batch]" "am_inflight S = {#}"
      "\<not> closed (am_prod S)" "\<not> chanClosed (am_prod S)"
    using run_accepts by blast
  define F where "F = S\<lparr>am_prod := close_flag (am_prod S)\<rparr>"
  have f: "?r ?I F" unfolding F_def by (rule am_next[OF S(1) am_close[OF S(6)]])
  obtain p1 ob1 where c: "close_channel (am_prod F, am_obs F) = (p1, ob1)" by fastforce
  define C where "C = F\<lparr>am_prod := p1, am_obs := ob1\<rparr>"
  have p: "chanClosed p1" "started p1" "workCh p1 = [one_batch]" using c S(3,4) by (auto simp: close_channel_def F_def close_flag_def)
  have reach: "?r ?I C" unfolding C_def by (rule am_next[OF f am_close_channel[OF _ _ c]]) (simp_all add: F_def close_flag_def S(7))
  define R where "R = C\<lparr>am_prod := p1\<lparr>workCh := []\<rparr>, am_obs := SetIngestionQueueDepth 0 ob1, am_inflight := {#WTry one_batch 1#}\<rparr>"
  have 1: "am_step (\<lambda>x. x) (fst np) C R"
    using am_receive[of C one_batch "[]" "fst np" "\<lambda>x. x"] p S(5) workers_positive[of None] by (simp add: np_def R_def C_def F_def)
  have m: "marshal_record zero_record \<noteq> None" by code_simp
  then obtain q2 where q2: "EnqueueBatch (at_env (ok_env 2)) one_batch (am_queue R) = (q2, None)"
    by (auto simp: EnqueueBatch_def WriteMessages_def ok_env_def one_batch_def)
  then have h: "try_once EnqueueBatch (fst np) (ok_env 2) one_batch 0 (max_attempts (fst np)) 1 (am_prod R, am_obs R, am_queue R) =
      ((onEnqueueSuccess (am_prod R), am_obs R, q2), Some None)" by (simp add: try_once_def)
  have b: "WTry one_batch 1 \<in># am_inflight R" by (simp add: R_def)
  define T where "T = R\<lparr>am_prod := onEnqueueSuccess (am_prod R),
    am_obs := SetIngestionQueueDepth (int (length (workCh (onEnqueueSuccess (am_prod R))))) (am_obs R), am_queue := q2,
    am_inflight := am_inflight R - {#WTry one_batch 1#}, am_published := add_mset one_batch (am_published R)\<rparr>"
  have 2: "am_step (\<lambda>x. x) (fst np) R T" unfolding T_def by (rule am_publish[OF b h])
  have w: "workCh (am_prod T) = []" "am_inflight T = {#}" by (simp_all add: T_def R_def onEnqueueSuccess_def)
  have run: "am_run (\<lambda>x. x) (fst np) C (Suc (Suc 0)) T"
  proof (rule ar_worker[OF ar_worker[OF ar_refl 1] 2])
    show "drain_work (fst np) R \<noteq> drain_work (fst np) C"
      using max_attempts_pos[of "fst np"] S(5) p(3) by (simp add: drain_work_def R_def C_def F_def)
    show "drain_work (fst np) T \<noteq> drain_work (fst np) R" unfolding drain_work_def w by (simp add: R_def)
  qed
  have none: "drain_work (fst np) T = 0" by (simp add: drain_work_def w)
  have cl: "chanClosed (am_prod C)" "started (am_prod C)" using p(1,2) by (simp_all add: C_def)
  have "\<not> (\<exists>U. am_step (\<lambda>x. x) (fst (NewProducerService None)) T U \<and> drain_work (fst np) U < drain_work (fst np) T)" using none by simp
  then have "am_accepted T = am_published T + am_failed T"
    using producer_close_drains[OF reach[unfolded np_def] cl run[unfolded np_def]] unfolding np_def by blast
  moreover have "am_accepted T = {#one_batch#}" using S(2) by (simp add: T_def R_def C_def F_def)
  ultimately show ?thesis using run cl(1) w(1) unfolding numeral_2_eq_2 by metis
qed

end
