(* ===== verification/Consumer_Shutdown.thy ===== *)
theory Consumer_Shutdown
  imports Consumer_Machine
begin

section \<open>The consumer stops\<close>

text \<open>
  After its context is cancelled the batch writer takes no new messages, stores what it holds and ends (\<^verbatim>\<open>flushLoop\<close>,
  \<^verbatim>\<open>Close\<close> of service/consumer.go), if the calls it waits for return. \<open>calls\<close> are the goroutines inside \<^verbatim>\<open>SaveBatch\<close> or
  inside the \<^verbatim>\<open>Commit\<close> of a message: code that gets a context with a deadline and is free to ignore it. Two facts over any
  repository: a measure (\<open>work\<close>) that every step which does something decreases, and that a goroutine outside such a call can
  always go on by itself. So the writer never hangs on its own account; it hangs exactly while a call does not return.
  Steps that do nothing (a tick without messages, a message that is dropped) are not counted.
\<close>

fun job_work :: "job \<Rightarrow> nat" where
  "job_work (JAdd m) = 8"
| "job_work (JSave ms force) = 3 * length ms + 3"
| "job_work (JStoring ms force) = 3 * length ms + 2"
| "job_work (JDead ms e) = 1"
| "job_work (JCommit ms force) = length ms + 1"

definition work :: "'r cstate \<Rightarrow> nat" where
  "work S = 7 * length (cm_pending S) + (\<Sum>x \<in># cm_jobs S. job_work (snd x)) + (if cm_final S then 0 else 4)"

fun in_call :: "job \<Rightarrow> bool" where
  "in_call (JStoring ms force) = True"
| "in_call (JCommit (m # ms) force) = HasCommit m"
| "in_call _ = False"

definition calls :: "'r cstate \<Rightarrow> (nat \<times> job) multiset" where
  "calls S = filter_mset (\<lambda>x. in_call (snd x)) (cm_jobs S)"

definition proper :: "'r cstate \<Rightarrow> 'r cstate \<Rightarrow> bool" where
  "proper S T \<longleftrightarrow> cm_pending T \<noteq> cm_pending S \<or> cm_jobs T \<noteq> cm_jobs S \<or> cm_final T \<noteq> cm_final S"

text \<open>A run with \<open>n\<close> proper steps.\<close>

inductive cm_run :: "('e, 'r) save_op \<Rightarrow> ('e \<Rightarrow> bool) \<Rightarrow> (LogRecord \<Rightarrow> bool) \<Rightarrow> writer_cfg \<Rightarrow> 'r cstate \<Rightarrow> nat \<Rightarrow> 'r cstate \<Rightarrow> bool"
  for save :: "('e, 'r) save_op" and ok rok c S where
  run_refl: "cm_run save ok rok c S 0 S"
| run_idle: "cm_run save ok rok c S n T \<Longrightarrow> cm_step save ok rok c T U \<Longrightarrow> \<not> proper T U \<Longrightarrow> cm_run save ok rok c S n U"
| run_work: "cm_run save ok rok c S n T \<Longrightarrow> cm_step save ok rok c T U \<Longrightarrow> proper T U \<Longrightarrow> cm_run save ok rok c S (Suc n) U"

lemma work_save_job: "(\<Sum>x \<in># save_job i b f. job_work (snd x)) = (if b = [] then 0 else 3 * length b + 3)"
  by (simp add: save_job_def)

lemma ctx_stays: "cm_step save ok rok c S T \<Longrightarrow> cm_ctxDone S \<Longrightarrow> cm_ctxDone T"
  by (induction rule: cm_step.induct) auto

lemma step_decreases:
  "cm_step save ok rok c S T \<Longrightarrow> cm_ctxDone S \<Longrightarrow> if proper S T then work T < work S else work T = work S"
proof (induction rule: cm_step.induct)
  case (cm_append i m S p batch)
  obtain A where "cm_jobs S = add_mset (i, JAdd m) A" using multi_member_split[OF cm_append(1)] by blast
  then show ?case using cm_append
    by (auto simp: work_def proper_def add_locked_def drainLocked_eq work_save_job Let_def split: if_splits)
next
  case (cm_tick S p batch)
  have l: "cm_pending S = [] \<or> 1 \<le> length (cm_pending S)" by (cases "cm_pending S") simp_all
  show ?case using cm_tick l by (auto simp: work_def proper_def drainLocked_eq save_job_def)
next
  case (cm_last S p batch)
  then show ?case by (auto simp: work_def proper_def drainLocked_eq work_save_job)
next
  case (cm_begin i batch force S)
  obtain A where "cm_jobs S = add_mset (i, JSave batch force) A" using multi_member_split[OF cm_begin(1)] by blast
  then show ?case using cm_begin by (auto simp: work_def proper_def)
next
  case (cm_save i batch force S env ob1 st1)
  obtain A where "cm_jobs S = add_mset (i, JStoring batch force) A" using multi_member_split[OF cm_save(1)] by blast
  then show ?case using cm_save by (auto simp: work_def proper_def)
next
  case (cm_fail i batch force S env ob1 st1 e)
  obtain A where "cm_jobs S = add_mset (i, JStoring batch force) A" using multi_member_split[OF cm_fail(1)] by blast
  then show ?case using cm_fail by (auto simp: work_def proper_def)
next
  case (cm_dead i batch e S r fs os now fs1 ob1)
  obtain A where "cm_jobs S = add_mset (i, JDead batch e) A" using multi_member_split[OF cm_dead(1)] by blast
  then show ?case using cm_dead by (auto simp: work_def proper_def)
next
  case (cm_commit i m ms force S answer ob1 cs1)
  obtain A where "cm_jobs S = add_mset (i, JCommit (m # ms) force) A" using multi_member_split[OF cm_commit(1)] by blast
  then show ?case using cm_commit by (auto simp: work_def proper_def)
next
  case (cm_return i force S)
  obtain A where "cm_jobs S = add_mset (i, JCommit [] force) A" using multi_member_split[OF cm_return(1)] by blast
  then show ?case using cm_return by (auto simp: work_def proper_def)
qed (auto simp: work_def proper_def)

lemma run_bounded: "cm_run save ok rok c S n T \<Longrightarrow> cm_ctxDone S \<Longrightarrow> n + work T \<le> work S \<and> cm_ctxDone T"
proof (induction rule: cm_run.induct)
  case (run_idle n T U)
  then show ?case using step_decreases[OF run_idle(2)] ctx_stays[OF run_idle(2)] by auto
next
  case (run_work n T U)
  then show ?case using step_decreases[OF run_work(2)] ctx_stays[OF run_work(2)] by auto
qed simp

lemma replaced_job: "x \<in># M \<Longrightarrow> y \<noteq> x \<Longrightarrow> add_mset y (M - {#x#}) \<noteq> M"
proof
  assume x: "x \<in># M" "y \<noteq> x" and eq: "add_mset y (M - {#x#}) = M"
  have "count M x = count (add_mset y (M - {#x#})) x" by (simp only: eq)
  also have "\<dots> = count M x - 1" using x(2) by simp
  finally show False using count_greater_zero_iff[THEN iffD2, OF x(1)] by linarith
qed

text \<open>What the step of one busy goroutine does to the calls in progress: the others stay in theirs.\<close>

lemma calls_replaced:
  assumes "x \<in># cm_jobs S" "cm_jobs T = cm_jobs S - {#x#} + N" "\<not> in_call (snd x)"
  shows "calls S \<subseteq># calls T"
  using assms by (auto simp: calls_def filter_diff_mset)

lemma replaced_proper:
  assumes "x \<in># cm_jobs S" "cm_jobs T = cm_jobs S - {#x#} + N" "x \<notin># N" "size N \<le> 1"
  shows "proper S T"
proof (cases "N = {#}")
  case True
  then show ?thesis using size_Diff1_less[OF assms(1)] assms(2) by (auto simp: proper_def)
next
  case False
  then obtain y where "N = {#y#}" using assms(4) by (metis size_1_singleton_mset le_neq_implies_less less_one size_eq_0_iff_empty)
  then show ?thesis using replaced_job[OF assms(1), of y] assms(2,3) by (auto simp: proper_def)
qed

text \<open>A goroutine outside a call can always take its next step, and none of the calls in progress has to return for it; and a
  call may return, when the repository has an answer at all.\<close>

lemma job_can_step:
  assumes "x \<in># cm_jobs S" "in_call (snd x) \<Longrightarrow> \<exists>e. ok e"
  shows "\<exists>T. cm_step save ok rok c S T \<and> proper S T \<and> (\<not> in_call (snd x) \<longrightarrow> calls S \<subseteq># calls T)"
proof -
  obtain i j where x: "x = (i, j)" by fastforce
  have "\<exists>T N. cm_step save ok rok c S T \<and> cm_jobs T = cm_jobs S - {#x#} + N \<and> x \<notin># N \<and> size N \<le> 1"
  proof (cases j)
    case (JAdd m)
    obtain p batch where a: "add_locked c m (cm_pending S) = (p, batch)" by fastforce
    show ?thesis using assms(1) x JAdd
      by (intro exI[of _ "save_job i batch False"] exI conjI) (rule cm_append[OF _ a], auto simp: save_job_def)
  next
    case (JSave batch force)
    show ?thesis using assms(1) x JSave
      by (intro exI[of _ "{#(i, JStoring batch force)#}"] exI conjI) (rule cm_begin, auto)
  next
    case (JStoring batch force)
    obtain e where e: "ok e" using assms(2) x JStoring by auto
    define env where "env = \<lparr>pe_save = (\<lambda>_. e), pe_commit = (\<lambda>_ _. None), pe_os = os_fine 0, pe_now = (\<lambda>_. zero_time)\<rparr>"
    have ok: "ok (pe_save env force)" using e by (simp add: env_def)
    obtain ob1 st1 res where s: "persist_save save env force batch (cm_obs S, cm_store S) = ((ob1, st1), res)" by (metis prod.exhaust)
    show ?thesis
    proof (cases res)
      case None
      show ?thesis using assms(1) x JStoring
        by (intro exI[of _ "{#(i, JCommit batch force)#}"] exI conjI) (rule cm_save[where ok = ok, OF _ ok s[unfolded None]], auto)
    next
      case (Some e)
      show ?thesis using assms(1) x JStoring
        by (intro exI[of _ "{#(i, JDead batch e)#}"] exI conjI) (rule cm_fail[where ok = ok, OF _ ok s[unfolded Some]], auto)
    qed
  next
    case (JDead batch e)
    obtain r fs where st: "cm_store S = (r, fs)" by fastforce
    obtain fs1 ob1 where w: "writeDLQ c (os_fine 0) (\<lambda>_. zero_time) batch e (fs, cm_obs S) = (fs1, ob1)" by fastforce
    show ?thesis using assms(1) x JDead
      by (intro exI[of _ "{#}"] exI conjI) (rule cm_dead[OF _ st w], auto)
  next
    case (JCommit ms force)
    show ?thesis
    proof (cases ms)
      case Nil
      then show ?thesis using assms(1) x JCommit by (intro exI[of _ "{#}"] exI conjI) (rule cm_return, auto)
    next
      case (Cons m ms')
      obtain ob1 cs1 where a: "commit_one None m (cm_obs S, cm_commits S) = (ob1, cs1)" by fastforce
      show ?thesis using assms(1) x JCommit Cons
        by (intro exI[of _ "{#(i, JCommit ms' force)#}"] exI conjI) (rule cm_commit[OF _ a], auto)
    qed
  qed
  then show ?thesis using replaced_proper[OF assms(1)] calls_replaced[OF assms(1)] by metis
qed

lemma last_can_step:
  assumes "cm_ctxDone S" "idle 0 S" "\<not> cm_final S"
  shows "\<exists>T. cm_step save ok rok c S T \<and> proper S T \<and> calls S \<subseteq># calls T"
proof -
  obtain p batch where d: "drainLocked (cm_pending S) = (p, batch)" by fastforce
  show ?thesis using assms(3)
    by (intro exI conjI) (rule cm_last[OF assms(2,1,3) d], auto simp: proper_def calls_def)
qed

subsection \<open>Properties\<close>

text \<open>(C14) Shutdown of the consumer, provided the repository and the broker return: once the context of a running consumer is
  cancelled, every run does at most \<open>work S\<close> more things (returns of calls included). As long as some goroutine is outside a call of
  \<^verbatim>\<open>SaveBatch\<close> or \<^verbatim>\<open>Commit\<close>, or \<^verbatim>\<open>flushLoop\<close> is idle without its last flush, the run can go on without any call
  returning; otherwise all busy goroutines are inside such calls, and \<^verbatim>\<open>Close\<close> of the writer has returned unless
  \<^verbatim>\<open>flushLoop\<close> is in one. When no call is in progress, the last flush is done and every message ever taken is stored, was
  given up, or is pending, which no commit covers. A call that never returns keeps the writer from ending.\<close>

theorem consumer_shutdown_terminates:
  assumes "cm_reach save ok rok (fst (newConsumerWriter cfg)) (cm_init (newConsumerWriter cfg) st) S" "cm_ctxDone S"
    and "cm_run save ok rok (fst (newConsumerWriter cfg)) S n T"
  shows "n \<le> work S \<and> ((\<exists>U. cm_step save ok rok (fst (newConsumerWriter cfg)) T U \<and> proper T U \<and> calls T \<subseteq># calls U)
    \<or> cm_jobs T = calls T \<and> (idle 0 T \<longrightarrow> cm_final T) \<and> set (cm_commits T) \<subseteq> tag ` set_mset (cm_saved T)
        \<and> (calls T = {#} \<longrightarrow> cm_final T \<and> cm_received T = mset (cm_pending T) + cm_saved T + cm_failed T)
        \<and> (calls T \<noteq> {#} \<and> (\<exists>e. ok e) \<longrightarrow> (\<exists>U. cm_step save ok rok (fst (newConsumerWriter cfg)) T U \<and> proper T U)))"
proof -
  let ?c = "fst (newConsumerWriter cfg)"
  have b: "n + work T \<le> work S" "cm_ctxDone T" using run_bounded[OF assms(3,2)] by simp_all
  have "cm_inv rok ?c S" by (rule cm_reach_inv[OF assms(1) cm_init_inv(2,1)])
  from assms(3) this have inv: "cm_inv rok ?c T"
    by (induction rule: cm_run.induct) (auto intro: cm_step_inv[OF _ cm_init_inv(2)])
  show ?thesis
  proof (cases "\<exists>U. cm_step save ok rok ?c T U \<and> proper T U \<and> calls T \<subseteq># calls U")
    case False
    have "in_call (snd x)" if "x \<in># cm_jobs T" for x
      using job_can_step[OF that, of ok save rok ?c] False by blast
    then have jobs: "cm_jobs T = calls T" unfolding calls_def by (intro filter_mset_eq_conv[THEN iffD2, symmetric]) auto
    have fin: "idle 0 T \<longrightarrow> cm_final T" using last_can_step[OF b(2)] False by metis
    have ret: "\<exists>U. cm_step save ok rok ?c T U \<and> proper T U" if "calls T \<noteq> {#}" "\<exists>e. ok e"
    proof -
      have "cm_jobs T \<noteq> {#}" using that(1) jobs by simp
      then obtain x where "x \<in># cm_jobs T" by blast
      then show ?thesis using job_can_step[of x T ok save rok ?c] that(2) by blast
    qed
    have "cm_final T \<and> cm_received T = mset (cm_pending T) + cm_saved T + cm_failed T" if "calls T = {#}"
      using that inv fin jobs by (simp add: cm_inv_def in_hand_def idle_def)
    then show ?thesis using b(1) inv jobs fin ret by (simp add: cm_inv_def)
  qed (use b(1) in simp)
qed

lemma consumer_shutdown_terminates_witness:
  "\<exists>S T :: FileRepo cstate. cm_run SaveBatch (\<lambda>_. True) (\<lambda>_. True) (fst (newConsumerWriter \<lparr>FlushSize = 2, FlushInterval = 0, PersistTimeout = 0, DLQDirC = []\<rparr>)) S 1 T
     \<and> 1 \<le> work S \<and> cm_final T"
proof -
  let ?w = "newConsumerWriter \<lparr>FlushSize = 2, FlushInterval = 0, PersistTimeout = 0, DLQDirC = []\<rparr>"
  let ?I = "cm_init ?w (NewFileRepo ''logs'', ex_fs)"
  let ?S = "?I\<lparr>cm_ctxDone := True\<rparr>" and ?T = "?I\<lparr>cm_ctxDone := True, cm_final := True\<rparr>"
  have r: "cm_reach SaveBatch (\<lambda>_. True) (\<lambda>_. True) (fst ?w) ?I ?S" by (rule cm_next[OF cm_refl cm_cancel])
  have l: "cm_step SaveBatch (\<lambda>_. True) (\<lambda>_. True) (fst ?w) ?S ?T"
    using cm_last[of ?S "[]" "[]" SaveBatch "\<lambda>_. True" "\<lambda>_. True" "fst ?w"]
    by (simp add: idle_def cm_init_def drainLocked_def newConsumerWriter_def save_job_def)
  have "proper ?S ?T" by (simp add: proper_def cm_init_def)
  then have run: "cm_run SaveBatch (\<lambda>_. True) (\<lambda>_. True) (fst ?w) ?S 1 ?T" using run_work[OF run_refl l] by simp
  show ?thesis using consumer_shutdown_terminates[OF r _ run] run by (intro exI[of _ ?S] exI[of _ ?T]) simp
qed

end
