(* ===== verification/Pipeline.thy ===== *)
theory Pipeline
  imports Kafka_Queue Consumer_Files
begin

section \<open>From the topic to the log files\<close>

text \<open>
  The readers of a consumer group (\<open>consume\<close> of \<open>Kafka_Queue\<close>) and the batch writer (\<open>Consumer_Machine\<close>) together: when the fetches
  of the readers cover the topic and the writer has come to rest without a failed batch, the log files hold every record of the topic.
\<close>

subsection \<open>Strings that are valid already\<close>

lemma bad_utf8_decodes: "snd (decode_rune (bad_utf8 @ s)) = 3" "length bad_utf8 = 3"
  by (simp_all add: bad_utf8_def encode_rune_def rune_error_def decode_rune.simps bc_def bv_def is_cont_def)

lemma chunks_valid:
  assumes "wf_chunk ch"
  shows "chunks (valid_chunk ch @ s) = valid_chunk ch # chunks s \<and> valid_chunk (valid_chunk ch) = valid_chunk ch"
  using assms
proof (cases rule: chunk_cases)
  case (ascii c)
  then show ?thesis by (subst chunks.simps) (simp add: valid_chunk_def decode_rune.simps)
next
  case (bad c)
  have v: "valid_chunk ch = bad_utf8" using bad by (simp add: valid_chunk_def)
  have "bad_utf8 \<noteq> []" "bad_utf8 \<noteq> [x]" for x using bad_utf8_decodes(2) by (metis list.size(3) zero_neq_numeral, metis length_Cons list.size(3) numeral_eq_one_iff One_nat_def semiring_norm(86))
  then show ?thesis unfolding v using bad_utf8_decodes(1)[of s] bad_utf8_decodes(2)
    by (subst chunks.simps) (auto simp: valid_chunk_def split: list.splits)
next
  case (multi c d ch')
  then have v: "valid_chunk ch = ch" by (simp add: valid_chunk_def)
  have "decode_rune (ch @ s) = decode_rune ch" using decode_rune_append[of ch s] multi by simp
  then have "chunks (ch @ s) = ch # chunks s" using multi by (subst chunks.simps) simp
  then show ?thesis using v by simp
qed

lemma to_valid_idem: "to_valid (to_valid s) = to_valid s"
proof -
  have "chunks (concat (map valid_chunk chs)) = map valid_chunk chs \<and> map valid_chunk (map valid_chunk chs) = map valid_chunk chs"
    if "\<forall>ch \<in> set chs. wf_chunk ch" for chs
    using that by (induction chs) (simp_all add: chunks.simps[of "[]"] chunks_valid)
  from this[of "chunks s"] show ?thesis unfolding to_valid_def using chunks_wf[of _ s] by metis
qed

lemma valid_record_idem [simp]: "valid_record (valid_record r) = valid_record r"
  by (simp add: valid_record_def to_valid_idem)

subsection \<open>What the readers deliver\<close>

fun fetched :: "fetch list \<Rightarrow> string list" where
  "fetched [] = []"
| "fetched (FetchMsg part off val # fs) = val # fetched fs"
| "fetched (FetchErr e ctxErr now doneFirst # fs) = fetched fs"

text \<open>A reader with its state when it starts and the answers of its fetches; the handler collects what it is given.\<close>

type_synonym reader = "ConsumedMessage list cons_state \<times> fetch list"

definition reader_ok :: "reader \<Rightarrow> bool" where
  "reader_ok x \<longleftrightarrow> cs_user (fst x) = [] \<and> delay_ok (cs_delay (fst x)) \<and> is_i32 (activeConsumers (cs_queue (fst x)))
     \<and> health (cs_queue (fst x)) (cs_obs (fst x)) \<and> list_all survives (snd x)"

definition delivered :: "(int \<Rightarrow> int) \<Rightarrow> reader list \<Rightarrow> ConsumedMessage list" where
  "delivered rng xs = concat (map (\<lambda>x. cs_user (fst (consume (\<lambda>m ms. ms @ [m]) rng 1 (snd x) (fst x)))) xs)"

lemma fold_snoc: "fold (\<lambda>m ms. ms @ [m]) xs ys = ys @ xs"
  by (induction xs arbitrary: ys) auto

lemma decoded_records: "map Record (decoded fs) = line_records (fetched fs)"
  by (induction fs rule: fetched.induct) (auto split: option.splits)

lemma reader_delivers:
  assumes "reader_ok x" "rng_ok rng"
  shows "map Record (cs_user (fst (consume (\<lambda>m ms. ms @ [m]) rng 1 (snd x) (fst x)))) = line_records (fetched (snd x))"
proof -
  obtain st' ret where c: "consume (\<lambda>m ms. ms @ [m]) rng 1 (snd x) (fst x) = (st', ret)" by fastforce
  have "takeWhile survives (snd x) = snd x" using assms(1) by (simp add: reader_ok_def list_all_iff takeWhile_eq_all_conv)
  then have "decoded (takeWhile survives (snd x)) = decoded (snd x)" by metis
  then have "cs_user st' = decoded (snd x)" using consume_run[OF c assms(2)] assms(1) unfolding reader_ok_def fold_snoc by simp
  then show ?thesis using decoded_records c by simp
qed

lemma delivered_records:
  assumes "list_all reader_ok xs" "rng_ok rng"
  shows "map Record (delivered rng xs) = line_records (concat (map (\<lambda>x. fetched (snd x)) xs))"
  using assms by (induction xs) (simp_all add: delivered_def reader_delivers)

lemma line_records_mono: "mset xs \<subseteq># mset ys \<Longrightarrow> mset (line_records xs) \<subseteq># mset (line_records ys)"
proof -
  assume a: "mset xs \<subseteq># mset ys"
  have e: "mset (line_records zs) = image_mset (\<lambda>l. the (unmarshal_record l)) (filter_mset (\<lambda>l. unmarshal_record l \<noteq> None) (mset zs))" for zs
    by (induction zs) (auto split: option.splits)
  show ?thesis unfolding e by (intro image_mset_subseteq_mono multiset_filter_mono a)
qed

text \<open>The batch writer at rest: nothing pending, no goroutine busy, no batch given up.\<close>

definition at_rest :: "'r cstate \<Rightarrow> bool" where
  "at_rest S \<longleftrightarrow> cm_pending S = [] \<and> cm_jobs S = {#} \<and> cm_failed S = {#}"

lemma topic_reaches_files:
  assumes "cm_reach SaveBatch file_env time_ok (fst (newConsumerWriter cfg)) (cm_init (newConsumerWriter cfg) st) S" "logs_clean st" "at_rest S"
    and "list_all reader_ok xs" "rng_ok rng" "mset (topicLog q) \<subseteq># mset (concat (map (\<lambda>x. fetched (snd x)) xs))"
    and "cm_received S = mset (delivered rng xs)"
  shows "stored_files st + image_mset readable (topic_records q) \<subseteq># stored_files (cm_store S)"
proof -
  have "cm_inv time_ok (fst (newConsumerWriter cfg)) S" by (rule cm_reach_inv[OF assms(1) cm_init_inv(2,1)])
  then have "cm_saved S = mset (delivered rng xs)" using assms(3,7) by (simp add: cm_inv_def at_rest_def in_hand_def)
  then have "recs readable (cm_saved S) = image_mset readable (mset (map Record (delivered rng xs)))"
    by (simp add: recs_def multiset.map_comp comp_def)
  moreover have "topic_records q \<subseteq># mset (map Record (delivered rng xs))"
    unfolding delivered_records[OF assms(4,5)] topic_records_def by (rule line_records_mono[OF assms(6)])
  ultimately have "image_mset readable (topic_records q) \<subseteq># recs readable (cm_saved S)" by (simp add: image_mset_subseteq_mono)
  then show ?thesis using file_consumer_dl_inv[OF assms(1,2)]
    by (auto simp: dl_inv_def cm_abs_def intro: subset_mset.order_trans[OF subset_mset.add_left_mono])
qed

subsection \<open>A run with one message\<close>

text \<open>A writer that flushes every message; its run for a message that is saved and committed.\<close>

definition one_writer :: ConsumerBatchConfig where
  "one_writer = \<lparr>FlushSize = 1, FlushInterval = 0, PersistTimeout = 0, DLQDirC = []\<rparr>"

lemma one_message_run:
  fixes save :: "('e, 'r) save_op" and env :: "'e persist_env"
  assumes "save (pe_save env False) [Record m] st = (st', None)" "ok (pe_save env False)" "rok (Record m)"
  obtains S where "cm_reach save ok rok (fst (newConsumerWriter one_writer)) (cm_init (newConsumerWriter one_writer) st) S"
    "at_rest S" "cm_received S = {#m#}" "cm_saved S = {#m#}" "cm_store S = st'"
proof -
  let ?c = "fst (newConsumerWriter one_writer)" and ?I = "cm_init (newConsumerWriter one_writer) st"
  let ?stp = "cm_step save ok rok ?c"
  let ?A = "?I\<lparr>cm_jobs := {#(1, JAdd m)#}, cm_received := {#m#}\<rparr>" and ?B = "?I\<lparr>cm_jobs := {#(1, JSave [m] False)#}, cm_received := {#m#}\<rparr>"
  have w: "flushSize ?c = 1" "snd (newConsumerWriter one_writer) = []" by (simp_all add: newConsumerWriter_def one_writer_def)
  have 1: "?stp ?I ?A" using cm_call[of 1 ?I rok m] assms(3) by (simp add: idle_def cm_init_def)
  have 2: "?stp ?A ?B" using cm_append[of 1 m ?A ?c "[]" "[m]"] w by (simp add: add_locked_def drainLocked_eq save_job_def cm_init_def)
  let ?B2 = "?I\<lparr>cm_jobs := {#(1, JStoring [m] False)#}, cm_received := {#m#}\<rparr>"
  have 21: "?stp ?B ?B2" using cm_begin[of 1 "[m]" False ?B save ok rok ?c] by (simp add: cm_init_def)
  obtain ob1 where p: "persist_save save env False [m] (cm_obs ?B2, cm_store ?B2) = ((ob1, st'), None)"
    using assms(1) by (cases st; cases st') (auto simp: persist_save_def cm_init_def)
  let ?C = "?I\<lparr>cm_obs := ob1, cm_store := st', cm_saved := {#m#}, cm_jobs := {#(1, JCommit [m] False)#}, cm_received := {#m#}\<rparr>"
  have 3: "?stp ?B2 ?C" using cm_save[of 1 "[m]" False ?B2 ok env save ob1 st'] p assms(2) by (simp add: cm_init_def)
  obtain ob2 cs where q: "commit_one None m (ob1, []) = (ob2, cs)" by fastforce
  let ?D = "?C\<lparr>cm_obs := ob2, cm_commits := cs, cm_jobs := {#(1, JCommit [] False)#}\<rparr>" and ?E = "?C\<lparr>cm_obs := ob2, cm_commits := cs, cm_jobs := {#}\<rparr>"
  have 4: "?stp ?C ?D" using cm_commit[of 1 m "[]" False ?C None ob2 cs] q by (simp add: cm_init_def)
  have 5: "?stp ?D ?E" using cm_return[of 1 False ?D] by (simp add: cm_init_def)
  have "cm_reach save ok rok ?c ?I ?E" by (rule cm_next[OF cm_next[OF cm_next[OF cm_next[OF cm_next[OF cm_next[OF cm_refl 1] 2] 21] 3] 4] 5])
  moreover have "at_rest ?E" "cm_received ?E = {#m#}" "cm_saved ?E = {#m#}" "cm_store ?E = st'"
    using w(2) by (simp_all add: at_rest_def cm_init_def)
  ultimately show ?thesis by (rule that)
qed

end
