(* ===== verification/Minio_Repo.thy ===== *)
theory Minio_Repo
  imports Dlq_Files
begin

section \<open>The MinIO repository (repo/minio_repo.go)\<close>

text \<open>
  \<open>MinIORepo.SaveBatch\<close> writes one object per hour of the batch, under a key that carries the writer's identity and a
  counter. The object store is not part of the program: a bucket is the list of its objects by key, and what
  the client answers is the record \<open>store_env\<close> (a failed write may have stored the object or not). The polls of the
  context are numbered; the iteration order of the map does not matter because the code sorts the prefixes. The counter
  is 64 bits wide and wraps.
\<close>

record object =
  ob_data :: string
  LastModified :: int

type_synonym bucket = "(string \<times> object) list"

datatype write_answer = Written | Refused goerr | Uncertain goerr

record store_env =
  se_poll :: ctx
  se_exists :: "bool result"
  se_write :: "string \<Rightarrow> write_answer"
  se_get :: "string \<Rightarrow> goerr option"
  se_read :: "string \<Rightarrow> goerr option"
  se_list :: "goerr option"
  se_time :: int

subsection \<open>The client\<close>

text \<open>\<open>toResp\<close> is \<^verbatim>\<open>minio.ToErrorResponse\<close>: code and HTTP status of an error.\<close>

definition isMinIONotFoundError :: "(goerr \<Rightarrow> string \<times> int) \<Rightarrow> goerr option \<Rightarrow> bool" where
  "isMinIONotFoundError toResp err =
     (case err of
        None \<Rightarrow> False
      | Some e \<Rightarrow> fst (toResp e) = ''NoSuchKey'' \<or> fst (toResp e) = ''NoSuchObject'' \<or> snd (toResp e) = 404)"

definition BucketExists :: "store_env \<Rightarrow> bool result" where
  "BucketExists env = se_exists env"

definition ReadObject :: "(goerr \<Rightarrow> string \<times> int) \<Rightarrow> store_env \<Rightarrow> string \<Rightarrow> bucket \<Rightarrow> string result" where
  "ReadObject toResp env key b =
     (case se_get env key of
        Some e \<Rightarrow> if isMinIONotFoundError toResp (Some e) then Inl ErrObjectNotFound else Inl e
      | None \<Rightarrow>
          (case se_read env key of
             Some e \<Rightarrow> if isMinIONotFoundError toResp (Some e) then Inl ErrObjectNotFound else Inl e
           | None \<Rightarrow> (case alookup b key of None \<Rightarrow> Inl ErrObjectNotFound | Some o1 \<Rightarrow> Inr (ob_data o1))))"

definition WriteObject :: "store_env \<Rightarrow> string \<Rightarrow> string \<Rightarrow> bucket \<Rightarrow> bucket \<times> goerr option" where
  "WriteObject env key payload b =
     (let b' = aset key \<lparr>ob_data = payload, LastModified = se_time env\<rparr> b in
      case se_write env key of Written \<Rightarrow> (b', None) | Refused e \<Rightarrow> (b, Some e) | Uncertain e \<Rightarrow> (b', Some e))"

definition ListObjects :: "store_env \<Rightarrow> string \<Rightarrow> bucket \<Rightarrow> (string \<times> int) list result" where
  "ListObjects env pre b =
     (case se_list env of
        Some e \<Rightarrow> Inl e
      | None \<Rightarrow> Inr (map (\<lambda>(k, o1). (k, LastModified o1)) (filter (\<lambda>x. HasPrefix (fst x) pre) b)))"

subsection \<open>The repository\<close>

record MinIORepoOptions =
  opt_Endpoint :: string
  opt_Bucket :: string
  opt_AccessKey :: string
  opt_SecretKey :: string
  opt_UseSSL :: bool
  opt_LogsPrefix :: string
  opt_WriterID :: string
  opt_client :: bool

record MinIORepo =
  mr_bucket :: string
  mr_logsPrefix :: string
  mr_writerID :: string
  objectSeq :: int

definition id_char :: "char \<Rightarrow> bool" where
  "id_char c \<longleftrightarrow> 97 \<le> bv c \<and> bv c \<le> 122 \<or> 65 \<le> bv c \<and> bv c \<le> 90 \<or> is_digit c \<or> c = CHR ''-'' \<or> c = CHR ''_'' \<or> c = CHR ''.''"

definition id_rune :: "string \<Rightarrow> char" where
  "id_rune ch = (case ch of [c] \<Rightarrow> if id_char c then c else CHR ''-'' | _ \<Rightarrow> CHR ''-'')"

definition sanitizeWriterID :: "string \<Rightarrow> string" where
  "sanitizeWriterID v =
     (let val = TrimSpace v in if val = [] then [] else Trim (map id_rune (chunks val)) ''-'')"

text \<open>The candidates are the three environment variables and, when the call succeeds, the host name.\<close>

fun first_id :: "string list \<Rightarrow> string" where
  "first_id [] = ''writer''"
| "first_id (c # cs) = (if sanitizeWriterID c \<noteq> [] then sanitizeWriterID c else first_id cs)"

definition defaultWriterID :: "string list \<Rightarrow> string result \<Rightarrow> string" where
  "defaultWriterID env host = first_id (env @ (case host of Inr h \<Rightarrow> [h] | Inl _ \<Rightarrow> []))"

definition NewMinIORepo ::
  "goerr option \<Rightarrow> string list \<Rightarrow> string result \<Rightarrow> int \<Rightarrow> int \<Rightarrow> MinIORepoOptions \<Rightarrow> MinIORepo result" where
  "NewMinIORepo clientErr env host pid nano opts =
     (let bkt = TrimSpace (opt_Bucket opts);
          pre0 = Trim (TrimSpace (opt_LogsPrefix opts)) ''/'';
          pre = (if pre0 = [] then ''logs'' else pre0);
          base0 = sanitizeWriterID (opt_WriterID opts);
          base = (if base0 = [] then defaultWriterID env host else base0);
          repo = \<lparr>mr_bucket = bkt, mr_logsPrefix = pre,
                  mr_writerID = base @ ''-'' @ show_int pid @ ''-'' @ show_int nano, objectSeq = 0\<rparr> in
      if bkt = [] then Inl (ErrMsg ''minio bucket is required'')
      else if opt_client opts then Inr repo
      else if TrimSpace (opt_Endpoint opts) = [] then Inl (ErrMsg ''minio endpoint is required'')
      else if TrimSpace (opt_AccessKey opts) = [] then Inl (ErrMsg ''minio access key is required'')
      else if TrimSpace (opt_SecretKey opts) = [] then Inl (ErrMsg ''minio secret key is required'')
      else case clientErr of Some e \<Rightarrow> Inl (wrap ''create minio client: '' e) | None \<Rightarrow> Inr repo)"

definition CheckReady :: "store_env \<Rightarrow> MinIORepo \<Rightarrow> goerr option" where
  "CheckReady env r =
     (case BucketExists env of
        Inl e \<Rightarrow> Some (wrap ''check minio bucket: '' e)
      | Inr False \<Rightarrow> Some (ErrMsg (''minio bucket '' @ qstr (mr_bucket r) @ '' does not exist''))
      | Inr True \<Rightarrow> None)"

subsection \<open>Saving\<close>

definition hour_prefix :: "string \<Rightarrow> gotime \<Rightarrow> string" where
  "hour_prefix lp t = Join [lp, format_date t, format_hour t]"

fun m_group :: "ctx \<Rightarrow> nat \<Rightarrow> string \<Rightarrow> LogRecord list \<Rightarrow> (string \<times> LogRecord list) list \<Rightarrow> (string \<times> LogRecord list) list result" where
  "m_group ctx k lp [] m = Inr m"
| "m_group ctx k lp (r # rs) m =
     (case ctx k of
        Some e \<Rightarrow> Inl e
      | None \<Rightarrow> (let r' = utc_record r in m_group ctx (Suc k) lp rs (grp_add (hour_prefix lp (Timestamp r')) r' m)))"

fun str_less :: "string \<Rightarrow> string \<Rightarrow> bool" where
  "str_less s [] = False"
| "str_less [] (c # t) = True"
| "str_less (a # s) (c # t) = (bv a < bv c \<or> (a = c \<and> str_less s t))"

fun ins_key :: "string \<times> 'a \<Rightarrow> (string \<times> 'a) list \<Rightarrow> (string \<times> 'a) list" where
  "ins_key x [] = [x]"
| "ins_key x (y # ys) = (if str_less (fst y) (fst x) then y # ins_key x ys else x # y # ys)"

definition sort_keys :: "(string \<times> 'a) list \<Rightarrow> (string \<times> 'a) list" where
  "sort_keys xs = foldr ins_key xs []"

fun marshalNDJSON :: "ctx \<Rightarrow> nat \<Rightarrow> LogRecord list \<Rightarrow> (string \<times> nat) result" where
  "marshalNDJSON ctx k [] = Inr ([], k)"
| "marshalNDJSON ctx k (r # rs) =
     (case ctx k of
        Some e \<Rightarrow> Inl e
      | None \<Rightarrow>
          (case marshal_record r of
             None \<Rightarrow> Inl (wrap ''marshal log record: '' marshal_err)
           | Some d \<Rightarrow>
               (case marshalNDJSON ctx (Suc k) rs of
                  Inl e \<Rightarrow> Inl e
                | Inr (rest, k') \<Rightarrow> Inr (d @ newline # rest, k'))))"

definition shard_key :: "string \<Rightarrow> string \<Rightarrow> int \<Rightarrow> string" where
  "shard_key hourPrefix writer seq = Join [hourPrefix, writer @ ''-'' @ show_int seq @ ''.log.json'']"

definition newShardObjectKey :: "string \<Rightarrow> MinIORepo \<Rightarrow> MinIORepo \<times> string" where
  "newShardObjectKey hourPrefix r =
     (let seq = (objectSeq r + 1) mod 2 ^ 64 in (r\<lparr>objectSeq := seq\<rparr>, shard_key hourPrefix (mr_writerID r) seq))"

fun save_shards :: "store_env \<Rightarrow> nat \<Rightarrow> (string \<times> LogRecord list) list \<Rightarrow> MinIORepo \<times> bucket \<Rightarrow> (MinIORepo \<times> bucket) \<times> goerr option" where
  "save_shards env k [] st = (st, None)"
| "save_shards env k ((hp, g) # gs) (r, b) =
     (case se_poll env k of
        Some e \<Rightarrow> ((r, b), Some e)
      | None \<Rightarrow>
          (case marshalNDJSON (se_poll env) (Suc k) g of
             Inl e \<Rightarrow> ((r, b), Some e)
           | Inr (payload, k') \<Rightarrow>
               (case newShardObjectKey hp r of (r1, key) \<Rightarrow>
                case WriteObject env key payload b of
                  (b1, Some e) \<Rightarrow> ((r1, b1), Some (wrap (''write object '' @ qstr key @ '': '') e))
                | (b1, None) \<Rightarrow> save_shards env k' gs (r1, b1))))"

definition minio_SaveBatch :: "store_env \<Rightarrow> LogRecord list \<Rightarrow> MinIORepo \<times> bucket \<Rightarrow> (MinIORepo \<times> bucket) \<times> goerr option" where
  "minio_SaveBatch env rs st =
     (if rs = [] then (st, None)
      else case m_group (se_poll env) 0 (mr_logsPrefix (fst st)) rs [] of
             Inl e \<Rightarrow> (st, Some e)
           | Inr grouped \<Rightarrow> save_shards env (length rs) (sort_keys grouped) st)"

subsection \<open>Reading\<close>

definition ListLogObjects :: "store_env \<Rightarrow> MinIORepo \<times> bucket \<Rightarrow> (string \<times> int) list result" where
  "ListLogObjects env st =
     (let pre = Trim (mr_logsPrefix (fst st)) ''/'' @ ''/'' in
      case ListObjects env pre (snd st) of
        Inl e \<Rightarrow> Inl (wrap (''list objects with prefix '' @ qstr pre @ '': '') e)
      | Inr objs \<Rightarrow> Inr (sort_keys (filter (\<lambda>x. HasSuffix (fst x) ''.log.json'') objs)))"

definition ReadLogObject :: "(goerr \<Rightarrow> string \<times> int) \<Rightarrow> store_env \<Rightarrow> string \<Rightarrow> bucket \<Rightarrow> string result" where
  "ReadLogObject toResp env obj b =
     (let key = TrimPrefix (TrimSpace obj) ''/'' in
      if key = [] then Inl (ErrMsg ''object key is required'')
      else case ReadObject toResp env key b of
             Inl e \<Rightarrow> Inl (wrap (''read object '' @ qstr key @ '': '') e)
           | Inr data \<Rightarrow> Inr data)"

subsection \<open>Keys\<close>

lemma mset_ins_key: "mset (ins_key x ys) = add_mset x (mset ys)"
  by (induction x ys rule: ins_key.induct) auto

lemma sort_keys_reorders: "reorders (sort_keys :: (string \<times> 'a) list \<Rightarrow> (string \<times> 'a) list)"
proof -
  have "mset (sort_keys xs) = mset xs" for xs :: "(string \<times> 'a) list"
    by (induction xs) (simp_all add: sort_keys_def mset_ins_key)
  then show ?thesis by (simp add: reorders_def)
qed

definition shard_file :: "string \<Rightarrow> int \<Rightarrow> string" where
  "shard_file w n = w @ CHR ''-'' # show_int n @ ''.log.json''"

lemma plain_shard_file: "slash \<notin> set w \<Longrightarrow> plain_comp (shard_file w n)"
  using show_int_chars[of slash n] digit_not_slash by (auto simp: plain_comp_def shard_file_def append_eq_Cons_conv)

lemma shard_key_path:
  assumes "slash \<notin> set w"
  shows "shard_key hp w n = path_of (is_rooted hp) (comps hp @ [shard_file w n])" "comps (shard_key hp w n) = comps hp @ [shard_file w n]"
proof -
  show p: "shard_key hp w n = path_of (is_rooted hp) (comps hp @ [shard_file w n])"
    using plain_shard_file[OF assms, of n] Join_plain[of "[shard_file w n]" hp] by (simp add: shard_key_def shard_file_def)
  show "comps (shard_key hp w n) = comps hp @ [shard_file w n]"
    unfolding p using plain_shard_file[OF assms, of n] comps_clean[of hp] by (intro comps_path_of clean_list_append) auto
qed

lemma split_first: "y @ c # x = y' @ c # x' \<Longrightarrow> c \<notin> set y \<Longrightarrow> c \<notin> set y' \<Longrightarrow> y = y' \<and> x = x'"
proof (induction y arbitrary: y')
  case Nil
  then show ?case by (cases y') auto
next
  case (Cons a y)
  then show ?case by (cases y') auto
qed

lemma split_last_dash:
  assumes "x @ c # y = x' @ c # y'" "c \<notin> set y" "c \<notin> set y'"
  shows "x = x' \<and> y = y'"
proof -
  have "rev y @ c # rev x = rev y' @ c # rev x'" using arg_cong[OF assms(1), of rev] by simp
  then have "rev y = rev y' \<and> rev x = rev x'" by (rule split_first) (use assms(2,3) in auto)
  then show ?thesis by simp
qed

lemma shard_file_inject: "0 \<le> n \<Longrightarrow> 0 \<le> n' \<Longrightarrow> shard_file w n = shard_file w' n' \<Longrightarrow> w = w' \<and> n = n'"
proof -
  assume n: "0 \<le> n" "0 \<le> n'" and eq: "shard_file w n = shard_file w' n'"
  have d: "CHR ''-'' \<notin> set (show_int m @ ''.log.json'')" if "0 \<le> m" for m
    using that digits_show_nat[of "CHR ''-''" "nat m"] by (auto simp: show_int_def is_digit_def bv_def)
  have "w = w' \<and> show_int n @ ''.log.json'' = show_int n' @ ''.log.json''"
    using eq unfolding shard_file_def by (rule split_last_dash[OF _ d d]) (use n in auto)
  then show "w = w' \<and> n = n'" using n by (auto simp: show_int_def)
qed

lemma shard_key_inject:
  assumes "shard_key hp w n = shard_key hp' w' n'" "slash \<notin> set w" "slash \<notin> set w'" "0 \<le> n" "0 \<le> n'"
  shows "w = w' \<and> n = n'"
proof -
  have "comps hp @ [shard_file w n] = comps hp' @ [shard_file w' n']"
    using assms(1) shard_key_path(2)[OF assms(2)] shard_key_path(2)[OF assms(3)] by metis
  then have "shard_file w n = shard_file w' n'" by simp
  then show ?thesis by (rule shard_file_inject[OF assms(4,5)])
qed

lemma is_log_shard_key: "slash \<notin> set w \<Longrightarrow> is_log (shard_key hp w n)"
proof -
  assume w: "slash \<notin> set w"
  obtain u where u: "join_with slash (comps hp @ [shard_file w n]) = u @ shard_file w n"
    using join_with_last[of "comps hp @ [shard_file w n]" slash] by auto
  have "shard_key hp w n = ((if is_rooted hp then slash # u else u) @ w @ CHR ''-'' # show_int n) @ ''.log.json''"
    using u by (simp add: shard_key_path(1)[OF w] path_of_def shard_file_def)
  then show ?thesis unfolding is_log_def by (metis HasSuffix_append)
qed

subsection \<open>What the bucket holds\<close>

definition stored_objects :: "bucket \<Rightarrow> LogRecord multiset" where
  "stored_objects b = mset (concat (map (\<lambda>(k, x). if is_log k then file_records (ob_data x) else []) b))"

text \<open>No object carries this writer's identity and a number the counter has not reached.\<close>

definition shard_inv :: "MinIORepo \<times> bucket \<Rightarrow> bool" where
  "shard_inv st \<longleftrightarrow> 0 \<le> objectSeq (fst st) \<and> slash \<notin> set (mr_writerID (fst st))
     \<and> (\<forall>k \<in> fst ` set (snd st). \<forall>hp n. 0 \<le> n \<longrightarrow> k = shard_key hp (mr_writerID (fst st)) n \<longrightarrow> n \<le> objectSeq (fst st))"

lemma aset_fresh: "k \<notin> fst ` set m \<Longrightarrow> aset k v m = m @ [(k, v)]"
  by (induction k v m rule: aset.induct) auto

lemma marshalNDJSON_lines:
  "marshalNDJSON ctx k rs = Inr (p, k') \<Longrightarrow> p = lines_of rs \<and> (\<forall>r \<in> set rs. marshal_record r \<noteq> None)"
  by (induction ctx k rs arbitrary: p k' rule: marshalNDJSON.induct) (auto simp: line_of_def split: option.splits sum.splits)

lemma payload_records:
  assumes "marshalNDJSON ctx k g = Inr (p, k')" "list_all utc_wf g"
  shows "file_records p = map valid_record g"
proof -
  have "p = lines_of g" "filter (\<lambda>r. marshal_record r \<noteq> None) g = g"
    using marshalNDJSON_lines[OF assms(1)] by (auto simp: filter_id_conv)
  then show ?thesis using file_records_lines[OF assms(2)] by simp
qed

lemma new_key_fresh:
  assumes "shard_inv (r, b)" "objectSeq r + 1 < 2 ^ 64" "newShardObjectKey hp r = (r1, key)"
  shows "key \<notin> fst ` set b" "is_log key" "mr_writerID r1 = mr_writerID r" "objectSeq r1 = objectSeq r + 1" "key = shard_key hp (mr_writerID r) (objectSeq r + 1)"
proof -
  have s: "(objectSeq r + 1) mod 2 ^ 64 = objectSeq r + 1" using assms(1,2) by (simp add: shard_inv_def)
  show k: "key = shard_key hp (mr_writerID r) (objectSeq r + 1)" and "mr_writerID r1 = mr_writerID r" "objectSeq r1 = objectSeq r + 1"
    using assms(3) s by (auto simp: newShardObjectKey_def Let_def)
  show "is_log key" unfolding k using assms(1) by (intro is_log_shard_key) (simp add: shard_inv_def)
  show "key \<notin> fst ` set b"
  proof
    assume "key \<in> fst ` set b"
    then have "\<forall>hp n. 0 \<le> n \<longrightarrow> key = shard_key hp (mr_writerID r) n \<longrightarrow> n \<le> objectSeq r"
      using assms(1) unfolding shard_inv_def fst_conv snd_conv by blast
    moreover have "0 \<le> objectSeq r + 1" using assms(1) by (simp add: shard_inv_def)
    ultimately have "objectSeq r + 1 \<le> objectSeq r" using k by blast
    then show False by simp
  qed
qed

lemma WriteObject_effect:
  assumes "WriteObject env key payload b = (b1, res)" "key \<notin> fst ` set b" "is_log key"
  shows "b1 = b \<and> res \<noteq> None \<or> stored_objects b1 = stored_objects b + mset (file_records payload) \<and> fst ` set b1 = insert key (fst ` set b)"
  using assms by (auto simp: WriteObject_def Let_def stored_objects_def aset_fresh split: write_answer.splits)

lemma shard_inv_step:
  assumes "shard_inv (r, b)" "newShardObjectKey hp r = (r1, key)" "objectSeq r + 1 < 2 ^ 64" "fst ` set b1 \<subseteq> insert key (fst ` set b)"
  shows "shard_inv (r1, b1)"
proof -
  note k = new_key_fresh[OF assms(1,3,2)]
  have w: "slash \<notin> set (mr_writerID r)" and pos: "0 \<le> objectSeq r" using assms(1) by (simp_all add: shard_inv_def)
  have "n \<le> objectSeq r + 1" if "x \<in> fst ` set b1" "0 \<le> n" "x = shard_key hp' (mr_writerID r) n" for x hp' n
  proof (cases "x = key")
    case True
    then show ?thesis using shard_key_inject[of hp' "mr_writerID r" n hp "mr_writerID r" "objectSeq r + 1"] that k(5) w pos by simp
  next
    case False
    then have "x \<in> fst ` set b" using that(1) assms(4) by blast
    then have "n \<le> objectSeq r" using assms(1) that(2,3) by (auto simp: shard_inv_def)
    then show ?thesis by simp
  qed
  moreover have "0 \<le> objectSeq r + 1" using pos by simp
  ultimately show ?thesis unfolding shard_inv_def fst_conv snd_conv k(3,4) using w by blast
qed

lemma save_shards_effect:
  "save_shards env k gs (r, b) = ((r', b'), res) \<Longrightarrow> shard_inv (r, b) \<Longrightarrow> list_all utc_wf (concat (map snd gs)) \<Longrightarrow>
   objectSeq r + int (length gs) < 2 ^ 64 \<Longrightarrow>
   \<exists>part. part \<subseteq># mset (map valid_record (concat (map snd gs))) \<and> stored_objects b' = stored_objects b + part
     \<and> (res = None \<longrightarrow> part = mset (map valid_record (concat (map snd gs)))) \<and> shard_inv (r', b')"
proof (induction gs arbitrary: k r b)
  case (Cons x gs)
  obtain hp g where x: "x = (hp, g)" by fastforce
  show ?case
  proof (cases "se_poll env k = None \<and> (\<exists>y. marshalNDJSON (se_poll env) (Suc k) g = Inr y)")
    case False
    then have "r' = r \<and> b' = b \<and> res \<noteq> None"
      using Cons.prems(1) x
      by (cases "se_poll env k"; cases "marshalNDJSON (se_poll env) (Suc k) g") (auto dest!: sym[of "Some _"])
    then show ?thesis using Cons.prems(2) by (intro exI[of _ "{#}"]) auto
  next
    case True
    then obtain p k1 where p: "se_poll env k = None" "marshalNDJSON (se_poll env) (Suc k) g = Inr (p, k1)" by auto
    obtain r1 key where n: "newShardObjectKey hp r = (r1, key)" by fastforce
    obtain b1 res1 where w: "WriteObject env key p b = (b1, res1)" by fastforce
    have room: "objectSeq r + 1 < 2 ^ 64" using Cons.prems(4) by simp
    note f = new_key_fresh[OF Cons.prems(2) room n]
    have recs: "file_records p = map valid_record g" using payload_records[OF p(2)] Cons.prems(3) x by simp
    note we = WriteObject_effect[OF w f(1,2), unfolded recs]
    have inv1: "shard_inv (r1, b1)" by (rule shard_inv_step[OF Cons.prems(2) n room]) (use we in auto)
    show ?thesis
    proof (cases res1)
      case None
      then have "save_shards env k1 gs (r1, b1) = ((r', b'), res)" using Cons.prems(1) x p n w by simp
      then obtain part where part: "part \<subseteq># mset (map valid_record (concat (map snd gs)))" "stored_objects b' = stored_objects b1 + part"
          "res = None \<longrightarrow> part = mset (map valid_record (concat (map snd gs)))" "shard_inv (r', b')"
        using Cons.IH[OF _ inv1] Cons.prems(3,4) f(4) x by auto
      then show ?thesis using we None x by (intro exI[of _ "mset (map valid_record g) + part"]) auto
    next
      case (Some e)
      then have r: "r' = r1" "b' = b1" "res \<noteq> None" using Cons.prems(1) x p n w by auto
      from we show ?thesis
      proof
        assume "b1 = b \<and> res1 \<noteq> None"
        then show ?thesis using r inv1 by (intro exI[of _ "{#}"]) auto
      next
        assume "stored_objects b1 = stored_objects b + mset (map valid_record g) \<and> fst ` set b1 = insert key (fst ` set b)"
        then show ?thesis using r inv1 x by (intro exI[of _ "mset (map valid_record g)"]) auto
      qed
    qed
  qed
qed auto

lemma m_group_Inr:
  "m_group ctx k lp rs m = Inr g \<Longrightarrow> g = grp_all (\<lambda>r. hour_prefix lp (Timestamp r)) (map utc_record rs) m"
  by (induction ctx k lp rs m rule: m_group.induct) (auto simp: Let_def split: option.splits)

lemma length_grp_all: "length (grp_all f vs m) \<le> length vs + length m"
proof (induction f vs m rule: grp_all.induct)
  case (2 f v vs m)
  have "length (grp_add (f v) v m) \<le> Suc (length m)" for m by (induction "f v" v m rule: grp_add.induct) auto
  then show ?case using 2 by (smt (verit) add_Suc_right add_Suc grp_all.simps(2) le_trans length_Cons nat_add_left_cancel_le)
qed simp

lemma minio_SaveBatch_effect:
  assumes "minio_SaveBatch env rs (r, b) = ((r', b'), res)" "shard_inv (r, b)" "objectSeq r + int (length rs) < 2 ^ 64"
    and "list_all (\<lambda>x. wf_time (Timestamp x)) rs"
  shows "\<exists>part. part \<subseteq># mset (map readable rs) \<and> stored_objects b' = stored_objects b + part
    \<and> (res = None \<longrightarrow> part = mset (map readable rs)) \<and> shard_inv (r', b')"
proof (cases "rs = [] \<or> (\<exists>e. m_group (se_poll env) 0 (mr_logsPrefix r) rs [] = Inl e)")
  case True
  then show ?thesis using assms(1,2) by (intro exI[of _ "{#}"]) (auto simp: minio_SaveBatch_def split: if_splits)
next
  case False
  then obtain g where g: "m_group (se_poll env) 0 (mr_logsPrefix r) rs [] = Inr g" by (metis sum.exhaust)
  then have sv: "save_shards env (length rs) (sort_keys g) (r, b) = ((r', b'), res)"
    using assms(1) False by (simp add: minio_SaveBatch_def)
  note ge = m_group_Inr[OF g]
  have m: "mset (concat (map snd (sort_keys g))) = mset (map utc_record rs)"
    using mset_concat_eq[OF reordersD(1)[OF sort_keys_reorders], of snd g] ge by (simp add: mset_concat_grp_all)
  have l: "length (sort_keys g) \<le> length rs"
    using reordersD(3)[OF sort_keys_reorders, of g] length_grp_all[of _ "map utc_record rs" "[]"] ge by (metis add.right_neutral length_map list.size(3))
  have "set (concat (map snd (sort_keys g))) = utc_record ` set rs" using mset_eq_setD[OF m] by simp
  then have w: "list_all utc_wf (concat (map snd (sort_keys g)))"
    using assms(4) unfolding list_all_iff by (auto simp: utc_wf_def wf_time_def)
  have "mset (map valid_record (concat (map snd (sort_keys g)))) = mset (map readable rs)"
    using arg_cong[OF m, of "image_mset valid_record"] by (simp add: readable_def[abs_def] multiset.map_comp comp_def)
  then show ?thesis using save_shards_effect[OF sv assms(2) w] assms(3) l by auto
qed

subsection \<open>Several replicas\<close>

text \<open>Writers with their own counters share one bucket; a turn of writer \<open>i\<close> writes some of its groups. Every interleaving
  of the object writes of several batches is such a sequence of turns.\<close>

record turn =
  tn_writer :: nat
  tn_env :: store_env
  tn_poll :: nat
  tn_groups :: "(string \<times> LogRecord list) list"

fun replica_run :: "turn list \<Rightarrow> (nat \<Rightarrow> MinIORepo) \<times> bucket \<Rightarrow> ((nat \<Rightarrow> MinIORepo) \<times> bucket) \<times> goerr option list" where
  "replica_run [] st = (st, [])"
| "replica_run (t # ts) (R, b) =
     (case save_shards (tn_env t) (tn_poll t) (tn_groups t) (R (tn_writer t), b) of ((r1, b1), res) \<Rightarrow>
      case replica_run ts (R(tn_writer t := r1), b1) of (st, rest) \<Rightarrow> (st, res # rest))"

lemma save_shards_keys:
  "save_shards env k gs (r, b) = ((r', b'), res) \<Longrightarrow> 0 \<le> objectSeq r \<Longrightarrow> objectSeq r + int (length gs) < 2 ^ 64 \<Longrightarrow>
   mr_writerID r' = mr_writerID r \<and> objectSeq r' \<le> objectSeq r + int (length gs)
   \<and> (\<forall>x \<in> fst ` set b'. x \<in> fst ` set b \<or> (\<exists>hp n. 0 \<le> n \<and> x = shard_key hp (mr_writerID r) n))"
proof (induction gs arbitrary: k r b)
  case (Cons x gs)
  obtain hp g where x: "x = (hp, g)" by fastforce
  show ?case
  proof (cases "se_poll env k = None \<and> (\<exists>y. marshalNDJSON (se_poll env) (Suc k) g = Inr y)")
    case False
    then have "r' = r \<and> b' = b" using Cons.prems(1) x
      by (cases "se_poll env k"; cases "marshalNDJSON (se_poll env) (Suc k) g") auto
    then show ?thesis using Cons.prems(2) by auto
  next
    case True
    then obtain p k1 where p: "se_poll env k = None" "marshalNDJSON (se_poll env) (Suc k) g = Inr (p, k1)" by auto
    obtain r1 key where n: "newShardObjectKey hp r = (r1, key)" by fastforce
    obtain b1 res1 where w: "WriteObject env key p b = (b1, res1)" by fastforce
    have "(objectSeq r + 1) mod 2 ^ 64 = objectSeq r + 1" using Cons.prems(2,3) by simp
    then have r1: "mr_writerID r1 = mr_writerID r" "objectSeq r1 = objectSeq r + 1" "key = shard_key hp (mr_writerID r) (objectSeq r + 1)"
      using n by (auto simp: newShardObjectKey_def Let_def)
    have ks: "fst ` set (aset key v b) = insert key (fst ` set b)" for v by (induction key v b rule: aset.induct) auto
    have b1: "fst ` set b1 \<subseteq> insert key (fst ` set b)"
      using w ks by (auto simp: WriteObject_def Let_def split: write_answer.splits)
    have new: "\<exists>hp n. 0 \<le> n \<and> key = shard_key hp (mr_writerID r) n" using r1(3) Cons.prems(2) by (intro exI[of _ hp] exI[of _ "objectSeq r + 1"]) simp
    show ?thesis
    proof (cases res1)
      case None
      then have "save_shards env k1 gs (r1, b1) = ((r', b'), res)" using Cons.prems(1) x p n w by simp
      then have ih: "mr_writerID r' = mr_writerID r1" "objectSeq r' \<le> objectSeq r1 + int (length gs)"
          "\<forall>x \<in> fst ` set b'. x \<in> fst ` set b1 \<or> (\<exists>hp n. 0 \<le> n \<and> x = shard_key hp (mr_writerID r1) n)"
        using Cons.IH[of k1 r1 b1] Cons.prems(2,3) r1(2) by auto
      have "\<forall>x \<in> fst ` set b'. x \<in> fst ` set b \<or> (\<exists>hp n. 0 \<le> n \<and> x = shard_key hp (mr_writerID r) n)"
        using ih(3) b1 new unfolding r1(1) by blast
      then show ?thesis using ih(1,2) r1(1,2) by simp
    next
      case (Some e)
      then have "r' = r1" "b' = b1" using Cons.prems(1) x p n w by auto
      then show ?thesis using r1(1,2) b1 new by (simp add: subset_iff) blast
    qed
  qed
qed auto

lemma shard_inv_other:
  assumes "shard_inv (r2, b)" "\<forall>x \<in> fst ` set b'. x \<in> fst ` set b \<or> (\<exists>hp n. 0 \<le> n \<and> x = shard_key hp w n)"
    and "w \<noteq> mr_writerID r2" "slash \<notin> set w"
  shows "shard_inv (r2, b')"
proof -
  have "n \<le> objectSeq r2" if x: "x \<in> fst ` set b'" "0 \<le> n" "x = shard_key hp (mr_writerID r2) n" for x hp n
  proof -
    have "x \<in> fst ` set b"
    proof (rule ccontr)
      assume "x \<notin> fst ` set b"
      then obtain hp' m where "0 \<le> m" "x = shard_key hp' w m" using assms(2) x(1) by blast
      then show False using shard_key_inject[of hp' w m hp "mr_writerID r2" n] x(2,3) assms(1,3,4) by (simp add: shard_inv_def)
    qed
    then show ?thesis using assms(1) x(2,3) unfolding shard_inv_def fst_conv snd_conv by blast
  qed
  then show ?thesis using assms(1) unfolding shard_inv_def fst_conv snd_conv by blast
qed

lemma replica_run_effect:
  "replica_run ts (R, b) = ((R', b'), res) \<Longrightarrow> (\<And>i. shard_inv (R i, b)) \<Longrightarrow> inj (\<lambda>i. mr_writerID (R i)) \<Longrightarrow>
   (\<And>i. objectSeq (R i) + int (sum_list (map (\<lambda>t. length (tn_groups t)) ts)) < 2 ^ 64) \<Longrightarrow>
   list_all (\<lambda>t. list_all utc_wf (concat (map snd (tn_groups t)))) ts \<Longrightarrow> list_all (\<lambda>x. x = None) res \<Longrightarrow>
   stored_objects b' = stored_objects b + mset (map valid_record (concat (map (\<lambda>t. concat (map snd (tn_groups t))) ts)))"
proof (induction ts arbitrary: R b res)
  case (Cons t ts)
  let ?i = "tn_writer t" and ?g = "concat (map snd (tn_groups t))"
  obtain r1 b1 res1 where s: "save_shards (tn_env t) (tn_poll t) (tn_groups t) (R ?i, b) = ((r1, b1), res1)" by (metis prod.exhaust)
  obtain rest where run: "replica_run ts (R(?i := r1), b1) = ((R', b'), rest)" "res = res1 # rest" "res1 = None"
    using Cons.prems(1,6) s by (auto split: prod.splits)
  have room: "objectSeq (R ?i) + int (length (tn_groups t)) < 2 ^ 64" using Cons.prems(4)[of ?i] by simp
  have wf: "list_all utc_wf ?g" using Cons.prems(5) by simp
  from save_shards_effect[OF s Cons.prems(2) wf room] run(3)
  have e: "stored_objects b1 = stored_objects b + mset (map valid_record ?g)" "shard_inv (r1, b1)" by auto
  have pos: "0 \<le> objectSeq (R ?i)" "slash \<notin> set (mr_writerID (R ?i))" using Cons.prems(2)[of ?i] by (simp_all add: shard_inv_def)
  note k = save_shards_keys[OF s pos(1) room]
  have inv: "shard_inv ((R(?i := r1)) j, b1)" for j
  proof (cases "j = ?i")
    case False
    then have "mr_writerID (R ?i) \<noteq> mr_writerID (R j)" using Cons.prems(3) by (auto dest: injD)
    then show ?thesis using False shard_inv_other[OF Cons.prems(2)[of j] _ _ pos(2)] k by simp
  qed (simp add: e)
  have ids: "(\<lambda>j. mr_writerID ((R(?i := r1)) j)) = (\<lambda>j. mr_writerID (R j))" using k by auto
  have room2: "objectSeq ((R(?i := r1)) j) + int (sum_list (map (\<lambda>t. length (tn_groups t)) ts)) < 2 ^ 64" for j
    using Cons.prems(4)[of j] k by (cases "j = ?i") auto
  have "stored_objects b' = stored_objects b1 + mset (map valid_record (concat (map (\<lambda>t. concat (map snd (tn_groups t))) ts)))"
    using Cons.IH[OF run(1) inv] Cons.prems(3,5,6) room2 ids run(2) by simp
  then show ?case using e by simp
qed simp

subsection \<open>Writer identities\<close>

lemma Trim_subset: "c \<in> set (Trim s cs) \<Longrightarrow> c \<in> set s"
  unfolding Trim_def by (metis set_dropWhileD set_rev)

lemma sanitize_no_slash: "slash \<notin> set (sanitizeWriterID v)"
proof -
  have "slash \<notin> set (map id_rune cs)" for cs
    by (auto simp: id_rune_def id_char_def is_digit_def bv_def split: list.splits if_splits)
  then show ?thesis using Trim_subset[of slash "map id_rune (chunks (TrimSpace v))"] unfolding sanitizeWriterID_def Let_def by auto
qed

lemma first_id_no_slash: "slash \<notin> set (first_id cs)"
  by (induction cs) (simp_all add: sanitize_no_slash)

lemma new_writer_no_slash:
  assumes "NewMinIORepo clientErr env host pid nano opts = Inr r"
  shows "slash \<notin> set (mr_writerID r)" "objectSeq r = 0"
proof -
  have n: "slash \<notin> set (show_int k)" for k using show_int_chars[of slash k] digit_not_slash by auto
  obtain base where "mr_writerID r = base @ ''-'' @ show_int pid @ ''-'' @ show_int nano" "slash \<notin> set base"
    using assms sanitize_no_slash first_id_no_slash
    by (auto simp: NewMinIORepo_def defaultWriterID_def Let_def split: if_splits option.splits)
  then show "slash \<notin> set (mr_writerID r)" using n by auto
  show "objectSeq r = 0" using assms by (auto simp: NewMinIORepo_def Let_def split: if_splits option.splits)
qed

subsection \<open>Properties\<close>

text \<open>\<^verbatim>\<open>SaveBatch\<close> on MinIO, from a counter that does not wrap: a successful call adds exactly the batch, a failed one a part
  of it, nothing that was stored is lost, and the writer's keys stay fresh.\<close>

theorem minio_SaveBatch_adds:
  assumes "minio_SaveBatch env rs (r, b) = ((r', b'), res)" "shard_inv (r, b)" "objectSeq r + int (length rs) < 2 ^ 64"
    and "list_all (\<lambda>x. wf_time (Timestamp x)) rs"
  shows "\<exists>part. part \<subseteq># mset (map readable rs) \<and> stored_objects b' = stored_objects b + part
    \<and> (res = None \<longrightarrow> part = mset (map readable rs)) \<and> shard_inv (r', b')"
  using assms by (rule minio_SaveBatch_effect)

definition ex_store :: store_env where
  "ex_store = \<lparr>se_poll = ctx_ok, se_exists = Inr True, se_write = (\<lambda>_. Written), se_get = (\<lambda>_. None), se_read = (\<lambda>_. None),
     se_list = None, se_time = 7\<rparr>"

definition ex_repo :: "string \<Rightarrow> MinIORepo" where
  "ex_repo w = \<lparr>mr_bucket = ''b'', mr_logsPrefix = ''logs'', mr_writerID = w, objectSeq = 0\<rparr>"

lemma ex_repo_inv: "slash \<notin> set w \<Longrightarrow> shard_inv (ex_repo w, [])"
  by (simp add: shard_inv_def ex_repo_def)

lemma ex_minio_save: "snd (minio_SaveBatch ex_store ex_batch (ex_repo ''w'', [])) = None"
  by code_simp

lemma minio_SaveBatch_adds_witness:
  "stored_objects (snd (fst (minio_SaveBatch ex_store ex_batch (ex_repo ''w'', [])))) = mset (map readable ex_batch)"
proof -
  obtain r' b' where m: "minio_SaveBatch ex_store ex_batch (ex_repo ''w'', []) = ((r', b'), None)"
    using ex_minio_save by (metis prod.collapse)
  have "stored_objects b' = stored_objects [] + mset (map readable ex_batch)"
    using minio_SaveBatch_adds[OF m ex_repo_inv] by (simp add: ex_repo_def ex_batch_def list_all_iff wf_time_def)
  then show ?thesis unfolding m by (simp add: stored_objects_def)
qed

text \<open>(C30) Replicas do not overwrite each other: when writers with different identities put their objects into one bucket, in any
  interleaving, and every write succeeds, the bucket holds what it held and every record of every writer. (Appending
  by reading and rewriting one object per hour would lose updates.)\<close>

theorem replicas_lose_nothing:
  assumes "replica_run ts (R, b) = ((R', b'), res)" "\<And>i. shard_inv (R i, b)" "inj (\<lambda>i. mr_writerID (R i))"
    and "\<And>i. objectSeq (R i) + int (sum_list (map (\<lambda>t. length (tn_groups t)) ts)) < 2 ^ 64"
    and "list_all (\<lambda>t. list_all utc_wf (concat (map snd (tn_groups t)))) ts" "list_all (\<lambda>x. x = None) res"
  shows "stored_objects b' = stored_objects b + mset (map valid_record (concat (map (\<lambda>t. concat (map snd (tn_groups t))) ts)))"
  using assms by (rule replica_run_effect)

definition ex_turn :: "nat \<Rightarrow> turn" where
  "ex_turn i = \<lparr>tn_writer = i, tn_env = ex_store, tn_poll = 0, tn_groups = [(''logs/2025-01-01/00'', [hd ex_batch])]\<rparr>"

definition ex_writers :: "nat \<Rightarrow> MinIORepo" where
  "ex_writers i = ex_repo (replicate i (CHR ''w''))"

lemma replicas_lose_nothing_witness:
  "stored_objects (snd (fst (replica_run [ex_turn 0, ex_turn 1] (ex_writers, [])))) = {#hd ex_batch, hd ex_batch#}"
proof -
  obtain R' b' res where run: "replica_run [ex_turn 0, ex_turn 1] (ex_writers, []) = ((R', b'), res)" by (metis prod.exhaust)
  have h: "hd ex_batch = \<lparr>Timestamp = \<lparr>t_sec = 63871286400, t_nsec = 0, t_off = 0\<rparr>, Path = ''/a'', UserAgent = ''x''\<rparr>"
    by (simp add: ex_batch_def)
  have mr: "\<exists>d. marshal_record (hd ex_batch) = Some d"
    using marshal_record_None[of "hd ex_batch"] by (cases "marshal_record (hd ex_batch)") (auto, code_simp)
  have "list_all (\<lambda>x. x = None) res"
    using run mr by (auto simp: ex_turn_def ex_store_def WriteObject_def Let_def newShardObjectKey_def)
  moreover have "shard_inv (ex_writers i, [])" "objectSeq (ex_writers i) = 0" for i
    by (auto simp: ex_writers_def intro!: ex_repo_inv) (simp add: ex_repo_def)
  moreover have "inj (\<lambda>i. mr_writerID (ex_writers i))" by (auto simp: inj_def ex_writers_def ex_repo_def)
  moreover have "list_all (\<lambda>t. list_all utc_wf (concat (map snd (tn_groups t)))) [ex_turn 0, ex_turn 1]"
    by (simp add: ex_turn_def h utc_wf_def wf_time_def)
  ultimately have "stored_objects b' = stored_objects [] + mset (map valid_record (concat (map (\<lambda>t. concat (map snd (tn_groups t))) [ex_turn 0, ex_turn 1])))"
    using replicas_lose_nothing[OF run] by (simp add: ex_turn_def)
  moreover have "valid_record (hd ex_batch) = hd ex_batch" by (simp add: h valid_record_def to_valid_ascii bv_def)
  ultimately show ?thesis unfolding run by (simp add: stored_objects_def ex_turn_def)
qed

end
