(* ===== verification/Minio_Store.thy ===== *)
theory Minio_Store
  imports Minio_Repo Ingestion Pipeline
begin

section \<open>The MinIO repository behind the repository interface\<close>

text \<open>
  The MinIO repository keeps the contract of \<open>Repository\<close> as long as its object counter does not wrap: \<open>shard_room n\<close> says that
  the keys of this writer are fresh and \<open>n\<close> more objects can be numbered (a batch writes at most one object per record). No assumption is made
  on what the object store answers. \<open>minio_store_op\<close> is the repository as the consumer sees it, beside the file
  system that holds the dead-letter files. So direct mode and the consumer have on MinIO the guarantees they have on log files.
\<close>

definition shard_room :: "nat \<Rightarrow> MinIORepo \<times> bucket \<Rightarrow> bool" where
  "shard_room n st \<longleftrightarrow> shard_inv st \<and> objectSeq (fst st) + int n < 2 ^ 64"

definition stored_in :: "MinIORepo \<times> bucket \<Rightarrow> LogRecord multiset" where
  "stored_in st = stored_objects (snd st)"

lemma minio_SaveBatch_seq:
  assumes "minio_SaveBatch env rs (r, b) = ((r', b'), res)" "0 \<le> objectSeq r" "objectSeq r + int (length rs) < 2 ^ 64"
  shows "objectSeq r' \<le> objectSeq r + int (length rs)"
proof (cases "rs = [] \<or> (\<exists>e. m_group (se_poll env) 0 (mr_logsPrefix r) rs [] = Inl e)")
  case True
  then show ?thesis using assms(1) by (auto simp: minio_SaveBatch_def split: if_splits)
next
  case False
  then obtain g where g: "m_group (se_poll env) 0 (mr_logsPrefix r) rs [] = Inr g" by (metis sum.exhaust)
  then have sv: "save_shards env (length rs) (sort_keys g) (r, b) = ((r', b'), res)" using assms(1) False by (simp add: minio_SaveBatch_def)
  have "length (sort_keys g) \<le> length rs"
    using reordersD(3)[OF sort_keys_reorders, of g] length_grp_all[of _ "map utc_record rs" "[]"] m_group_Inr[OF g]
    by (metis add.right_neutral length_map list.size(3))
  then show ?thesis using save_shards_keys[OF sv assms(2)] assms(3) by linarith
qed

lemma minio_SaveBatch_room:
  assumes "minio_SaveBatch env rs st = (st', res)" "shard_room (n + length rs) st" "list_all time_ok rs"
  shows "shard_room n st' \<and> (\<exists>part. part \<subseteq># mset (map readable rs) \<and> stored_in st' = stored_in st + part
    \<and> (res = None \<longrightarrow> part = mset (map readable rs)))"
proof -
  obtain r b r' b' where st: "st = (r, b)" "st' = (r', b')" by (metis prod.exhaust)
  have room: "shard_inv (r, b)" "objectSeq r + int (length rs) < 2 ^ 64" "0 \<le> objectSeq r"
    using assms(2) by (auto simp: shard_room_def st shard_inv_def)
  from minio_SaveBatch_effect[OF assms(1)[unfolded st] room(1,2) assms(3)] minio_SaveBatch_seq[OF assms(1)[unfolded st] room(3,2)]
  show ?thesis using assms(2) by (auto simp: shard_room_def st stored_in_def)
qed

interpretation objects: repository minio_SaveBatch "\<lambda>_. True" "\<lambda>r. wf_time (Timestamp r)" readable shard_room stored_in
proof
  fix env rs and st st' :: "MinIORepo \<times> bucket" and n k err
  show "minio_SaveBatch env [] st = (st, None)" by (simp add: minio_SaveBatch_def)
  show "shard_room n st" if "shard_room (n + k) st" using that by (simp add: shard_room_def)
  assume wf: "list_all time_ok rs"
  show "shard_room n st' \<and> stored_in st' = stored_in st + mset (map readable rs)"
    if "shard_room (n + length rs) st" "minio_SaveBatch env rs st = (st', None)"
    using minio_SaveBatch_room[OF that(2,1) wf] by auto
  show "\<exists>part. part \<subseteq># mset (map readable rs) \<and> stored_in st' = stored_in st + part"
    if "shard_room (length rs) st" "minio_SaveBatch env rs st = (st', Some err)"
    using minio_SaveBatch_room[OF that(2) _ wf, of 0] that(1) by auto
qed

definition minio_store_op :: "(store_env, MinIORepo \<times> bucket) save_op" where
  "minio_store_op env rs st = (case st of (rb, fs) \<Rightarrow> case minio_SaveBatch env rs rb of (rb1, res) \<Rightarrow> ((rb1, fs), res))"

interpretation object_store: consumer_store minio_store_op "\<lambda>_. True" "\<lambda>r. wf_time (Timestamp r)" readable
  "\<lambda>n st. shard_room n (fst st)" "\<lambda>st. stored_in (fst st)" "\<lambda>_. True"
proof
  fix env rs and st st' :: "(MinIORepo \<times> bucket) \<times> fsys" and n k err res
  show "minio_store_op env [] st = (st, None)" by (simp add: minio_store_op_def objects.save_empty split: prod.splits)
  show "shard_room n (fst st)" if "shard_room (n + k) (fst st)" using that by (rule objects.inv_less)
  have op: "minio_SaveBatch env rs (fst st) = (fst st', res)" if "minio_store_op env rs st = (st', res)" for res
    using that by (auto simp: minio_store_op_def split: prod.splits)
  assume wf: "list_all time_ok rs"
  show "shard_room n (fst st') \<and> stored_in (fst st') = stored_in (fst st) + mset (map readable rs)"
    if "shard_room (n + length rs) (fst st)" "minio_store_op env rs st = (st', None)"
    by (rule objects.save_ok[OF _ that(1) wf op[OF that(2)]]) simp
  show "\<exists>part. part \<subseteq># mset (map readable rs) \<and> stored_in (fst st') = stored_in (fst st) + part"
    if "shard_room (length rs) (fst st)" "minio_store_op env rs st = (st', Some err)"
    by (rule objects.save_err[OF _ that(1) wf op[OF that(2)]]) simp
  show "shard_room n (fst st')" if "shard_room (n + length rs) (fst st)" "minio_store_op env rs st = (st', res)"
    using minio_SaveBatch_room[OF op[OF that(2)] that(1) wf] by blast
qed simp

subsection \<open>Properties\<close>

text \<open>(C7) The consumer on MinIO implements at-least-once delivery too, whatever the object store answers, as long as the object counter
  has room for the messages taken: every run is a run of the delivery specification, a committed offset is that of a saved message, and the
  bucket holds what it held, every saved message, and of failed batches at most their records.\<close>

theorem minio_consumer_refines_delivery:
  assumes "cm_reach minio_store_op (\<lambda>_. True) time_ok (fst (newConsumerWriter cfg)) (cm_init (newConsumerWriter cfg) ((r, b), fs)) S"
    and "shard_inv (r, b)" "objectSeq r + int (size (cm_received S)) < 2 ^ 64"
  shows "dl_reach readable (cm_abs (\<lambda>st. stored_in (fst st)) (cm_init (newConsumerWriter cfg) ((r, b), fs))) (cm_abs (\<lambda>st. stored_in (fst st)) S)
    \<and> set (cm_commits S) \<subseteq> tag ` set_mset (cm_saved S)
    \<and> stored_objects b + recs readable (cm_saved S) \<subseteq># stored_in (fst (cm_store S))
    \<and> stored_in (fst (cm_store S)) \<subseteq># stored_objects b + recs readable (cm_saved S) + recs readable (cm_failed S)"
proof -
  have room: "shard_room (size (cm_received S)) (fst ((r, b), fs))" using assms(2,3) by (simp add: shard_room_def)
  have run: "cm_reach minio_store_op (\<lambda>e. True \<and> True) time_ok (fst (newConsumerWriter cfg)) (cm_init (newConsumerWriter cfg) ((r, b), fs)) S"
    using assms(1) by simp
  show ?thesis using object_store.consumer_sim(1,2)[OF run room] by (simp add: dl_inv_def cm_abs_def stored_in_def)
qed

definition minio_fine :: "store_env persist_env" where
  "minio_fine = \<lparr>pe_save = (\<lambda>_. ex_store), pe_commit = (\<lambda>_ _. None), pe_os = os_fine 7, pe_now = (\<lambda>_. zero_time)\<rparr>"

lemma minio_consumer_refines_delivery_witness:
  "\<exists>S. cm_reach minio_store_op (\<lambda>_. True) time_ok (fst (newConsumerWriter one_writer)) (cm_init (newConsumerWriter one_writer) ((ex_repo ''w'', []), ex_fs)) S
     \<and> cm_saved S = {#msg_at 0 2 ''/b''#} \<and> recs readable {#msg_at 0 2 ''/b''#} \<subseteq># stored_in (fst (cm_store S))"
proof -
  let ?m = "msg_at 0 2 ''/b''" and ?st = "((ex_repo ''w'', []), ex_fs)"
  have tm: "time_ok (Record ?m)" by (simp add: msg_at_def wf_time_def)
  have "snd (minio_SaveBatch ex_store [Record ?m] (ex_repo ''w'', [])) = None" by code_simp
  then obtain rb where "minio_SaveBatch ex_store [Record ?m] (ex_repo ''w'', []) = (rb, None)" by (metis prod.collapse)
  then have sv: "minio_store_op (pe_save minio_fine False) [Record ?m] ?st = ((rb, ex_fs), None)" by (simp add: minio_store_op_def minio_fine_def)
  obtain S where S: "cm_reach minio_store_op (\<lambda>_. True) time_ok (fst (newConsumerWriter one_writer)) (cm_init (newConsumerWriter one_writer) ?st) S"
      "cm_received S = {#?m#}" "cm_saved S = {#?m#}"
    by (rule one_message_run[where save = minio_store_op and env = minio_fine and ok = "\<lambda>_. True" and rok = time_ok, OF sv TrueI tm])
  have "stored_objects [] + recs readable (cm_saved S) \<subseteq># stored_in (fst (cm_store S))"
    using minio_consumer_refines_delivery[OF S(1) ex_repo_inv] S(2) by (simp add: ex_repo_def)
  then show ?thesis using S by (auto simp: stored_objects_def)
qed

end
