(* ===== verification/Readiness.thy ===== *)
theory Readiness
  imports Handler Kafka_Queue Minio_Repo
begin

section \<open>Readiness and small endpoints (cmd/bootstrap/app.go)\<close>

text \<open>
  The checks behind \<^verbatim>\<open>GET /ready\<close> and the endpoints \<^verbatim>\<open>/ready\<close>, \<^verbatim>\<open>/version\<close> and \<^verbatim>\<open>/health\<close>. A check works on the file
  system, the Kafka queue and the metrics; the answers of the operating system for the probe file are the record
  \<open>probe_env\<close> (\<open>pr_name\<close> is the random part of the name that \<^verbatim>\<open>os.CreateTemp\<close> picks). Only the headers that the code sets
  are in a response.
\<close>

record probe_env =
  pr_os :: os_env
  pr_tempErr :: "goerr option"
  pr_name :: string
  pr_closeErr :: "goerr option"
  pr_removeErr :: "goerr option"

text \<open>\<^verbatim>\<open>os.Stat\<close> as far as the check asks: whether the path is a directory.\<close>

definition stat_isDir :: "os_env \<Rightarrow> string \<Rightarrow> fsys \<Rightarrow> bool result" where
  "stat_isDir os p fs =
     (case stat_err os p of
        Some e \<Rightarrow> Inl e
      | None \<Rightarrow> if p \<in> set (fs_dirs fs) then Inr True
                else case fs_file fs p of Some _ \<Rightarrow> Inr False | None \<Rightarrow> Inl ENOENT)"

definition temp_path :: "string \<Rightarrow> string \<Rightarrow> string" where
  "temp_path dir name = (if dir \<noteq> [] \<and> last dir = slash then dir @ ''.ready-'' @ name else dir @ slash # ''.ready-'' @ name)"

definition CreateTemp :: "probe_env \<Rightarrow> string \<Rightarrow> fsys \<Rightarrow> fsys \<times> string result" where
  "CreateTemp env dir fs =
     (case pr_tempErr env of
        Some e \<Rightarrow> (fs, Inl e)
      | None \<Rightarrow> (fs_put (temp_path dir (pr_name env)) [] (clock (pr_os env)) fs, Inr (temp_path dir (pr_name env))))"

definition Remove :: "probe_env \<Rightarrow> string \<Rightarrow> fsys \<Rightarrow> fsys \<times> goerr option" where
  "Remove env p fs =
     (case pr_removeErr env of
        Some e \<Rightarrow> (fs, Some e)
      | None \<Rightarrow> (fs\<lparr>fs_files := filter (\<lambda>x. fst x \<noteq> p) (fs_files fs)\<rparr>, None))"

definition checkWritableDir :: "probe_env \<Rightarrow> string \<Rightarrow> fsys \<Rightarrow> fsys \<times> goerr option" where
  "checkWritableDir env raw fs =
     (let path = TrimSpace raw; info = stat_isDir (pr_os env) path fs in
      if path = [] then (fs, Some (ErrMsg ''storage path is empty''))
      else if info = Inr False then (fs, Some (ErrMsg (''storage path '' @ qstr path @ '' is not a directory'')))
      else if (case info of Inl e \<Rightarrow> \<not> IsNotExist e | Inr _ \<Rightarrow> False)
      then (fs, Some (wrap (''stat storage path '' @ qstr path @ '': '') (projl info)))
      else case MkdirAll (pr_os env) path fs of
             (fs1, Some e) \<Rightarrow> (fs1, Some (wrap (''ensure storage directory '' @ qstr path @ '': '') e))
           | (fs1, None) \<Rightarrow>
               (case CreateTemp env path fs1 of
                  (fs2, Inl e) \<Rightarrow> (fs2, Some (wrap (''create temp file in '' @ qstr path @ '': '') e))
                | (fs2, Inr tempPath) \<Rightarrow>
                    (case pr_closeErr env of
                       Some e \<Rightarrow> (fst (Remove env tempPath fs2), Some (wrap (''close temp file in '' @ qstr path @ '': '') e))
                     | None \<Rightarrow>
                         (case Remove env tempPath fs2 of
                            (fs3, Some e) \<Rightarrow> (fs3, Some (wrap (''remove temp file '' @ qstr tempPath @ '': '') e))
                          | (fs3, None) \<Rightarrow> (fs3, None)))))"

fun runReadinessChecks :: "('s \<Rightarrow> 's \<times> goerr option) option list \<Rightarrow> 's \<Rightarrow> 's \<times> goerr option" where
  "runReadinessChecks [] st = (st, None)"
| "runReadinessChecks (None # checks) st = runReadinessChecks checks st"
| "runReadinessChecks (Some check # checks) st =
     (case check st of
        (st1, Some e) \<Rightarrow> (st1, Some e)
      | (st1, None) \<Rightarrow> runReadinessChecks checks st1)"

text \<open>The checks that \<^verbatim>\<open>BuildApp\<close> registers.\<close>

datatype ready_check = WritableDir string | BucketReady MinIORepo | KafkaReachable

record ready_env =
  rd_probe :: "string \<Rightarrow> probe_env"
  rd_store :: store_env
  rd_dial :: "string \<Rightarrow> goerr option"
  rd_ctx :: ctx

type_synonym ready_state = "fsys \<times> KafkaLogQueue \<times> obs"

fun ready_op :: "ready_env \<Rightarrow> ready_check \<Rightarrow> ready_state \<Rightarrow> ready_state \<times> goerr option" where
  "ready_op env (WritableDir d) (fs, q, ob) = (case checkWritableDir (rd_probe env d) d fs of (fs1, res) \<Rightarrow> ((fs1, q, ob), res))"
| "ready_op env (BucketReady r) (fs, q, ob) = ((fs, q, ob), CheckReady (rd_store env) r)"
| "ready_op env KafkaReachable (fs, q, ob) = (case CheckConnectivity (rd_dial env) (rd_ctx env) (q, ob) of ((q1, ob1), res) \<Rightarrow> ((fs, q1, ob1), res))"

definition method_not_allowed :: response where
  "method_not_allowed = http_error [(''Allow'', ''GET'')] ''method not allowed'' 405"

definition handle_ready :: "ready_env \<Rightarrow> ready_check list \<Rightarrow> request \<Rightarrow> ready_state \<Rightarrow> ready_state \<times> response" where
  "handle_ready env checks r st =
     (if req_method r \<noteq> ''GET'' then (st, method_not_allowed)
      else case runReadinessChecks (map (\<lambda>c. Some (ready_op env c)) checks) st of
             (st1, Some e) \<Rightarrow> (st1, http_error [] ''not ready'' 503)
           | (st1, None) \<Rightarrow> (st1, \<lparr>status = 200, resp_headers = [], resp_body = ''ready''\<rparr>))"

record BuildInfo =
  bi_Version :: string
  bi_Commit :: string
  bi_BuildDate :: string

definition normalizeBuildInfo :: "BuildInfo \<Rightarrow> BuildInfo" where
  "normalizeBuildInfo info =
     info\<lparr>bi_Version := (if TrimSpace (bi_Version info) = [] then ''dev'' else bi_Version info),
       bi_Commit := (if TrimSpace (bi_Commit info) = [] then ''none'' else bi_Commit info),
       bi_BuildDate := (if TrimSpace (bi_BuildDate info) = [] then ''unknown'' else bi_BuildDate info)\<rparr>"

definition handle_version :: "BuildInfo \<Rightarrow> int \<Rightarrow> request \<Rightarrow> response" where
  "handle_version info pipelineMode r =
     (if req_method r \<noteq> ''GET'' then method_not_allowed
      else \<lparr>status = 200, resp_headers = [(''Content-Type'', ''application/json'')],
             resp_body = CHR ''{'' # quote ''version'' @ '':'' @ quote (bi_Version info) @ '','' @ quote ''commit'' @ '':'' @ quote (bi_Commit info)
               @ '','' @ quote ''buildDate'' @ '':'' @ quote (bi_BuildDate info) @ '','' @ quote ''pipelineMode'' @ '':'' @ show_int pipelineMode
               @ ''}'' @ [newline]\<rparr>)"

definition handle_health :: "request \<Rightarrow> response" where
  "handle_health r = \<lparr>status = 200, resp_headers = [], resp_body = ''ok''\<rparr>"

subsection \<open>Lemmas\<close>

text \<open>\<^verbatim>\<open>os.CreateTemp\<close> opens with \<^verbatim>\<open>O_EXCL\<close>: the name it picks did not exist.\<close>

definition fresh_probe :: "probe_env \<Rightarrow> string \<Rightarrow> fsys \<Rightarrow> bool" where
  "fresh_probe env raw fs \<longleftrightarrow> fs_file fs (temp_path (TrimSpace raw) (pr_name env)) = None"

lemma fs_file_filter: "fs_file (fs\<lparr>fs_files := filter (\<lambda>x. fst x \<noteq> p) (fs_files fs)\<rparr>) q = (if q = p then None else fs_file fs q)"
proof -
  have "alookup (filter (\<lambda>x. fst x \<noteq> p) m) q = (if q = p then None else alookup m q)" for m :: "(string \<times> fdata) list"
    by (induction m) auto
  then show ?thesis by (simp add: fs_file_def)
qed

lemma MkdirAll_files: "MkdirAll os p fs = (fs', r) \<Longrightarrow> fs_file fs' q = fs_file fs q"
  by (auto simp: MkdirAll_def split: option.splits)

text \<open>What a probe that succeeds needs, and what it leaves; \<open>probe_taken\<close>: the operating system created, closed and removed the file.\<close>

definition probe_taken :: "probe_env \<Rightarrow> bool" where
  "probe_taken env \<longleftrightarrow> pr_tempErr env = None \<and> pr_closeErr env = None \<and> pr_removeErr env = None"

lemma checkWritableDir_ok:
  assumes "checkWritableDir env raw fs = (fs', None)" "fresh_probe env raw fs"
  shows "TrimSpace raw \<noteq> []" "TrimSpace raw \<in> set (fs_dirs fs')" "fs_file fs' q = fs_file fs q" "probe_taken env"
proof -
  let ?p = "TrimSpace raw" and ?t = "temp_path (TrimSpace raw) (pr_name env)"
  show "?p \<noteq> []" using assms(1) by (auto simp: checkWritableDir_def Let_def split: if_splits)
  obtain fs1 where m: "MkdirAll (pr_os env) ?p fs = (fs1, None)"
      "fs' = (fs_put ?t [] (clock (pr_os env)) fs1)\<lparr>fs_files := filter (\<lambda>x. fst x \<noteq> ?t) (fs_files (fs_put ?t [] (clock (pr_os env)) fs1))\<rparr>"
    using assms(1) by (auto simp: checkWritableDir_def CreateTemp_def Remove_def Let_def split: if_splits prod.splits option.splits sum.splits)
  show "?p \<in> set (fs_dirs fs')" using m by (auto simp: MkdirAll_def split: option.splits if_splits)
  show "fs_file fs' q = fs_file fs q"
    unfolding m(2) fs_file_filter using assms(2) MkdirAll_files[OF m(1), of q] by (simp add: fresh_probe_def)
  show "probe_taken env"
    using assms(1) by (auto simp: probe_taken_def checkWritableDir_def CreateTemp_def Remove_def Let_def split: if_splits prod.splits option.splits sum.splits)
qed

lemma checkWritableDir_dirs: "checkWritableDir env raw fs = (fs', res) \<Longrightarrow> set (fs_dirs fs) \<subseteq> set (fs_dirs fs')"
  by (auto simp: checkWritableDir_def CreateTemp_def Remove_def MkdirAll_def Let_def split: if_splits prod.splits option.splits sum.splits)

text \<open>What a registered check establishes when it succeeds.\<close>

fun holds :: "ready_env \<Rightarrow> KafkaLogQueue \<Rightarrow> ready_check \<Rightarrow> fsys \<Rightarrow> bool" where
  "holds env q (WritableDir d) fs \<longleftrightarrow> TrimSpace d \<noteq> [] \<and> TrimSpace d \<in> set (fs_dirs fs) \<and> probe_taken (rd_probe env d)"
| "holds env q (BucketReady r) fs \<longleftrightarrow> BucketExists (rd_store env) = Inr True"
| "holds env q KafkaReachable fs \<longleftrightarrow> list_ex (\<lambda>b. rd_dial env b = None) (kq_brokers q)"

lemma holds_mono: "holds env q c fs \<Longrightarrow> set (fs_dirs fs) \<subseteq> set (fs_dirs fs') \<Longrightarrow> holds env q c fs'"
  by (cases c) auto

lemma dial_loop_ok:
  "dial_loop dial ctx i bs le (q, ob) = ((q', ob'), None) \<Longrightarrow> list_ex (\<lambda>b. dial b = None) bs \<and> kq_brokers q' = kq_brokers q"
  by (induction dial ctx i bs le "(q, ob)" rule: dial_loop.induct) (auto split: option.splits)

lemma ready_op_ok:
  assumes "ready_op env c (fs, q, ob) = ((fs', q', ob'), None)" "case c of WritableDir d \<Rightarrow> fresh_probe (rd_probe env d) d fs | _ \<Rightarrow> True"
  shows "holds env q c fs' \<and> kq_brokers q' = kq_brokers q \<and> (\<forall>p. fs_file fs' p = fs_file fs p) \<and> set (fs_dirs fs) \<subseteq> set (fs_dirs fs')"
proof (cases c)
  case (WritableDir d)
  then have w: "checkWritableDir (rd_probe env d) d fs = (fs', None)" "q' = q" using assms(1) by (auto split: prod.splits)
  then show ?thesis using checkWritableDir_ok[OF w(1)] checkWritableDir_dirs[OF w(1)] assms(2) WritableDir by simp
next
  case (BucketReady r)
  then show ?thesis using assms(1) by (auto simp: CheckReady_def split: sum.splits bool.splits)
next
  case KafkaReachable
  then have "CheckConnectivity (rd_dial env) (rd_ctx env) (q, ob) = ((q', ob'), None)" "fs' = fs" using assms(1) by (auto split: prod.splits)
  then show ?thesis using KafkaReachable dial_loop_ok by (auto simp: CheckConnectivity_def split: if_splits)
qed

lemma checks_ok:
  "runReadinessChecks (map (\<lambda>c. Some (ready_op env c)) checks) (fs, q, ob) = ((fs', q', ob'), None) \<Longrightarrow>
   (\<And>d. WritableDir d \<in> set checks \<Longrightarrow> fresh_probe (rd_probe env d) d fs) \<Longrightarrow>
   list_all (\<lambda>c. holds env q c fs') checks \<and> (\<forall>p. fs_file fs' p = fs_file fs p) \<and> set (fs_dirs fs) \<subseteq> set (fs_dirs fs')"
proof (induction checks arbitrary: fs q ob)
  case (Cons c checks)
  obtain fs1 q1 ob1 where c: "ready_op env c (fs, q, ob) = ((fs1, q1, ob1), None)"
      and rest: "runReadinessChecks (map (\<lambda>c. Some (ready_op env c)) checks) (fs1, q1, ob1) = ((fs', q', ob'), None)"
    using Cons.prems(1) by (auto split: prod.splits option.splits)
  have h: "holds env q c fs1 \<and> kq_brokers q1 = kq_brokers q \<and> (\<forall>p. fs_file fs1 p = fs_file fs p) \<and> set (fs_dirs fs) \<subseteq> set (fs_dirs fs1)"
    by (rule ready_op_ok[OF c]) (use Cons.prems(2) in \<open>auto split: ready_check.splits\<close>)
  then have "\<And>d. WritableDir d \<in> set checks \<Longrightarrow> fresh_probe (rd_probe env d) d fs1" using Cons.prems(2) by (simp add: fresh_probe_def)
  from Cons.IH[OF rest this] have ih: "list_all (\<lambda>c. holds env q1 c fs') checks" "\<forall>p. fs_file fs' p = fs_file fs1 p" "set (fs_dirs fs1) \<subseteq> set (fs_dirs fs')"
    by blast+
  have "holds env q1 c' fs' = holds env q c' fs'" for c' using h by (cases c') auto
  then show ?case using h ih holds_mono[of env q c fs1 fs'] by auto
qed simp

subsection \<open>Properties\<close>

text \<open>(C34) A 200 answer of \<^verbatim>\<open>/ready\<close> means that the request was a GET and that every registered check held: the directories exist
  and the operating system created, closed and removed a probe file in each of them, the bucket exists, a Kafka broker answered; and the probes leave no file behind and change none.\<close>

theorem ready_means_ready:
  assumes "handle_ready env checks r (fs, q, ob) = ((fs', q', ob'), resp)" "status resp = 200"
    and "\<And>d. WritableDir d \<in> set checks \<Longrightarrow> fresh_probe (rd_probe env d) d fs"
  shows "req_method r = ''GET'' \<and> list_all (\<lambda>c. holds env q c fs') checks \<and> (\<forall>p. fs_file fs' p = fs_file fs p)"
proof -
  have g: "req_method r = ''GET''" using assms(1,2) by (auto simp: handle_ready_def method_not_allowed_def http_error_def split: if_splits)
  then have "runReadinessChecks (map (\<lambda>c. Some (ready_op env c)) checks) (fs, q, ob) = ((fs', q', ob'), None)"
    using assms(1,2) by (auto simp: handle_ready_def http_error_def split: prod.splits option.splits)
  then show ?thesis using g checks_ok assms(3) by blast
qed

definition ex_ready :: ready_env where
  "ex_ready = \<lparr>rd_probe = (\<lambda>_. \<lparr>pr_os = os_fine 3, pr_tempErr = None, pr_name = ''1'', pr_closeErr = None, pr_removeErr = None\<rparr>),
     rd_store = ex_store, rd_dial = (\<lambda>_. None), rd_ctx = ctx_ok\<rparr>"

lemma ready_means_ready_witness:
  "\<exists>fs' q' ob'. handle_ready ex_ready [WritableDir ''analytics'', BucketReady (ex_repo ''w''), KafkaReachable] (ex_req\<lparr>req_method := ''GET''\<rparr>)
       (ex_fs, ex_queue, obs0) = ((fs', q', ob'), \<lparr>status = 200, resp_headers = [], resp_body = ''ready''\<rparr>)
     \<and> ''analytics'' \<in> set (fs_dirs fs') \<and> fs_file fs' ''analytics/.ready-1'' = None"
proof -
  let ?c = "[WritableDir ''analytics'', BucketReady (ex_repo ''w''), KafkaReachable]"
  have t: "TrimSpace ''analytics'' = ''analytics''" by code_simp
  have "snd (handle_ready ex_ready ?c (ex_req\<lparr>req_method := ''GET''\<rparr>) (ex_fs, ex_queue, obs0)) = \<lparr>status = 200, resp_headers = [], resp_body = ''ready''\<rparr>"
    by code_simp
  then obtain fs' q' ob' where h: "handle_ready ex_ready ?c (ex_req\<lparr>req_method := ''GET''\<rparr>) (ex_fs, ex_queue, obs0) =
      ((fs', q', ob'), \<lparr>status = 200, resp_headers = [], resp_body = ''ready''\<rparr>)" by (metis prod.collapse)
  have f: "fresh_probe (rd_probe ex_ready d) d ex_fs" for d by (simp add: fresh_probe_def ex_fs_def fs_file_def)
  show ?thesis using ready_means_ready[OF h] f h t by (auto simp: ex_fs_def fs_file_def)
qed

end
