(* ===== verification/Aggregation.thy ===== *)
theory Aggregation
  imports File_Repo Metrics "HOL-Library.List_Lexorder" "HOL-Library.Char_ord"
begin

section \<open>Hourly aggregation of the log files (service/aggregation.go)\<close>

text \<open>
  \<open>aggregateFile\<close> counts the records of an hour's file per path and per user agent and writes the
  summary, unless the summary is at least as new as the log file. \<open>AggregateAll\<close> does so for every file that
  \<^verbatim>\<open>filepath.WalkDir\<close> reports; what the walk reports (\<open>walk_entry\<close>) is the operating system's answer
  and an argument. The number of the next context poll is passed along. The scan (\<open>scan_hour\<close>) and
  the writing of the summary (\<open>writeSummary\<close>) are separate definitions, as other goroutines
  append to the log file in between.
\<close>

record AggregationService =
  logsDir :: string
  analyticsDir :: string
  interval :: int

definition NewAggregationService :: "string \<Rightarrow> string \<Rightarrow> int \<Rightarrow> AggregationService" where
  "NewAggregationService ld ad iv = \<lparr>logsDir = ld, analyticsDir = ad, interval = iv\<rparr>"

datatype walk_entry = WErr string goerr | WDir string | WFile string

record agg_env =
  ae_ctx :: ctx
  ae_os :: os_env

type_synonym counts = "(string \<times> nat) list"

definition max_line :: int where
  "max_line = 1024 * 1024"

definition summaryPath :: "AggregationService \<Rightarrow> gotime \<Rightarrow> string" where
  "summaryPath a hourStart =
     (let dateDirAnalytics = Join [analyticsDir a, format_date hourStart]
      in Join [dateDirAnalytics, ''summary_'' @ format_hour hourStart @ ''.json''])"

definition parseHourFromPath :: "AggregationService \<Rightarrow> string \<Rightarrow> gotime option" where
  "parseHourFromPath a p =
     (case Rel (logsDir a) p of
        None \<Rightarrow> None
      | Some rel \<Rightarrow>
          let dateDir = Dir rel; base = Base rel in
          if dateDir = ''.'' then None
          else if \<not> HasSuffix base ''.log.json'' then None
          else let hourStr = TrimSuffix base ''.log.json'' in
            (case parse_date dateDir of
               None \<Rightarrow> None
             | Some (y, m, d) \<Rightarrow>
                 (case parse_hour hourStr of None \<Rightarrow> None | Some h \<Rightarrow> Some (mk_time y m d h 0 0 0))))"

subsection \<open>The summary file\<close>

text \<open>\<^verbatim>\<open>json.MarshalIndent(summary, "", "  ")\<close>: the keys of a map are sorted.\<close>

definition marshal_counts :: "counts \<Rightarrow> string" where
  "marshal_counts m = json_object 1 (map (\<lambda>(k, n). (k, show_nat n)) (sort_key fst m))"

definition summary_json :: "gotime \<Rightarrow> counts \<Rightarrow> counts \<Rightarrow> string" where
  "summary_json hourStart perPath perUserAgent =
     json_object 0 [(''hour'', quote (format_rfc3339 hourStart)), (''requestsPerPath'', marshal_counts perPath),
       (''requestsPerUserAgent'', marshal_counts perUserAgent)]"

definition writeSummary ::
  "AggregationService \<Rightarrow> os_env \<Rightarrow> gotime \<Rightarrow> counts \<Rightarrow> counts \<Rightarrow> fsys \<Rightarrow> fsys \<times> goerr option" where
  "writeSummary a os hourStart perPath perUserAgent fs =
     (case MkdirAll os (Dir (summaryPath a hourStart)) fs of
        (fs1, Some e) \<Rightarrow> (fs1, Some (wrap ''create analytics directory: '' e))
      | (fs1, None) \<Rightarrow>
          (case WriteFile os (summaryPath a hourStart) (summary_json hourStart perPath perUserAgent) fs1 of
             (fs2, Some e) \<Rightarrow> (fs2, Some (wrap ''write summary: '' e))
           | (fs2, None) \<Rightarrow> (fs2, None)))"

subsection \<open>Counting\<close>

record tally =
  perPath :: counts
  perUA :: counts
  polls :: nat
  tobs :: obs

fun count_loop :: "ctx \<Rightarrow> string list \<Rightarrow> tally \<Rightarrow> tally \<times> goerr option" where
  "count_loop ctx [] t = (t, None)"
| "count_loop ctx (l # ls) t =
     (case ctx (polls t) of
        Some e \<Rightarrow> (t\<lparr>polls := polls t + 2\<rparr>, Some e)
      | None \<Rightarrow>
          (case unmarshal_record l of
             None \<Rightarrow> count_loop ctx ls (t\<lparr>polls := polls t + 1,
               tobs := log_msg LWarn ''skip malformed log record'' [F ''error'' (FErr (JsonErr l))] (tobs t)\<rparr>)
           | Some r \<Rightarrow> count_loop ctx ls (t\<lparr>polls := polls t + 1, perPath := bump (Path r) (perPath t),
               perUA := bump (UserAgent r) (perUA t)\<rparr>)))"

text \<open>The first half of \<^verbatim>\<open>aggregateFile\<close>: stat, up-to-date check, open, scan. \<open>Skip\<close> is a return
  without error and without a summary.\<close>

datatype scan_out = Skip | Fail goerr | Counted

definition scan_hour :: "AggregationService \<Rightarrow> agg_env \<Rightarrow> string \<Rightarrow> gotime \<Rightarrow> fsys \<Rightarrow> nat \<Rightarrow> obs \<Rightarrow> tally \<times> scan_out" where
  "scan_hour a env p hourStart fs k ob =
     (let t0 = \<lparr>perPath = [], perUA = [], polls = k, tobs = ob\<rparr>; os = ae_os env in
      case Stat os p fs of
        Inl e \<Rightarrow> (t0, if IsNotExist e then Skip else Fail (wrap ''stat log file: '' e))
      | Inr fileTime \<Rightarrow>
          if (case Stat os (summaryPath a hourStart) fs of Inl _ \<Rightarrow> False | Inr summaryTime \<Rightarrow> \<not> summaryTime < fileTime)
          then (t0, Skip)
          else (case Open os p fs of
                  Inl e \<Rightarrow> (t0, if IsNotExist e then Skip else Fail (wrap ''open log file: '' e))
                | Inr content \<Rightarrow>
                    (case scan_handle max_line os p content of (tokens, scanErr) \<Rightarrow>
                     case count_loop (ae_ctx env) tokens t0 of
                       (t, Some e) \<Rightarrow> (t, Fail e)
                     | (t, None) \<Rightarrow> (t, case scanErr of None \<Rightarrow> Counted | Some e \<Rightarrow> Fail (wrap ''scan log file: '' e)))))"

record agg_state =
  as_fs :: fsys
  as_poll :: nat
  as_obs :: obs

definition aggregateFile :: "AggregationService \<Rightarrow> agg_env \<Rightarrow> string \<Rightarrow> gotime \<Rightarrow> agg_state \<Rightarrow> agg_state \<times> goerr option" where
  "aggregateFile a env p hourStart st =
     (case scan_hour a env p hourStart (as_fs st) (as_poll st) (as_obs st) of
        (t, out) \<Rightarrow>
          let st1 = st\<lparr>as_poll := polls t, as_obs := tobs t\<rparr> in
          (case out of
             Skip \<Rightarrow> (st1, None)
           | Fail e \<Rightarrow> (st1, Some e)
           | Counted \<Rightarrow>
               (case writeSummary a (ae_os env) hourStart (perPath t) (perUA t) (as_fs st) of
                  (fs', res) \<Rightarrow> (st1\<lparr>as_fs := fs'\<rparr>, res))))"

definition AggregateHour :: "AggregationService \<Rightarrow> agg_env \<Rightarrow> gotime \<Rightarrow> agg_state \<Rightarrow> agg_state \<times> goerr option" where
  "AggregateHour a env ts st =
     (case ae_ctx env (as_poll st) of
        Some e \<Rightarrow> (st\<lparr>as_poll := as_poll st + 1\<rparr>, Some e)
      | None \<Rightarrow>
          let hourStart = TruncateHour (UTC ts)
          in aggregateFile a env (hour_path (logsDir a) hourStart) hourStart (st\<lparr>as_poll := as_poll st + 1\<rparr>))"

definition AggregateCurrentHour :: "AggregationService \<Rightarrow> agg_env \<Rightarrow> gotime \<Rightarrow> agg_state \<Rightarrow> agg_state \<times> goerr option" where
  "AggregateCurrentHour a env now st = AggregateHour a env (UTC now) st"

text \<open>The callback of the walk: the new state, and the error that ends the walk.\<close>

fun visit :: "AggregationService \<Rightarrow> agg_env \<Rightarrow> walk_entry \<Rightarrow> agg_state \<Rightarrow> agg_state \<times> goerr option" where
  "visit a env (WErr p e) st =
     (st\<lparr>as_obs := log_msg LWarn ''skip path during aggregation walk'' [F ''path'' (FStr p), F ''error'' (FErr e)] (as_obs st)\<rparr>, None)"
| "visit a env (WDir p) st = (st, None)"
| "visit a env (WFile p) st =
     (if \<not> HasSuffix (Base p) ''.log.json'' then (st, None)
      else case ae_ctx env (as_poll st) of
             Some e \<Rightarrow> (st\<lparr>as_poll := as_poll st + 2\<rparr>, Some e)
           | None \<Rightarrow>
               let st1 = st\<lparr>as_poll := as_poll st + 1\<rparr> in
               (case parseHourFromPath a p of
                  None \<Rightarrow> (st1\<lparr>as_obs := log_msg LWarn ''skip unexpected log path'' [F ''path'' (FStr p)] (as_obs st1)\<rparr>, None)
                | Some hourStart \<Rightarrow>
                    (case aggregateFile a env p hourStart st1 of
                       (st2, None) \<Rightarrow> (st2, None)
                     | (st2, Some e) \<Rightarrow> (st2\<lparr>as_obs := log_msg LError ''aggregate hour failed''
                           [F ''path'' (FStr p), F ''error'' (FErr e)] (as_obs st2)\<rparr>, None))))"

fun AggregateAll :: "AggregationService \<Rightarrow> agg_env \<Rightarrow> walk_entry list \<Rightarrow> agg_state \<Rightarrow> agg_state \<times> goerr option" where
  "AggregateAll a env [] st = (st, None)"
| "AggregateAll a env (w # ws) st =
     (case visit a env w st of
        (st1, Some e) \<Rightarrow> (st1, Some e)
      | (st1, None) \<Rightarrow> AggregateAll a env ws st1)"

definition agg_run :: "AggregationService \<Rightarrow> agg_env \<Rightarrow> walk_entry list \<Rightarrow> agg_state \<Rightarrow> agg_state" where
  "agg_run a env ws st =
     (case AggregateAll a env ws st of (st1, res) \<Rightarrow>
        let st2 = (case res of None \<Rightarrow> st1
                   | Some e \<Rightarrow> st1\<lparr>as_obs := log_msg LError ''aggregation run failed'' [F ''error'' (FErr e)] (as_obs st1)\<rparr>)
        in st2\<lparr>as_obs := IncAggregationRuns (as_obs st2)\<rparr>)"

text \<open>The loop of \<^verbatim>\<open>Start\<close>: one run at startup, one per tick until the context is done. An event is a tick
  with what the walk then reports, or the end of the context.\<close>

datatype agg_event = Tick agg_env "walk_entry list" | CtxDone

fun ticks :: "AggregationService \<Rightarrow> agg_event list \<Rightarrow> agg_state \<Rightarrow> agg_state" where
  "ticks a [] st = st"
| "ticks a (CtxDone # evs) st = st"
| "ticks a (Tick env ws # evs) st = ticks a evs (agg_run a env ws (st\<lparr>as_poll := 0\<rparr>))"

definition agg_Start :: "AggregationService \<Rightarrow> agg_env \<Rightarrow> walk_entry list \<Rightarrow> agg_event list \<Rightarrow> agg_state \<Rightarrow> agg_state" where
  "agg_Start a env ws evs st = ticks a evs (agg_run a env ws (st\<lparr>as_poll := 0\<rparr>))"

subsection \<open>Specification vocabulary\<close>

text \<open>The records the scanner finds in a log file, the summary they call for, and an operating system that
  refuses nothing.\<close>

definition hour_records :: "string \<Rightarrow> LogRecord list" where
  "hour_records s = line_records (map drop_cr (raw_lines s))"

definition summary_of :: "gotime \<Rightarrow> LogRecord list \<Rightarrow> string" where
  "summary_of h rs = summary_json h (bump_all (map Path rs) []) (bump_all (map UserAgent rs) [])"

definition os_ok :: "os_env \<Rightarrow> bool" where
  "os_ok os \<longleftrightarrow> (\<forall>p. mkdir_err os p = None \<and> stat_err os p = None \<and> open_err os p = None \<and> read_err os p = None
     \<and> (\<forall>i. write_out os p i = None))"

definition short_lines :: "string \<Rightarrow> bool" where
  "short_lines s \<longleftrightarrow> list_all (\<lambda>l. int (length l) < max_line) (raw_lines s)"

definition json_time :: "gotime \<Rightarrow> bool" where
  "json_time t \<longleftrightarrow> 0 \<le> Year t \<and> Year t \<le> 9999 \<and> t_off t = 0"

subsection \<open>Lemmas\<close>

lemma os_ok_fine [simp]: "os_ok (os_fine now)"
  by (simp add: os_ok_def os_fine_def)

lemma count_loop_ok:
  assumes "\<forall>i. ctx i = None"
  shows "\<exists>t'. count_loop ctx ls t = (t', None) \<and> perPath t' = bump_all (map Path (line_records ls)) (perPath t)
    \<and> perUA t' = bump_all (map UserAgent (line_records ls)) (perUA t)"
  using assms by (induction ctx ls t rule: count_loop.induct) (auto split: option.splits)

lemma parseHour_hour_path:
  assumes "json_time t"
  shows "parseHourFromPath a (hour_path (logsDir a) t) = Some (TruncateHour t)"
proof -
  let ?d = "format_date t" and ?h = "format_hour t @ ''.log.json''"
  note pl = plain_format_date[of t] plain_format_hour(1)[of t]
  have rel: "Rel (logsDir a) (hour_path (logsDir a) t) = Some (?d @ slash # ?h)"
    using Rel_Join[of "[?d, ?h]" "logsDir a"] pl by (simp add: hour_path_def)
  have db: "Dir (?d @ slash # ?h) = ?d" "Base (?d @ slash # ?h) = ?h" using pl by (rule Dir_Base_two)+
  have nd: "?d \<noteq> ''.''" using pl(1) by (auto simp: plain_comp_def)
  have p: "parse_date ?d = Some (civil_of_days (day_of t))" using assms parse_date_format by (simp add: json_time_def)
  show ?thesis
    using TruncateHour_Hour[of t] assms nd
    by (simp add: parseHourFromPath_def rel db p parse_hour_format json_time_def Let_def split: prod.splits)
qed

lemma scan_lines_ok: "short_lines s \<Longrightarrow> scan_lines max_line s = (map drop_cr (raw_lines s), None)"
  by (simp add: short_lines_def scan_lines_def scan_tokens_ok list_all_iff)

lemma writeSummary_ok:
  assumes "os_ok os"
  shows "\<exists>fs'. writeSummary a os h P U fs = (fs', None)"
  using assms by (simp add: writeSummary_def MkdirAll_def WriteFile_def os_ok_def)

lemma writeSummary_effect:
  assumes "writeSummary a os h P U fs = (fs', res)"
  shows "q \<noteq> summaryPath a h \<Longrightarrow> fs_file fs' q = fs_file fs q"
    "res = None \<Longrightarrow> fs_file fs' (summaryPath a h) = Some \<lparr>fcontent = summary_json h P U, fmtime = clock os\<rparr>"
  using assms by (auto simp: writeSummary_def MkdirAll_def WriteFile_def split: option.splits if_splits)

text \<open>Only the summary of the hour can change.\<close>

lemma aggregateFile_frame:
  assumes "aggregateFile a env p h st = (st', res)" "q \<noteq> summaryPath a h"
  shows "fs_file (as_fs st') q = fs_file (as_fs st) q"
  using assms writeSummary_effect(1)
  by (fastforce simp: aggregateFile_def Let_def split: prod.splits scan_out.splits)

definition up_to_date :: "fsys \<Rightarrow> string \<Rightarrow> fdata \<Rightarrow> bool" where
  "up_to_date fs sp f \<longleftrightarrow> (case fs_file fs sp of None \<Rightarrow> False | Some s \<Rightarrow> fmtime f \<le> fmtime s)"

lemma scan_hour_counted:
  assumes "os_ok (ae_os env)" "\<forall>i. ae_ctx env i = None" "fs_file fs p = Some f" "short_lines (fcontent f)"
    and "\<not> up_to_date fs (summaryPath a h) f"
  shows "\<exists>t. scan_hour a env p h fs k ob = (t, Counted)
    \<and> perPath t = bump_all (map Path (hour_records (fcontent f))) []
    \<and> perUA t = bump_all (map UserAgent (hour_records (fcontent f))) []"
proof -
  let ?t0 = "\<lparr>perPath = [], perUA = [], polls = k, tobs = ob\<rparr>"
  obtain t where t: "count_loop (ae_ctx env) (map drop_cr (raw_lines (fcontent f))) ?t0 = (t, None)"
      "perPath t = bump_all (map Path (hour_records (fcontent f))) []"
      "perUA t = bump_all (map UserAgent (hour_records (fcontent f))) []"
    using count_loop_ok[OF assms(2), of "map drop_cr (raw_lines (fcontent f))" ?t0] by (auto simp: hour_records_def)
  have "scan_hour a env p h fs k ob = (t, Counted)"
    using assms t(1) scan_lines_ok[OF assms(4)]
    by (auto simp: scan_hour_def Stat_def Open_def os_ok_def up_to_date_def Let_def split: option.splits)
  then show ?thesis using t by blast
qed

lemma aggregateFile_ok:
  assumes "os_ok (ae_os env)" "\<forall>i. ae_ctx env i = None" "fs_file (as_fs st) p = Some f" "short_lines (fcontent f)"
  shows "\<exists>st'. aggregateFile a env p h st = (st', None) \<and> fs_file (as_fs st') (summaryPath a h) =
    (if up_to_date (as_fs st) (summaryPath a h) f then fs_file (as_fs st) (summaryPath a h)
     else Some \<lparr>fcontent = summary_of h (hour_records (fcontent f)), fmtime = clock (ae_os env)\<rparr>)"
proof (cases "up_to_date (as_fs st) (summaryPath a h) f")
  case True
  then show ?thesis using assms
    by (auto simp: aggregateFile_def scan_hour_def Stat_def os_ok_def up_to_date_def Let_def split: option.splits)
next
  case False
  obtain t where t: "scan_hour a env p h (as_fs st) (as_poll st) (as_obs st) = (t, Counted)"
      "perPath t = bump_all (map Path (hour_records (fcontent f))) []"
      "perUA t = bump_all (map UserAgent (hour_records (fcontent f))) []"
    using scan_hour_counted[OF assms False] by blast
  obtain fs' where w: "writeSummary a (ae_os env) h (perPath t) (perUA t) (as_fs st) = (fs', None)"
    using writeSummary_ok[OF assms(1)] by blast
  then show ?thesis
    using writeSummary_effect(2)[OF w] False t by (auto simp: aggregateFile_def Let_def summary_of_def)
qed

text \<open>Names of log files and of summaries.\<close>

lemma Base_last:
  assumes "plain_comp h" "u = [] \<or> last u = slash"
  shows "Base (u @ h) = h"
proof -
  obtain x h' where hx: "rev h = x # h'" "x \<noteq> slash"
    using assms(1) by (cases "rev h") (auto simp: plain_comp_def)
  then have r: "rev (dropWhile (\<lambda>c. c = slash) (rev (u @ h))) = u @ h" by (simp add: rev_swap)
  have "last (split_on slash (u @ h)) = h"
  proof (cases "u = []")
    case True
    then show ?thesis using assms(1) by (simp add: split_on_no_sep plain_comp_def)
  next
    case False
    then obtain v where "u = v @ [slash]" using assms(2) by (metis append_butlast_last_id)
    then show ?thesis using assms(1) by (simp add: split_on_append_sep split_on_no_sep plain_comp_def)
  qed
  moreover have "u @ h \<noteq> []" using hx by auto
  ultimately show ?thesis using r by (auto simp: Base_def split: list.splits)
qed

lemma join_with_snoc: "\<exists>u. join_with c (cs @ [h]) = u @ h \<and> (u = [] \<or> last u = c)"
proof (induction cs)
  case (Cons x cs)
  then obtain u where "join_with c (cs @ [h]) = u @ h" "u = [] \<or> last u = c" by blast
  then show ?case by (cases "cs @ [h]") (auto intro!: exI[of _ "x @ c # u"] simp: Cons_eq_append_conv last_append)
qed simp

lemma Base_hour_path: "Base (hour_path base t) = format_hour t @ ''.log.json''"
proof -
  let ?h = "format_hour t @ ''.log.json''"
  obtain u where u: "join_with slash (comps base @ [format_date t, ?h]) = u @ ?h" "u = [] \<or> last u = slash"
    using join_with_snoc[of slash "comps base @ [format_date t]" ?h] by auto
  have "\<exists>v. hour_path base t = v @ ?h \<and> (v = [] \<or> last v = slash)"
    unfolding hour_path_path_of path_of_def u(1)
    by (cases "is_rooted base") (use u in \<open>auto intro!: exI[of _ "slash # u"] exI[of _ u]\<close>)
  then show ?thesis using Base_last[OF plain_format_hour(1)] by metis
qed

lemma plain_summary: "plain_comp (''summary_'' @ format_hour t @ ''.json'')"
proof -
  have "slash \<notin> set (format_hour t)" using plain_format_hour(2)[of t] by (simp add: plain_comp_def)
  then show ?thesis by (auto simp: plain_comp_def)
qed

lemma comps_summaryPath:
  "comps (summaryPath a h) = comps (analyticsDir a) @ [format_date h, ''summary_'' @ format_hour h @ ''.json'']"
proof -
  let ?d = "Join [analyticsDir a, format_date h]" and ?s = "''summary_'' @ format_hour h @ ''.json''"
  have c1: "clean_list (is_rooted (analyticsDir a)) (comps (analyticsDir a) @ [format_date h])"
    using comps_clean plain_format_date by (intro clean_list_append) auto
  have d: "?d = path_of (is_rooted (analyticsDir a)) (comps (analyticsDir a) @ [format_date h])"
    using Join_plain[of "[format_date h]" "analyticsDir a"] plain_format_date[of h] by simp
  have cd: "comps ?d = comps (analyticsDir a) @ [format_date h]" unfolding d by (rule comps_path_of[OF c1])
  have "summaryPath a h = path_of (is_rooted ?d) (comps ?d @ [?s])"
    unfolding summaryPath_def Let_def using plain_summary[of h] by (intro Join_plain) auto
  moreover have "clean_list (is_rooted ?d) (comps ?d @ [?s])"
    using comps_clean plain_summary by (intro clean_list_append) auto
  ultimately show ?thesis using comps_path_of cd by simp
qed

lemma summaryPath_not_hour: "summaryPath a h \<noteq> hour_path base t"
proof
  assume "summaryPath a h = hour_path base t"
  then have "last (comps (summaryPath a h)) = last (comps (hour_path base t))" by simp
  then have eq: "''summary_'' @ format_hour h @ ''.json'' = format_hour t @ ''.log.json''"
    by (simp add: comps_summaryPath comps_hour_path)
  obtain c s where c: "format_hour t = c # s" using show_int_pad_Cons[of 2 "Hour t"] by (auto simp: format_hour_def)
  then have "is_digit c \<or> c = CHR ''-''" using show_int_pad_chars[of c 2 "Hour t"] by (simp add: format_hour_def)
  moreover have "c = CHR ''s''" using eq c by simp
  ultimately show False by (simp add: is_digit_def bv_def)
qed

lemma summaryPath_inj:
  assumes "json_time h" "json_time k" "summaryPath a (TruncateHour h) = summaryPath a (TruncateHour k)"
  shows "TruncateHour h = TruncateHour k"
proof -
  have "format_date (TruncateHour h) = format_date (TruncateHour k)" "format_hour (TruncateHour h) = format_hour (TruncateHour k)"
    using arg_cong[OF assms(3), of comps] by (simp_all add: comps_summaryPath)
  then have "format_date h = format_date k" "format_hour h = format_hour k"
    using assms(1,2) TruncateHour_fields by (simp_all add: json_time_def format_date_def format_hour_def)
  then have "civil_of_days (day_of h) = civil_of_days (day_of k)" "Hour h = Hour k"
    using parse_date_format[of h] parse_date_format[of k] parse_hour_format[of h] parse_hour_format[of k] assms(1,2)
    by (simp_all add: json_time_def)
  then show ?thesis using TruncateHour_Hour[of h] TruncateHour_Hour[of k] assms(1,2) by (simp add: json_time_def)
qed

subsection \<open>The walk\<close>

text \<open>An entry of the walk is expected when it is not a log file or the log file of an hour.\<close>

definition entry_ok :: "AggregationService \<Rightarrow> walk_entry \<Rightarrow> bool" where
  "entry_ok a w \<longleftrightarrow> (case w of WFile p \<Rightarrow> HasSuffix (Base p) ''.log.json'' \<longrightarrow> (\<exists>t. json_time t \<and> p = hour_path (logsDir a) t)
     | _ \<Rightarrow> True)"

lemma visit_total: "\<forall>i. ae_ctx env i = None \<Longrightarrow> \<exists>st'. visit a env w st = (st', None)"
  by (cases w) (auto simp: Let_def split: option.splits prod.splits)

lemma visit_frame:
  assumes "visit a env w st = (st', res)" "entry_ok a w"
    and "\<And>t. json_time t \<Longrightarrow> w = WFile (hour_path (logsDir a) t) \<Longrightarrow> q \<noteq> summaryPath a (TruncateHour t)"
  shows "fs_file (as_fs st') q = fs_file (as_fs st) q"
proof (cases w)
  case (WFile p)
  show ?thesis
  proof (cases "HasSuffix (Base p) ''.log.json''")
    case True
    then obtain t where t: "json_time t" "p = hour_path (logsDir a) t" using assms(2) WFile by (auto simp: entry_ok_def)
    then have q: "q \<noteq> summaryPath a (TruncateHour t)" using assms(3) WFile by auto
    show ?thesis
    proof (cases "ae_ctx env (as_poll st)")
      case None
      obtain st2 r2 where g: "aggregateFile a env p (TruncateHour t) (st\<lparr>as_poll := as_poll st + 1\<rparr>) = (st2, r2)" by fastforce
      have "as_fs st' = as_fs st2"
        using assms(1) True None g parseHour_hour_path[OF t(1), of a] t(2) WFile by (auto simp: Let_def split: option.splits)
      then show ?thesis using aggregateFile_frame[OF g q] by simp
    qed (use assms(1) True WFile in auto)
  qed (use assms(1) WFile in auto)
qed (use assms(1) in auto)

lemma AggregateAll_frame:
  assumes "AggregateAll a env ws st = (st', res)" "\<forall>w \<in> set ws. entry_ok a w"
    and "\<And>t. json_time t \<Longrightarrow> WFile (hour_path (logsDir a) t) \<in> set ws \<Longrightarrow> q \<noteq> summaryPath a (TruncateHour t)"
  shows "fs_file (as_fs st') q = fs_file (as_fs st) q"
  using assms
proof (induction ws arbitrary: st)
  case (Cons w ws)
  obtain st1 r1 where v: "visit a env w st = (st1, r1)" by fastforce
  have "fs_file (as_fs st1) q = fs_file (as_fs st) q"
    by (rule visit_frame[OF v]) (use Cons.prems in auto)
  moreover have "fs_file (as_fs st') q = fs_file (as_fs st1) q"
  proof (cases r1)
    case None
    then have n: "AggregateAll a env ws st1 = (st', res)" using Cons.prems(1) v by simp
    show ?thesis by (rule Cons.IH[OF n]) (use Cons.prems in auto)
  qed (use Cons.prems(1) v in auto)
  ultimately show ?case by simp
qed simp

lemma AggregateAll_total: "\<forall>i. ae_ctx env i = None \<Longrightarrow> \<exists>st'. AggregateAll a env ws st = (st', None)"
proof (induction ws arbitrary: st)
  case (Cons w ws)
  obtain st1 where "visit a env w st = (st1, None)" using visit_total[OF Cons.prems] by blast
  then show ?case using Cons by simp
qed simp

lemma AggregateAll_hour:
  assumes os: "os_ok (ae_os env)" "\<forall>i. ae_ctx env i = None"
    and ws: "\<forall>w \<in> set ws. entry_ok a w" "distinct ws" "WFile (hour_path (logsDir a) t) \<in> set ws" "json_time t"
    and f: "fs_file (as_fs st) (hour_path (logsDir a) t) = Some f" "short_lines (fcontent f)"
    and st': "AggregateAll a env ws st = (st', None)"
  shows "fs_file (as_fs st') (summaryPath a (TruncateHour t)) =
    (if up_to_date (as_fs st) (summaryPath a (TruncateHour t)) f then fs_file (as_fs st) (summaryPath a (TruncateHour t))
     else Some \<lparr>fcontent = summary_of (TruncateHour t) (hour_records (fcontent f)), fmtime = clock (ae_os env)\<rparr>)"
  using ws f st'
proof (induction ws arbitrary: st)
  case (Cons w ws)
  let ?p = "hour_path (logsDir a) t" and ?s = "summaryPath a (TruncateHour t)"
  obtain st1 where v: "visit a env w st = (st1, None)" using visit_total[OF os(2)] by blast
  then have rest: "AggregateAll a env ws st1 = (st', None)" using Cons.prems(7) by simp
  show ?case
  proof (cases "w = WFile ?p")
    case True
    obtain st2 where g: "aggregateFile a env ?p (TruncateHour t) (st\<lparr>as_poll := as_poll st + 1\<rparr>) = (st2, None)"
      "fs_file (as_fs st2) ?s = (if up_to_date (as_fs st) ?s f then fs_file (as_fs st) ?s
         else Some \<lparr>fcontent = summary_of (TruncateHour t) (hour_records (fcontent f)), fmtime = clock (ae_os env)\<rparr>)"
      using aggregateFile_ok[OF os, of "st\<lparr>as_poll := as_poll st + 1\<rparr>" ?p f a "TruncateHour t"] Cons.prems(5,6) by auto
    have "st1 = st2"
      using v True g(1) os(2) parseHour_hour_path[OF Cons.prems(4)] by (simp add: Base_hour_path Let_def flip: append.assoc)
    moreover have "fs_file (as_fs st') ?s = fs_file (as_fs st1) ?s"
    proof (rule AggregateAll_frame[OF rest])
      show "\<forall>w \<in> set ws. entry_ok a w" using Cons.prems(1) by simp
      fix u assume u: "json_time u" "WFile (hour_path (logsDir a) u) \<in> set ws"
      have "TruncateHour u \<noteq> TruncateHour t"
        using u Cons.prems(2,4) True hour_path_same[of u t "logsDir a"] by (auto simp: json_time_def)
      then show "?s \<noteq> summaryPath a (TruncateHour u)" using summaryPath_inj u(1) Cons.prems(4) by metis
    qed
    ultimately show ?thesis using g(2) by simp
  next
    case False
    have eo: "entry_ok a w" using Cons.prems(1) by simp
    have sp: "fs_file (as_fs st1) ?s = fs_file (as_fs st) ?s"
    proof (rule visit_frame[OF v eo])
      fix u assume u: "json_time u" "w = WFile (hour_path (logsDir a) u)"
      have "TruncateHour u \<noteq> TruncateHour t"
        using u Cons.prems(4) False hour_path_same[of u t "logsDir a"] by (auto simp: json_time_def)
      then show "?s \<noteq> summaryPath a (TruncateHour u)" using summaryPath_inj u(1) Cons.prems(4) by metis
    qed
    have "fs_file (as_fs st1) ?p = fs_file (as_fs st) ?p"
      by (rule visit_frame[OF v eo]) (use summaryPath_not_hour in metis)
    then show ?thesis
      using Cons.IH[OF _ _ _ Cons.prems(4) _ Cons.prems(6) rest] Cons.prems sp False by (simp add: up_to_date_def)
  qed
qed simp

lemma visit_keeps_logs:
  "visit a env w st = (st', res) \<Longrightarrow> fs_file (as_fs st') (hour_path base t) = fs_file (as_fs st) (hour_path base t)"
proof (cases w)
  case (WFile p)
  assume v: "visit a env w st = (st', res)"
  show ?thesis
  proof (cases "parseHourFromPath a p")
    case None
    then show ?thesis using v WFile by (auto simp: Let_def split: if_splits option.splits)
  next
    case (Some h)
    obtain st2 r2 where g: "aggregateFile a env p h (st\<lparr>as_poll := as_poll st + 1\<rparr>) = (st2, r2)" by fastforce
    have "fs_file (as_fs st2) (hour_path base t) = fs_file (as_fs st) (hour_path base t)"
      using aggregateFile_frame[OF g, of "hour_path base t"] summaryPath_not_hour[of a h base t] by simp
    then show ?thesis using v WFile Some g by (auto simp: Let_def split: if_splits option.splits)
  qed
qed auto

lemma count_loop_runs: "count_loop ctx ls t = (t', res) \<Longrightarrow> aggregationRuns (tobs t') = aggregationRuns (tobs t)"
  by (induction ctx ls t rule: count_loop.induct) (auto simp: obs_simps split: option.splits)

lemma aggregateFile_runs:
  assumes "aggregateFile a env p h st = (st', res)"
  shows "aggregationRuns (as_obs st') = aggregationRuns (as_obs st)"
proof -
  obtain t out where sc: "scan_hour a env p h (as_fs st) (as_poll st) (as_obs st) = (t, out)" by fastforce
  have "aggregationRuns (tobs t) = aggregationRuns (as_obs st)"
    using sc by (auto simp: scan_hour_def Let_def dest!: count_loop_runs split: sum.splits if_splits prod.splits option.splits)
  moreover have "as_obs st' = tobs t"
    using assms sc by (auto simp: aggregateFile_def Let_def split: scan_out.splits prod.splits)
  ultimately show ?thesis by simp
qed

lemma visit_runs: "visit a env w st = (st', res) \<Longrightarrow> aggregationRuns (as_obs st') = aggregationRuns (as_obs st)"
  by (cases w) (fastforce simp: Let_def obs_simps dest: aggregateFile_runs split: if_splits option.splits prod.splits)+

lemma AggregateAll_runs: "AggregateAll a env ws st = (st', res) \<Longrightarrow> aggregationRuns (as_obs st') = aggregationRuns (as_obs st)"
  by (induction a env ws st rule: AggregateAll.induct) (auto dest: visit_runs split: prod.splits option.splits)

lemma agg_run_runs: "aggregationRuns (as_obs (agg_run a env ws st)) = aggregationRuns (as_obs st) + 1"
  using AggregateAll_runs[of a env ws st]
  by (auto simp: agg_run_def Let_def obs_simps split: prod.splits option.splits)

fun is_tick :: "agg_event \<Rightarrow> bool" where
  "is_tick (Tick _ _) = True"
| "is_tick CtxDone = False"

lemma ticks_runs: "aggregationRuns (as_obs (ticks a evs st)) = aggregationRuns (as_obs st) + length (takeWhile is_tick evs)"
  by (induction a evs st rule: ticks.induct) (auto simp: agg_run_runs)

subsection \<open>Properties\<close>

definition ex_svc :: AggregationService where
  "ex_svc = NewAggregationService ''logs'' ''analytics'' (60 * 1000000000)"

definition ex_agg :: agg_env where
  "ex_agg = \<lparr>ae_ctx = ctx_ok, ae_os = os_fine 9\<rparr>"

definition ex_time :: gotime where
  "ex_time = \<lparr>t_sec = 63871286401, t_nsec = 0, t_off = 0\<rparr>"

text \<open>A log file with one record and one line that is not JSON.\<close>

definition ex_log :: string where
  "ex_log = lines_of (take 1 ex_batch) @ ''nonsense'' @ [newline]"

definition ex_state :: agg_state where
  "ex_state = \<lparr>as_fs = \<lparr>fs_files = [(hour_path ''logs'' ex_time, \<lparr>fcontent = ex_log, fmtime = 7\<rparr>)], fs_dirs = []\<rparr>,
     as_poll = 0, as_obs = obs0\<rparr>"

lemma ex_agg_facts [simp]:
  "os_ok (ae_os ex_agg)" "\<forall>i. ae_ctx ex_agg i = None" "json_time ex_time" "logsDir ex_svc = ''logs''"
  "fs_file (as_fs ex_state) (hour_path ''logs'' ex_time) = Some \<lparr>fcontent = ex_log, fmtime = 7\<rparr>"
proof -
  show "json_time ex_time" by code_simp
qed (simp_all add: ex_agg_def ex_svc_def NewAggregationService_def ex_state_def fs_file_def)

lemma ex_entry [simp]: "entry_ok ex_svc (WFile (hour_path ''logs'' ex_time))"
  by (auto simp: entry_ok_def intro!: exI[of _ ex_time])

lemma ex_short [simp]: "short_lines ex_log"
  by code_simp

lemma ex_not_done [simp]: "\<not> up_to_date (as_fs ex_state) (summaryPath ex_svc (TruncateHour ex_time)) \<lparr>fcontent = ex_log, fmtime = 7\<rparr>"
  using summaryPath_not_hour[of ex_svc "TruncateHour ex_time" "''logs''" ex_time]
  by (auto simp: up_to_date_def ex_state_def fs_file_def split: option.splits)

text \<open>(C35) A run of \<^verbatim>\<open>AggregateAll\<close> over the log files of distinct hours ends without error and leaves, for every
  hour whose lines fit the scanner's buffer, a summary that counts the records of its log file per path and per
  user agent, unless the summary was already at least as new as the log file, which is then kept.\<close>

theorem AggregateAll_summaries:
  assumes "os_ok (ae_os env)" "\<forall>i. ae_ctx env i = None"
    and "\<forall>w \<in> set ws. entry_ok a w" "distinct ws" "WFile (hour_path (logsDir a) t) \<in> set ws" "json_time t"
    and "fs_file (as_fs st) (hour_path (logsDir a) t) = Some f" "short_lines (fcontent f)"
  shows "\<exists>st' P U. AggregateAll a env ws st = (st', None)
    \<and> fs_file (as_fs st') (summaryPath a (TruncateHour t)) =
        (if up_to_date (as_fs st) (summaryPath a (TruncateHour t)) f then fs_file (as_fs st) (summaryPath a (TruncateHour t))
         else Some \<lparr>fcontent = summary_json (TruncateHour t) P U, fmtime = clock (ae_os env)\<rparr>)
    \<and> (\<forall>k. acount P k = length (filter (\<lambda>r. Path r = k) (hour_records (fcontent f))))
    \<and> (\<forall>k. acount U k = length (filter (\<lambda>r. UserAgent r = k) (hour_records (fcontent f))))"
proof -
  have cl: "count_list (map g rs) k = length (filter (\<lambda>r. g r = k) rs)" for g :: "LogRecord \<Rightarrow> string" and rs k
    by (induction rs) auto
  obtain st' where st': "AggregateAll a env ws st = (st', None)" using AggregateAll_total[OF assms(2)] by blast
  show ?thesis
    using AggregateAll_hour[OF assms st'] st'
    by (intro exI[of _ st'] exI[of _ "bump_all (map Path (hour_records (fcontent f))) []"]
        exI[of _ "bump_all (map UserAgent (hour_records (fcontent f))) []"]) (simp add: summary_of_def cl)
qed

lemma AggregateAll_summaries_witness:
  "\<exists>st' P U. AggregateAll ex_svc ex_agg [WFile (hour_path ''logs'' ex_time)] ex_state = (st', None)
    \<and> fs_content (as_fs st') (summaryPath ex_svc (TruncateHour ex_time)) = summary_json (TruncateHour ex_time) P U
    \<and> acount P ''/a'' = length (filter (\<lambda>r. Path r = ''/a'') (hour_records ex_log))"
proof -
  obtain st' P U where "AggregateAll ex_svc ex_agg [WFile (hour_path ''logs'' ex_time)] ex_state = (st', None)"
      "fs_file (as_fs st') (summaryPath ex_svc (TruncateHour ex_time)) =
         Some \<lparr>fcontent = summary_json (TruncateHour ex_time) P U, fmtime = clock (ae_os ex_agg)\<rparr>"
      "acount P ''/a'' = length (filter (\<lambda>r. Path r = ''/a'') (hour_records ex_log))"
    using AggregateAll_summaries[of ex_agg "[WFile (hour_path ''logs'' ex_time)]" ex_svc ex_time ex_state
        "\<lparr>fcontent = ex_log, fmtime = 7\<rparr>"] by (auto simp del: AggregateAll.simps)
  then show ?thesis unfolding fs_content_def by (metis (mono_tags, lifting) fdata.select_convs(1) option.case(2))
qed

text \<open>(C36) The hour that \<^verbatim>\<open>parseHourFromPath\<close> reads from the path the file repository made for a timestamp is
  that timestamp's hour, for every base directory and every year JSON can represent.\<close>

theorem parseHourFromPath_hour_path:
  assumes "json_time t"
  shows "parseHourFromPath a (hour_path (logsDir a) t) = Some (TruncateHour t)"
  using assms by (rule parseHour_hour_path)

lemma parseHourFromPath_hour_path_witness:
  "parseHourFromPath ex_svc (hour_path ''logs'' ex_time) = Some (TruncateHour ex_time)"
  using parseHourFromPath_hour_path[of ex_time ex_svc] by simp

text \<open>Aggregation never changes a log file, whatever the walk reports and whatever fails.\<close>

theorem AggregateAll_keeps_logs:
  "fs_file (as_fs (fst (AggregateAll a env ws st))) (hour_path base t) = fs_file (as_fs st) (hour_path base t)"
proof (induction ws arbitrary: st)
  case (Cons w ws)
  obtain st1 r1 where v: "visit a env w st = (st1, r1)" by fastforce
  show ?case using visit_keeps_logs[OF v, of base t] Cons[of st1] v by (auto split: option.splits)
qed simp

text \<open>(C37) A line of 1 MiB or more makes the hour fail with the scanner's error, and no summary is written, whatever
  other records the hour has.\<close>

theorem aggregate_long_line_fails:
  assumes "os_ok (ae_os env)" "\<forall>i. ae_ctx env i = None" "fs_file (as_fs st) p = Some f"
    and "l \<in> set (raw_lines (fcontent f))" "max_line \<le> int (length l)"
    and "\<not> up_to_date (as_fs st) (summaryPath a h) f"
  shows "\<exists>st' . aggregateFile a env p h st = (st', Some (wrap ''scan log file: '' ErrTooLong)) \<and> as_fs st' = as_fs st"
proof -
  obtain ts where ts: "scan_lines max_line (fcontent f) = (ts, Some ErrTooLong)"
    using scan_tokens_long[OF assms(4,5)] by (metis scan_lines_def prod.collapse)
  obtain t where t: "count_loop (ae_ctx env) ts \<lparr>perPath = [], perUA = [], polls = as_poll st, tobs = as_obs st\<rparr> = (t, None)"
    using count_loop_ok[OF assms(2)] by blast
  have "scan_hour a env p h (as_fs st) (as_poll st) (as_obs st) = (t, Fail (wrap ''scan log file: '' ErrTooLong))"
    using assms ts t by (auto simp: scan_hour_def Stat_def Open_def os_ok_def up_to_date_def Let_def split: option.splits)
  then show ?thesis by (simp add: aggregateFile_def)
qed

lemma aggregate_long_line_fails_witness:
  "\<exists>st'. aggregateFile ex_svc ex_agg ''x'' ex_time
      \<lparr>as_fs = \<lparr>fs_files = [(''x'', \<lparr>fcontent = replicate (nat max_line) CHR ''a'', fmtime = 7\<rparr>)], fs_dirs = []\<rparr>,
        as_poll = 0, as_obs = obs0\<rparr> = (st', Some (wrap ''scan log file: '' ErrTooLong))"
proof -
  let ?s = "replicate (nat max_line) CHR ''a''"
  have "newline \<notin> set ?s" by simp
  then have "raw_lines ?s = [?s]" by (simp add: raw_lines_def split_on_no_sep max_line_def)
  moreover have "summaryPath ex_svc ex_time \<noteq> ''x''" by code_simp
  ultimately show ?thesis
    by (intro ex_forward[OF aggregate_long_line_fails[where l = ?s and f = "\<lparr>fcontent = ?s, fmtime = 7\<rparr>"]])
      (auto simp: fs_file_def up_to_date_def max_line_def)
qed

text \<open>(C38) A summary can go stale for good. When records are appended to an hour's file after it was scanned and
  before its summary is written, the summary counts only the records of the scan, and as it is not older than the
  log file every later run skips the hour until the next append.\<close>

theorem stale_summary_is_kept:
  assumes scan: "scan_hour a env p h fs k ob = (t, Counted)" "\<forall>i. ae_ctx env i = None" "fs_file fs p = Some f"
    and appended: "fs_file fs1 p = Some f1" "fmtime f1 \<le> clock os1" "p \<noteq> summaryPath a h"
    and written: "writeSummary a os1 h (perPath t) (perUA t) fs1 = (fs2, None)"
    and later: "\<forall>q. stat_err (ae_os env2) q = None"
  shows "fs_content fs2 (summaryPath a h) = summary_of h (hour_records (fcontent f))
    \<and> snd (scan_hour a env2 p h fs2 k2 ob2) = Skip"
proof
  have op: "Open (ae_os env) p fs = Inr (fcontent f)"
    using scan(1,3) by (auto simp: scan_hour_def Stat_def Open_def Let_def split: sum.splits option.splits if_splits)
  obtain ts e where sh: "scan_handle max_line (ae_os env) p (fcontent f) = (ts, e)" by fastforce
  have cnt: "count_loop (ae_ctx env) ts \<lparr>perPath = [], perUA = [], polls = k, tobs = ob\<rparr> = (t, None)" "e = None"
    using scan(1) op sh by (auto simp: scan_hour_def Let_def split: sum.splits option.splits if_splits prod.splits)
  have ts: "scan_lines max_line (fcontent f) = (ts, None)" using scan_handle_ok sh cnt(2) by blast
  have sl: "short_lines (fcontent f)"
    using ts scan_tokens_result[of max_line "raw_lines (fcontent f)"]
    by (auto simp: short_lines_def scan_lines_def list_all_iff split: if_splits)
  then have "ts = map drop_cr (raw_lines (fcontent f))" using ts scan_lines_ok[of "fcontent f"] by simp
  then have "perPath t = bump_all (map Path (hour_records (fcontent f))) []"
      "perUA t = bump_all (map UserAgent (hour_records (fcontent f))) []"
    using cnt(1) count_loop_ok[OF scan(2), of ts "\<lparr>perPath = [], perUA = [], polls = k, tobs = ob\<rparr>"]
    by (auto simp: hour_records_def)
  then show "fs_content fs2 (summaryPath a h) = summary_of h (hour_records (fcontent f))"
    using writeSummary_effect(2)[OF written] by (simp add: fs_content_def summary_of_def)
  have "fs_file fs2 p = Some f1" using writeSummary_effect(1)[OF written] appended by simp
  then show "snd (scan_hour a env2 p h fs2 k2 ob2) = Skip"
    using writeSummary_effect(2)[OF written] appended(2) later by (simp add: scan_hour_def Stat_def Let_def)
qed

lemma stale_summary_is_kept_witness:
  "\<exists>t fs2. scan_hour ex_svc ex_agg (hour_path ''logs'' ex_time) ex_time (as_fs ex_state) 0 obs0 = (t, Counted)
     \<and> writeSummary ex_svc (os_fine 9) ex_time (perPath t) (perUA t)
         (fs_put (hour_path ''logs'' ex_time) (ex_log @ lines_of ex_batch) 8 (as_fs ex_state)) = (fs2, None)
     \<and> fs_content fs2 (summaryPath ex_svc ex_time) = summary_of ex_time (hour_records ex_log)
     \<and> snd (scan_hour ex_svc ex_agg (hour_path ''logs'' ex_time) ex_time fs2 0 obs0) = Skip"
proof -
  let ?f = "\<lparr>fcontent = ex_log, fmtime = 7\<rparr>" and ?p = "hour_path ''logs'' ex_time"
  have np: "summaryPath ex_svc ex_time \<noteq> ?p" by (rule summaryPath_not_hour)
  then have "\<not> up_to_date (as_fs ex_state) (summaryPath ex_svc ex_time) ?f"
    by (auto simp: up_to_date_def ex_state_def fs_file_def split: option.splits)
  then obtain t where t: "scan_hour ex_svc ex_agg ?p ex_time (as_fs ex_state) 0 obs0 = (t, Counted)"
    using scan_hour_counted[of ex_agg "as_fs ex_state" ?p ?f ex_svc ex_time 0 obs0] by auto
  obtain fs2 where w: "writeSummary ex_svc (os_fine 9) ex_time (perPath t) (perUA t)
      (fs_put ?p (ex_log @ lines_of ex_batch) 8 (as_fs ex_state)) = (fs2, None)"
    using writeSummary_ok[OF os_ok_fine] by blast
  have "fs_content fs2 (summaryPath ex_svc ex_time) = summary_of ex_time (hour_records (fcontent ?f))
     \<and> snd (scan_hour ex_svc ex_agg ?p ex_time fs2 0 obs0) = Skip"
    by (rule stale_summary_is_kept[OF t _ _ _ _ _ w]) (use np in \<open>auto simp: os_fine_def ex_agg_def\<close>)
  then show ?thesis using t w by auto
qed

text \<open>The aggregation loop runs once at startup and once per tick until its context is done.\<close>

theorem aggregation_runs_per_tick:
  "aggregationRuns (as_obs (agg_Start a env ws evs st)) = aggregationRuns (as_obs st) + 1 + length (takeWhile is_tick evs)"
  by (simp add: agg_Start_def ticks_runs agg_run_runs)

end
