(* ===== verification/Minio_Aggregation.thy ===== *)
theory Minio_Aggregation
  imports Aggregation Minio_Repo
begin

section \<open>Hourly aggregation of the MinIO objects (service/minio_aggregation.go)\<close>

text \<open>
  The counterpart of \<open>Aggregation\<close> for the object store: the objects that \<open>ListLogObjects\<close> reports are grouped by the
  hour in their keys, and the records of all objects of an hour are counted into one summary file on the local disk. The
  store is what \<open>Minio_Repo\<close> models; an object is written once and never changed, so one bucket stands for the reads of
  a run. The store interface of the service is \<open>ListLogObjects\<close> and \<open>ReadLogObject\<close> of the repository it was built with
  (\<open>ms_store\<close>); reading depends on that repository's prefix only, not on its counter, which other goroutines advance.
  \<open>me_resp\<close> is the client's \<^verbatim>\<open>ToErrorResponse\<close>.
\<close>

record MinIOAggregationService =
  ms_store :: MinIORepo
  ms_analyticsDir :: string
  ms_interval :: duration

definition NewMinIOAggregationService :: "MinIORepo \<Rightarrow> string \<Rightarrow> duration \<Rightarrow> MinIOAggregationService" where
  "NewMinIOAggregationService store ad iv = \<lparr>ms_store = store, ms_analyticsDir = ad, ms_interval = iv\<rparr>"

record ms_env =
  me_ctx :: ctx
  me_os :: os_env
  me_store :: store_env
  me_resp :: "goerr \<Rightarrow> string \<times> int"

definition minio_summaryPath :: "MinIOAggregationService \<Rightarrow> gotime \<Rightarrow> string" where
  "minio_summaryPath a hourStart =
     (let dateDir = format_date hourStart; dateDirAnalytics = Join [ms_analyticsDir a, dateDir]
      in Join [dateDirAnalytics, ''summary_'' @ format_hour hourStart @ ''.json''])"

definition minio_writeSummary ::
  "MinIOAggregationService \<Rightarrow> os_env \<Rightarrow> gotime \<Rightarrow> counts \<Rightarrow> counts \<Rightarrow> fsys \<Rightarrow> fsys \<times> goerr option" where
  "minio_writeSummary a os hourStart requestsPerPath requestsPerUserAgent fs =
     (case MkdirAll os (Dir (minio_summaryPath a hourStart)) fs of
        (fs1, Some e) \<Rightarrow> (fs1, Some (wrap ''create analytics directory: '' e))
      | (fs1, None) \<Rightarrow>
          (case WriteFile os (minio_summaryPath a hourStart) (summary_json hourStart requestsPerPath requestsPerUserAgent) fs1 of
             (fs2, Some e) \<Rightarrow> (fs2, Some (wrap ''write summary: '' e))
           | (fs2, None) \<Rightarrow> (fs2, None)))"

subsection \<open>Object keys\<close>

definition parseHourParts :: "string \<Rightarrow> string \<Rightarrow> gotime option" where
  "parseHourParts dateToken hourToken =
     (case parse_date dateToken of
        None \<Rightarrow> None
      | Some (y, m, d) \<Rightarrow> (case parse_hour hourToken of None \<Rightarrow> None | Some h \<Rightarrow> Some (mk_time y m d h 0 0 0)))"

definition parseHourFromObjectKey :: "string \<Rightarrow> gotime option" where
  "parseHourFromObjectKey objectKey =
     (let key = Trim (TrimSpace objectKey) ''/''; parts = split_on slash key; n = length parts; fileName = parts ! (n - 1) in
      if key = [] then None
      else if n < 2 then None
      else if \<not> HasSuffix fileName ''.log.json'' then None
      else case (if 3 \<le> n then parseHourParts (parts ! (n - 3)) (parts ! (n - 2)) else None) of
             Some hourStart \<Rightarrow> Some hourStart
           | None \<Rightarrow> parseHourParts (parts ! (n - 2)) (TrimSuffix fileName ''.log.json''))"

subsection \<open>Counting\<close>

fun ndjson_loop :: "ctx \<Rightarrow> string list \<Rightarrow> tally \<Rightarrow> tally \<times> goerr option" where
  "ndjson_loop ctx [] t = (t, None)"
| "ndjson_loop ctx (l # ls) t =
     (case ctx (polls t) of
        Some e \<Rightarrow> (t\<lparr>polls := polls t + 1\<rparr>, Some e)
      | None \<Rightarrow>
          let line = TrimSpace l; t1 = t\<lparr>polls := polls t + 1\<rparr> in
          if line = [] then ndjson_loop ctx ls t1
          else case unmarshal_record line of
                 None \<Rightarrow> ndjson_loop ctx ls (t1\<lparr>tobs := log_msg LWarn ''skip malformed minio log record''
                   [F ''error'' (FErr (JsonErr line))] (tobs t)\<rparr>)
               | Some r \<Rightarrow> ndjson_loop ctx ls (t1\<lparr>perPath := bump (Path r) (perPath t), perUA := bump (UserAgent r) (perUA t)\<rparr>))"

definition aggregateNDJSONPayload :: "ctx \<Rightarrow> string \<Rightarrow> tally \<Rightarrow> tally \<times> goerr option" where
  "aggregateNDJSONPayload ctx payload t =
     (case scan_lines max_line payload of (tokens, scanErr) \<Rightarrow>
      case ndjson_loop ctx tokens t of
        (t1, Some e) \<Rightarrow> (t1, Some e)
      | (t1, None) \<Rightarrow> (t1, scanErr))"

fun objects_loop :: "ms_env \<Rightarrow> bucket \<Rightarrow> (string \<times> int) list \<Rightarrow> tally \<Rightarrow> tally \<times> goerr option" where
  "objects_loop env b [] t = (t, None)"
| "objects_loop env b (obj # objs) t =
     (case me_ctx env (polls t) of
        Some e \<Rightarrow> (t\<lparr>polls := polls t + 1\<rparr>, Some e)
      | None \<Rightarrow>
          let t1 = t\<lparr>polls := polls t + 1\<rparr> in
          (case ReadLogObject (me_resp env) (me_store env) (fst obj) b of
             Inl e \<Rightarrow> (t1, Some (wrap (''read minio object '' @ qstr (fst obj) @ '': '') e))
           | Inr payload \<Rightarrow>
               (case aggregateNDJSONPayload (me_ctx env) payload t1 of
                  (t2, Some e) \<Rightarrow> (t2, Some (wrap (''aggregate payload for object '' @ qstr (fst obj) @ '': '') e))
                | (t2, None) \<Rightarrow> objects_loop env b objs t2)))"

fun latest_mod :: "int \<Rightarrow> (string \<times> int) list \<Rightarrow> int" where
  "latest_mod latest [] = latest"
| "latest_mod latest (obj # objs) = latest_mod (if latest < snd obj then snd obj else latest) objs"

definition aggregateHourObjects ::
  "MinIOAggregationService \<Rightarrow> ms_env \<Rightarrow> bucket \<Rightarrow> gotime \<Rightarrow> (string \<times> int) list \<Rightarrow> agg_state \<Rightarrow> agg_state \<times> goerr option" where
  "aggregateHourObjects a env b hourStart objs st =
     (let st1 = st\<lparr>as_poll := as_poll st + 1\<rparr> in
      case me_ctx env (as_poll st) of
        Some e \<Rightarrow> (st1, Some e)
      | None \<Rightarrow>
          if objs = [] then (st1, None)
          else if (case Stat (me_os env) (minio_summaryPath a hourStart) (as_fs st) of
                     Inl _ \<Rightarrow> False
                   | Inr summaryTime \<Rightarrow> \<not> summaryTime < latest_mod (snd (hd objs)) (tl objs))
          then (st1, None)
          else (case objects_loop env b (sort_keys objs) \<lparr>perPath = [], perUA = [], polls = as_poll st1, tobs = as_obs st\<rparr> of
                  (t, Some e) \<Rightarrow> (st\<lparr>as_poll := polls t, as_obs := tobs t\<rparr>, Some e)
                | (t, None) \<Rightarrow>
                    (case minio_writeSummary a (me_os env) hourStart (perPath t) (perUA t) (as_fs st) of
                       (fs', res) \<Rightarrow> (st\<lparr>as_fs := fs', as_poll := polls t, as_obs := tobs t\<rparr>, res))))"

subsection \<open>A run\<close>

fun group_objects ::
  "ctx \<Rightarrow> (string \<times> int) list \<Rightarrow> (gotime \<times> (string \<times> int) list) list \<Rightarrow> agg_state \<Rightarrow> agg_state \<times> (gotime \<times> (string \<times> int) list) list result" where
  "group_objects ctx [] m st = (st, Inr m)"
| "group_objects ctx (obj # objs) m st =
     (let st1 = st\<lparr>as_poll := as_poll st + 1\<rparr> in
      case ctx (as_poll st) of
        Some e \<Rightarrow> (st1, Inl e)
      | None \<Rightarrow>
          (case parseHourFromObjectKey (fst obj) of
             None \<Rightarrow> group_objects ctx objs m (st1\<lparr>as_obs := log_msg LWarn ''skip unexpected minio object path''
                 [F ''object'' (FStr (fst obj))] (as_obs st)\<rparr>)
           | Some hourStart \<Rightarrow> group_objects ctx objs (grp_add hourStart obj m) st1))"

fun ins_hour :: "gotime \<times> 'a \<Rightarrow> (gotime \<times> 'a) list \<Rightarrow> (gotime \<times> 'a) list" where
  "ins_hour x [] = [x]"
| "ins_hour x (y # ys) = (if Before (fst y) (fst x) then y # ins_hour x ys else x # y # ys)"

definition sort_hours :: "(gotime \<times> 'a) list \<Rightarrow> (gotime \<times> 'a) list" where
  "sort_hours xs = foldr ins_hour xs []"

fun hours_loop :: "MinIOAggregationService \<Rightarrow> ms_env \<Rightarrow> bucket \<Rightarrow> (gotime \<times> (string \<times> int) list) list \<Rightarrow> agg_state \<Rightarrow> agg_state" where
  "hours_loop a env b [] st = st"
| "hours_loop a env b ((hour, objs) # rest) st =
     (case aggregateHourObjects a env b hour objs st of
        (st1, None) \<Rightarrow> hours_loop a env b rest st1
      | (st1, Some e) \<Rightarrow> hours_loop a env b rest (st1\<lparr>as_obs := log_msg LError ''aggregate minio hour failed''
            [F ''hour'' (FStr (format_rfc3339 hour)), F ''error'' (FErr e)] (as_obs st1)\<rparr>))"

definition minio_AggregateAll :: "MinIOAggregationService \<Rightarrow> ms_env \<Rightarrow> bucket \<Rightarrow> agg_state \<Rightarrow> agg_state \<times> goerr option" where
  "minio_AggregateAll a env b st =
     (case ListLogObjects (me_store env) (ms_store a, b) of
        Inl e \<Rightarrow> (st, Some (wrap ''list minio log objects: '' e))
      | Inr objs \<Rightarrow>
          (case group_objects (me_ctx env) objs [] st of
             (st1, Inl e) \<Rightarrow> (st1, Some e)
           | (st1, Inr grouped) \<Rightarrow> (hours_loop a env b (sort_hours grouped) st1, None)))"

definition minio_run :: "MinIOAggregationService \<Rightarrow> ms_env \<Rightarrow> bucket \<Rightarrow> agg_state \<Rightarrow> agg_state" where
  "minio_run a env b st =
     (case minio_AggregateAll a env b st of (st1, res) \<Rightarrow>
        let st2 = (case res of None \<Rightarrow> st1
                   | Some e \<Rightarrow> st1\<lparr>as_obs := log_msg LError ''minio aggregation run failed'' [F ''error'' (FErr e)] (as_obs st1)\<rparr>)
        in st2\<lparr>as_obs := IncAggregationRuns (as_obs st2)\<rparr>)"

datatype ms_event = MTick ms_env bucket | MCtxDone

fun minio_ticks :: "MinIOAggregationService \<Rightarrow> ms_event list \<Rightarrow> agg_state \<Rightarrow> agg_state" where
  "minio_ticks a [] st = st"
| "minio_ticks a (MCtxDone # evs) st = st"
| "minio_ticks a (MTick env b # evs) st = minio_ticks a evs (minio_run a env b (st\<lparr>as_poll := 0\<rparr>))"

definition minio_Start :: "MinIOAggregationService \<Rightarrow> ms_env \<Rightarrow> bucket \<Rightarrow> ms_event list \<Rightarrow> agg_state \<Rightarrow> agg_state" where
  "minio_Start a env b evs st = minio_ticks a evs (minio_run a env b (st\<lparr>as_poll := 0\<rparr>))"

subsection \<open>Keys and hours\<close>

definition printable :: "char \<Rightarrow> bool" where
  "printable c \<longleftrightarrow> 33 \<le> bv c \<and> bv c < 127"

lemma lead_printable: "printable c \<Longrightarrow> lead_space (c # s) = 0"
  by (auto simp: printable_def ascii_space_def lead_space.simps trail_space.simps split: list.splits)

lemma trail_printable: "printable c \<Longrightarrow> trail_space (c # s) = 0"
  by (auto simp: printable_def ascii_space_def lead_space.simps trail_space.simps split: list.splits)

lemma lead_space_length: "lead_space (u @ c # s) \<le> length u" if "printable c"
proof -
  have c: "\<not> ascii_space c" "bv c < 127" using that by (auto simp: printable_def ascii_space_def)
  show ?thesis
  proof (cases u)
    case Nil
    then show ?thesis using lead_printable[OF that] by simp
  next
    case u1: (Cons a1 u1)
    show ?thesis
    proof (cases u1)
      case Nil
      then show ?thesis using u1 c by (auto simp: lead_space.simps split: list.splits)
    next
      case u2: (Cons a2 u2)
      then show ?thesis using u1 c by (cases u2) (auto simp: lead_space.simps)
    qed
  qed
qed

lemma trim_left_before:
  assumes "printable c"
  shows "\<exists>k. trim_left (u @ c # s) = drop k u @ c # s"
proof (induction "length u" arbitrary: u rule: less_induct)
  case less
  show ?case
  proof (cases "lead_space (u @ c # s) = 0")
    case True
    then show ?thesis by (intro exI[of _ 0]) (simp add: trim_left_id)
  next
    case False
    let ?k = "lead_space (u @ c # s)"
    have le: "?k \<le> length u" by (rule lead_space_length[OF assms])
    have "length (drop ?k u) < length u" using False le by simp
    then obtain j where "trim_left (drop ?k u @ c # s) = drop j (drop ?k u) @ c # s" using less by blast
    moreover have "trim_left (u @ c # s) = trim_left (drop ?k u @ c # s)" using False le by (subst trim_left.simps) simp
    ultimately show ?thesis by (intro exI[of _ "j + ?k"]) (simp add: add.commute)
  qed
qed

lemma trim_right_printable: "printable c \<Longrightarrow> trim_right (s @ [c]) = s @ [c]"
  by (simp add: trim_right_def trim_rev_id trail_printable)

lemma TrimSpace_before: "printable c \<Longrightarrow> printable d \<Longrightarrow> \<exists>k. TrimSpace (u @ c # s @ [d]) = drop k u @ c # s @ [d]"
  unfolding TrimSpace_def using trim_left_before[of c u "s @ [d]"] trim_right_printable[of d] by (metis append.assoc append_Cons)

lemma Trim_before:
  assumes "c \<notin> set cs" "d \<notin> set cs"
  shows "\<exists>k. Trim (u @ c # s @ [d]) cs = drop k u @ c # s @ [d]"
proof -
  have "\<exists>k. dropWhile (\<lambda>x. x \<in> set cs) (u @ c # s @ [d]) = drop k u @ c # s @ [d]"
  proof (induction u)
    case (Cons a u)
    then obtain k where "dropWhile (\<lambda>x. x \<in> set cs) (u @ c # s @ [d]) = drop k u @ c # s @ [d]" by blast
    then show ?case
      by (cases "a \<in> set cs") (auto intro: exI[of _ "Suc k"] exI[of _ 0])
  qed (use assms in simp)
  then obtain k where k: "dropWhile (\<lambda>x. x \<in> set cs) (u @ c # s @ [d]) = drop k u @ c # s @ [d]" by blast
  show ?thesis unfolding Trim_def k using assms by (intro exI[of _ k]) simp
qed

lemma last_drop_slash: "u = [] \<or> last u = slash \<Longrightarrow> drop k u = [] \<or> last (drop k u) = slash"
  by (cases "k < length u") auto

lemma parse_key:
  assumes u: "u = [] \<or> last u = slash" and t: "parseHourParts d h = Some t"
    and sl: "slash \<notin> set d" "slash \<notin> set h" "slash \<notin> set f" and c: "d = c # d'" "printable c"
  shows "parseHourFromObjectKey (u @ d @ slash # h @ slash # f @ ''.log.json'') = Some t"
proof -
  let ?f = "f @ ''.log.json''" and ?s = "d' @ slash # h @ slash # f @ ''.log.jso''"
  have n: "printable (CHR ''n'')" by (simp add: printable_def bv_def)
  have e: "u @ d @ slash # h @ slash # ?f = u @ c # ?s @ [CHR ''n'']" using c(1) by simp
  obtain k where k: "TrimSpace (u @ c # ?s @ [CHR ''n'']) = drop k u @ c # ?s @ [CHR ''n'']"
    using TrimSpace_before[OF c(2) n] by blast
  have cs: "c \<notin> set ''/''" using sl(1) c(1) by auto
  obtain j where j: "Trim (drop k u @ c # ?s @ [CHR ''n'']) ''/'' = drop j (drop k u) @ c # ?s @ [CHR ''n'']"
    using Trim_before[OF cs, of "CHR ''n''" "drop k u" ?s] by auto
  define v where "v = drop j (drop k u)"
  have v: "v = [] \<or> last v = slash" unfolding v_def by (intro last_drop_slash u)
  have key: "Trim (TrimSpace (u @ d @ slash # h @ slash # ?f)) ''/'' = v @ d @ slash # h @ slash # ?f"
    unfolding e k j v_def using c(1) by simp
  have tail: "split_on slash (d @ slash # h @ slash # ?f) = [d, h, ?f]" using sl by (simp add: split_on_append_sep split_on_no_sep)
  obtain ps where ps: "split_on slash (v @ d @ slash # h @ slash # ?f) = ps @ [d, h, ?f]"
  proof (cases "v = []")
    case True
    then show ?thesis using tail that[of "[]"] by simp
  next
    case False
    then obtain w where "v = w @ [slash]" using v by (metis append_butlast_last_id)
    then show ?thesis using tail that[of "split_on slash w"] by (simp add: split_on_append_sep)
  qed
  show ?thesis unfolding parseHourFromObjectKey_def Let_def key ps using t by (simp add: nth_append)
qed

lemma hour_prefix_path:
  "is_rooted (hour_prefix lp t) = is_rooted lp" "comps (hour_prefix lp t) = comps lp @ [format_date t, format_hour t]"
proof -
  have pl: "\<forall>d \<in> set [format_date t, format_hour t]. plain_comp d" using plain_format_date plain_format_hour(2) by simp
  then have p: "hour_prefix lp t = path_of (is_rooted lp) (comps lp @ [format_date t, format_hour t])"
    unfolding hour_prefix_def using Join_plain[of "[format_date t, format_hour t]" lp] by simp
  moreover have "clean_list (is_rooted lp) (comps lp @ [format_date t, format_hour t])" using comps_clean pl by (rule clean_list_append)
  ultimately show "is_rooted (hour_prefix lp t) = is_rooted lp" "comps (hour_prefix lp t) = comps lp @ [format_date t, format_hour t]"
    by (simp_all add: is_rooted_path_of comps_path_of)
qed

lemma shard_key_parts:
  assumes "slash \<notin> set w"
  shows "\<exists>u. (u = [] \<or> last u = slash) \<and> shard_key (hour_prefix lp t) w n =
    u @ format_date t @ slash # format_hour t @ slash # (w @ CHR ''-'' # show_int n) @ ''.log.json''"
proof -
  let ?e = "[format_date t, format_hour t, shard_file w n]"
  have j: "join_with slash ?e = format_date t @ slash # format_hour t @ slash # shard_file w n" by simp
  have k: "shard_key (hour_prefix lp t) w n = path_of (is_rooted lp) (comps lp @ ?e)"
    using shard_key_path(1)[OF assms, of "hour_prefix lp t" n] hour_prefix_path[of lp t] by simp
  obtain u where u: "u = [] \<or> last u = slash" "join_with slash (comps lp @ ?e) = u @ join_with slash ?e"
  proof (cases "comps lp = []")
    case False
    then show ?thesis using join_with_append[of "comps lp" ?e slash] that[of "join_with slash (comps lp) @ [slash]"] by simp
  qed (use that[of "[]"] in simp)
  have "shard_key (hour_prefix lp t) w n = (if is_rooted lp then slash # u else u) @ join_with slash ?e"
    unfolding k path_of_def using u(2) by simp
  moreover have "(if is_rooted lp then slash # u else u) = [] \<or> last (if is_rooted lp then slash # u else u) = slash" using u(1) by auto
  ultimately show ?thesis
    by (intro exI[of _ "if is_rooted lp then slash # u else u"] conjI) (simp_all add: shard_file_def)
qed

lemma format_date_first: "json_time t \<Longrightarrow> \<exists>c d. format_date t = c # d \<and> printable c"
proof -
  obtain c s where c: "show_int_pad 4 (Year t) = c # s" using show_int_pad_Cons[of 4 "Year t"] by auto
  then have "is_digit c \<or> c = CHR ''-''" using show_int_pad_chars[of c 4 "Year t"] by simp
  then have "printable c" by (auto simp: is_digit_def printable_def bv_def)
  then show ?thesis using c by (auto simp: format_date_def Year_def split: prod.splits)
qed

lemma parse_shard_key:
  assumes "json_time t" "slash \<notin> set w"
  shows "parseHourFromObjectKey (shard_key (hour_prefix lp t) w n) = Some (TruncateHour t)"
proof -
  obtain u where u: "u = [] \<or> last u = slash" "shard_key (hour_prefix lp t) w n =
    u @ format_date t @ slash # format_hour t @ slash # (w @ CHR ''-'' # show_int n) @ ''.log.json''"
    using shard_key_parts[OF assms(2)] by blast
  have p: "parseHourParts (format_date t) (format_hour t) = Some (TruncateHour t)"
    using TruncateHour_Hour[of t] assms(1)
    by (simp add: parseHourParts_def parse_date_format parse_hour_format json_time_def split: prod.splits)
  have "slash \<notin> set (w @ CHR ''-'' # show_int n)" using assms(2) show_int_chars[of slash n] digit_not_slash by auto
  moreover have "slash \<notin> set (format_date t)" "slash \<notin> set (format_hour t)"
    using plain_format_date[of t] plain_format_hour(2)[of t] by (simp_all add: plain_comp_def)
  moreover obtain c d where "format_date t = c # d" "printable c" using format_date_first[OF assms(1)] by blast
  ultimately show ?thesis unfolding u(2) using parse_key[OF u(1) p] by blast
qed

lemma parse_hour_range: "parse_hour s = Some h \<Longrightarrow> 0 \<le> h \<and> h < 24"
  by (auto simp: parse_hour_def split: option.splits if_splits)

lemma parseHourParts_hour:
  assumes "parseHourParts d h = Some t"
  shows "json_time t" "TruncateHour t = t"
proof -
  obtain y m dd hh where p: "parse_date d = Some (y, m, dd)" "parse_hour h = Some hh" "t = mk_time y m dd hh 0 0 0"
    using assms by (auto simp: parseHourParts_def split: option.splits prod.splits)
  note r = parse_date_range[OF p(1)] and hr = parse_hour_range[OF p(2)]
  let ?n = "days_of_civil y m dd"
  have s: "t_sec t = ?n * 86400 + hh * 3600" "t_nsec t = 0" "t_off t = 0" by (simp_all add: p(3) mk_time_def)
  have "day_of t = ?n" using hr s by (simp add: day_of_def local_sec_def div_mod_split)
  then show "json_time t" using year_of_civil[OF r(3-6)] r(1,2) s by (simp add: json_time_def Year_def)
  have "?n * 86400 + hh * 3600 = (?n * 24 + hh) * 3600" by (simp add: distrib_right)
  then have "(?n * 86400 + hh * 3600) mod 3600 = 0" by (metis mod_mult_self2_is_0)
  then show "TruncateHour t = t" using s by (intro gotime_eqI) (simp_all add: TruncateHour_sel)
qed

lemma parsed_hour: "parseHourFromObjectKey k = Some t \<Longrightarrow> json_time t \<and> TruncateHour t = t"
  unfolding parseHourFromObjectKey_def Let_def
  by (auto dest: parseHourParts_hour split: if_splits option.splits)

subsection \<open>The summary of an hour\<close>

text \<open>The two aggregators write their summaries to the same files in the same form.\<close>

definition as_files :: "MinIOAggregationService \<Rightarrow> AggregationService" where
  "as_files a = NewAggregationService [] (ms_analyticsDir a) (ms_interval a)"

lemma minio_summaryPath_eq: "minio_summaryPath a = summaryPath (as_files a)"
  by (rule ext) (simp add: minio_summaryPath_def summaryPath_def as_files_def NewAggregationService_def Let_def)

lemma minio_writeSummary_eq: "minio_writeSummary a = writeSummary (as_files a)"
  by (intro ext) (simp only: minio_writeSummary_def writeSummary_def minio_summaryPath_eq)

definition nd_records :: "string \<Rightarrow> LogRecord list" where
  "nd_records s = line_records (filter (\<lambda>l. l \<noteq> []) (map (\<lambda>l. TrimSpace (drop_cr l)) (raw_lines s)))"

definition obj_data :: "bucket \<Rightarrow> string \<Rightarrow> string" where
  "obj_data b k = (case alookup b k of None \<Rightarrow> [] | Some x \<Rightarrow> ob_data x)"

definition hour_content :: "bucket \<Rightarrow> (string \<times> int) list \<Rightarrow> LogRecord list" where
  "hour_content b objs = concat (map (\<lambda>x. nd_records (obj_data b (fst x))) objs)"

definition ms_ok :: "ms_env \<Rightarrow> bool" where
  "ms_ok env \<longleftrightarrow> os_ok (me_os env) \<and> (\<forall>i. me_ctx env i = None) \<and> se_list (me_store env) = None
     \<and> (\<forall>k. se_get (me_store env) k = None \<and> se_read (me_store env) k = None)"

text \<open>An object that \<open>ReadLogObject\<close> finds under its own key, with lines that fit the scanner.\<close>

definition obj_ok :: "bucket \<Rightarrow> string \<Rightarrow> bool" where
  "obj_ok b k \<longleftrightarrow> k \<noteq> [] \<and> TrimPrefix (TrimSpace k) ''/'' = k \<and> k \<in> fst ` set b \<and> short_lines (obj_data b k)"

lemma ndjson_loop_ok:
  assumes "\<forall>i. ctx i = None"
  shows "\<exists>t'. ndjson_loop ctx ls t = (t', None)
    \<and> perPath t' = bump_all (map Path (line_records (filter (\<lambda>l. l \<noteq> []) (map TrimSpace ls)))) (perPath t)
    \<and> perUA t' = bump_all (map UserAgent (line_records (filter (\<lambda>l. l \<noteq> []) (map TrimSpace ls)))) (perUA t)"
  using assms
proof (induction ls arbitrary: t)
  case (Cons l ls)
  show ?case
  proof (cases "TrimSpace l = []")
    case True
    then show ?thesis using Cons.IH[OF Cons.prems, of "t\<lparr>polls := polls t + 1\<rparr>"] Cons.prems by (simp add: Let_def)
  next
    case False
    show ?thesis
    proof (cases "unmarshal_record (TrimSpace l)")
      case None
      then show ?thesis
        using False Cons.prems Cons.IH[OF Cons.prems, of "t\<lparr>polls := polls t + 1, tobs := log_msg LWarn ''skip malformed minio log record''
          [F ''error'' (FErr (JsonErr (TrimSpace l)))] (tobs t)\<rparr>"] by (simp add: Let_def)
    next
      case (Some r)
      then show ?thesis
        using False Cons.prems Cons.IH[OF Cons.prems, of "t\<lparr>polls := polls t + 1, perPath := bump (Path r) (perPath t), perUA := bump (UserAgent r) (perUA t)\<rparr>"]
        by (simp add: Let_def)
    qed
  qed
qed simp

lemma payload_ok:
  assumes "\<forall>i. ctx i = None" "short_lines p"
  shows "\<exists>t'. aggregateNDJSONPayload ctx p t = (t', None) \<and> perPath t' = bump_all (map Path (nd_records p)) (perPath t)
    \<and> perUA t' = bump_all (map UserAgent (nd_records p)) (perUA t)"
  using ndjson_loop_ok[OF assms(1), of "map drop_cr (raw_lines p)" t] scan_lines_ok[OF assms(2)]
  by (auto simp: aggregateNDJSONPayload_def nd_records_def comp_def)

lemma ReadLogObject_ok:
  assumes "ms_ok env" "obj_ok b k"
  shows "ReadLogObject (me_resp env) (me_store env) k b = Inr (obj_data b k)"
proof -
  obtain x where "alookup b k = Some x" using assms(2) alookup_None_iff[of b k] by (auto simp: obj_ok_def)
  then show ?thesis using assms by (simp add: ReadLogObject_def ReadObject_def ms_ok_def obj_ok_def obj_data_def Let_def)
qed

lemma objects_loop_ok:
  assumes "ms_ok env" "\<forall>x \<in> set objs. obj_ok b (fst x)"
  shows "\<exists>t'. objects_loop env b objs t = (t', None) \<and> perPath t' = bump_all (map Path (hour_content b objs)) (perPath t)
    \<and> perUA t' = bump_all (map UserAgent (hour_content b objs)) (perUA t)"
  using assms(2)
proof (induction objs arbitrary: t)
  case (Cons x objs)
  have ctx: "\<forall>i. me_ctx env i = None" using assms(1) by (simp add: ms_ok_def)
  have r: "ReadLogObject (me_resp env) (me_store env) (fst x) b = Inr (obj_data b (fst x))"
    using ReadLogObject_ok[OF assms(1)] Cons.prems by simp
  have sl: "short_lines (obj_data b (fst x))" using Cons.prems by (simp add: obj_ok_def)
  obtain t1 where t1: "aggregateNDJSONPayload (me_ctx env) (obj_data b (fst x)) (t\<lparr>polls := polls t + 1\<rparr>) = (t1, None)"
      "perPath t1 = bump_all (map Path (nd_records (obj_data b (fst x)))) (perPath t)"
      "perUA t1 = bump_all (map UserAgent (nd_records (obj_data b (fst x)))) (perUA t)"
    using payload_ok[OF ctx sl, of "t\<lparr>polls := polls t + 1\<rparr>"] by auto
  obtain t2 where t2: "objects_loop env b objs t1 = (t2, None)" "perPath t2 = bump_all (map Path (hour_content b objs)) (perPath t1)"
      "perUA t2 = bump_all (map UserAgent (hour_content b objs)) (perUA t1)" using Cons.IH[of t1] Cons.prems by auto
  show ?case using t1 t2 r ctx by (simp add: hour_content_def bump_all_append)
qed (simp add: hour_content_def)

lemma latest_mod_le: "latest_mod m xs \<le> v \<longleftrightarrow> m \<le> v \<and> (\<forall>x \<in> set xs. snd x \<le> v)"
  by (induction m xs rule: latest_mod.induct) auto

definition fresh_summary :: "fsys \<Rightarrow> string \<Rightarrow> (string \<times> int) list \<Rightarrow> bool" where
  "fresh_summary fs sp objs \<longleftrightarrow> (case fs_file fs sp of None \<Rightarrow> False | Some s \<Rightarrow> \<forall>x \<in> set objs. snd x \<le> fmtime s)"

definition summary_file :: "ms_env \<Rightarrow> bucket \<Rightarrow> gotime \<Rightarrow> (string \<times> int) list \<Rightarrow> fdata" where
  "summary_file env b h objs = \<lparr>fcontent = summary_of h (hour_content b (sort_keys objs)), fmtime = clock (me_os env)\<rparr>"

lemma aggregateHourObjects_ok:
  assumes "ms_ok env" "objs \<noteq> []" "\<forall>x \<in> set objs. obj_ok b (fst x)"
  shows "\<exists>st'. aggregateHourObjects a env b h objs st = (st', None) \<and> fs_file (as_fs st') (minio_summaryPath a h) =
    (if fresh_summary (as_fs st) (minio_summaryPath a h) objs then fs_file (as_fs st) (minio_summaryPath a h)
     else Some (summary_file env b h objs))"
proof -
  let ?sp = "minio_summaryPath a h"
  have ctx: "\<forall>i. me_ctx env i = None" and os: "os_ok (me_os env)" using assms(1) by (simp_all add: ms_ok_def)
  obtain y ys where ys: "objs = y # ys" using assms(2) by (cases objs) auto
  have stat: "(case Stat (me_os env) ?sp (as_fs st) of Inl _ \<Rightarrow> False | Inr summaryTime \<Rightarrow> \<not> summaryTime < latest_mod (snd (hd objs)) (tl objs))
      \<longleftrightarrow> fresh_summary (as_fs st) ?sp objs"
    using os by (auto simp: Stat_def os_ok_def fresh_summary_def not_less latest_mod_le ys split: option.splits)
  show ?thesis
  proof (cases "fresh_summary (as_fs st) ?sp objs")
    case True
    then show ?thesis using ctx assms(2) stat by (simp add: aggregateHourObjects_def)
  next
    case False
    have "\<forall>x \<in> set (sort_keys objs). obj_ok b (fst x)" using assms(3) reordersD(2)[OF sort_keys_reorders, of objs] by simp
    then obtain t where t: "objects_loop env b (sort_keys objs) \<lparr>perPath = [], perUA = [], polls = as_poll st + 1, tobs = as_obs st\<rparr> = (t, None)"
        "perPath t = bump_all (map Path (hour_content b (sort_keys objs))) []" "perUA t = bump_all (map UserAgent (hour_content b (sort_keys objs))) []"
      using objects_loop_ok[OF assms(1), of "sort_keys objs" b "\<lparr>perPath = [], perUA = [], polls = as_poll st + 1, tobs = as_obs st\<rparr>"] by auto
    obtain fs' where w: "minio_writeSummary a (me_os env) h (perPath t) (perUA t) (as_fs st) = (fs', None)"
      unfolding minio_writeSummary_eq using writeSummary_ok[OF os] by blast
    have "fs_file fs' ?sp = Some (summary_file env b h objs)"
      using writeSummary_effect(2)[OF w[unfolded minio_writeSummary_eq]] t(2,3) by (simp add: minio_summaryPath_eq summary_file_def summary_of_def)
    then show ?thesis using ctx assms(2) stat False t(1) w by (simp add: aggregateHourObjects_def)
  qed
qed

text \<open>Only the summary of the hour can change, whatever fails.\<close>

lemma aggregateHourObjects_frame:
  assumes "aggregateHourObjects a env b h objs st = (st', res)" "q \<noteq> minio_summaryPath a h"
  shows "fs_file (as_fs st') q = fs_file (as_fs st) q"
  using assms writeSummary_effect(1)
  unfolding aggregateHourObjects_def minio_writeSummary_eq minio_summaryPath_eq Let_def
  by (fastforce split: option.splits if_splits prod.splits)

lemma hours_loop_frame:
  "(\<And>x. x \<in> set hs \<Longrightarrow> q \<noteq> minio_summaryPath a (fst x)) \<Longrightarrow> fs_file (as_fs (hours_loop a env b hs st)) q = fs_file (as_fs st) q"
proof (induction hs arbitrary: st)
  case (Cons x hs)
  obtain h objs where x: "x = (h, objs)" by fastforce
  obtain st1 r1 where g: "aggregateHourObjects a env b h objs st = (st1, r1)" by fastforce
  have "fs_file (as_fs st1) q = fs_file (as_fs st) q" using aggregateHourObjects_frame[OF g] Cons.prems[of x] x by simp
  then show ?case using Cons x g by (cases r1) simp_all
qed simp

text \<open>Hours as the keys name them.\<close>

definition hour_ok :: "gotime \<Rightarrow> bool" where
  "hour_ok h \<longleftrightarrow> json_time h \<and> TruncateHour h = h"

lemma minio_summaryPath_inj: "hour_ok h \<Longrightarrow> hour_ok k \<Longrightarrow> minio_summaryPath a h = minio_summaryPath a k \<Longrightarrow> h = k"
  unfolding minio_summaryPath_eq hour_ok_def using summaryPath_inj[of h k "as_files a"] by simp

lemma hours_loop_hour:
  assumes env: "ms_ok env" and hs: "list_all (\<lambda>x. hour_ok (fst x)) hs" "distinct (map fst hs)" "(h, objs) \<in> set hs"
    and ob: "objs \<noteq> []" "\<forall>x \<in> set objs. obj_ok b (fst x)"
  shows "fs_file (as_fs (hours_loop a env b hs st)) (minio_summaryPath a h) =
    (if fresh_summary (as_fs st) (minio_summaryPath a h) objs then fs_file (as_fs st) (minio_summaryPath a h)
     else Some (summary_file env b h objs))"
  using hs
proof (induction hs arbitrary: st)
  case (Cons x hs)
  let ?sp = "minio_summaryPath a h"
  obtain k vs where x: "x = (k, vs)" by fastforce
  obtain st1 r1 where g: "aggregateHourObjects a env b k vs st = (st1, r1)" by fastforce
  have "hour_ok h" using Cons.prems(1,3) unfolding list_all_iff by (metis fst_conv)
  then have other: "?sp \<noteq> minio_summaryPath a k'" if "hour_ok k'" "k' \<noteq> h" for k'
    using minio_summaryPath_inj[of h k'] that by blast
  show ?case
  proof (cases "x = (h, objs)")
    case True
    then have "\<And>y. y \<in> set hs \<Longrightarrow> ?sp \<noteq> minio_summaryPath a (fst y)"
      using Cons.prems(1,2) other by (force simp: list_all_iff)
    note f = hours_loop_frame[OF this]
    show ?thesis using aggregateHourObjects_ok[OF env ob, of a h st] g True x f by (cases r1) auto
  next
    case False
    then have i: "(h, objs) \<in> set hs" "k \<noteq> h" using Cons.prems(2,3) x by (auto simp: rev_image_eqI)
    have "fs_file (as_fs st1) ?sp = fs_file (as_fs st) ?sp"
      using aggregateHourObjects_frame[OF g other] i(2) Cons.prems(1) x by (simp add: list_all_iff)
    then show ?thesis using Cons.IH[OF _ _ i(1)] Cons.prems x g by (cases r1) (simp_all add: fresh_summary_def)
  qed
qed simp

lemma group_objects_ok:
  assumes "\<forall>i. ctx i = None"
  shows "\<exists>st'. group_objects ctx objs m st =
      (st', Inr (grp_all (\<lambda>x. the (parseHourFromObjectKey (fst x))) (filter (\<lambda>x. parseHourFromObjectKey (fst x) \<noteq> None) objs) m))
    \<and> as_fs st' = as_fs st"
proof (induction objs arbitrary: m st)
  case (Cons x objs)
  show ?case
  proof (cases "parseHourFromObjectKey (fst x)")
    case None
    then show ?thesis using assms Cons[of m "st\<lparr>as_poll := as_poll st + 1, as_obs := log_msg LWarn ''skip unexpected minio object path''
        [F ''object'' (FStr (fst x))] (as_obs st)\<rparr>"] by (simp add: Let_def)
  next
    case (Some h)
    then show ?thesis using assms Cons[of "grp_add h x m" "st\<lparr>as_poll := as_poll st + 1\<rparr>"] by (simp add: Let_def)
  qed
qed simp

lemma sort_hours_reorders: "reorders (sort_hours :: (gotime \<times> 'a) list \<Rightarrow> (gotime \<times> 'a) list)"
proof -
  have i: "mset (ins_hour x ys) = add_mset x (mset ys)" for x :: "gotime \<times> 'a" and ys
    by (induction x ys rule: ins_hour.induct) auto
  have "mset (sort_hours xs) = mset xs" for xs :: "(gotime \<times> 'a) list"
    by (induction xs) (simp_all add: sort_hours_def i)
  then show ?thesis by (simp add: reorders_def)
qed

text \<open>The objects of an hour in the bucket, and what the listing reports of them.\<close>

definition hour_objects :: "MinIORepo \<Rightarrow> bucket \<Rightarrow> gotime \<Rightarrow> (string \<times> object) list" where
  "hour_objects r b h = filter (\<lambda>x. HasPrefix (fst x) (Trim (mr_logsPrefix r) ''/'' @ ''/'') \<and> HasSuffix (fst x) ''.log.json''
     \<and> parseHourFromObjectKey (fst x) = Some h) b"

definition object_records :: "(string \<times> object) list \<Rightarrow> LogRecord list" where
  "object_records xs = concat (map (\<lambda>x. nd_records (ob_data (snd x))) xs)"

definition info :: "string \<times> object \<Rightarrow> string \<times> int" where
  "info x = (fst x, LastModified (snd x))"

lemma listing:
  assumes "se_list env = None"
  shows "\<exists>objs. ListLogObjects env (r, b) = Inr objs
    \<and> mset (filter (\<lambda>x. parseHourFromObjectKey (fst x) = Some h) objs) = mset (map info (hour_objects r b h))"
proof -
  let ?pre = "Trim (mr_logsPrefix r) ''/'' @ ''/''"
  let ?l = "filter (\<lambda>x. HasSuffix (fst x) ''.log.json'') (map info (filter (\<lambda>x. HasPrefix (fst x) ?pre) b))"
  have i: "(\<lambda>(k, o1). (k, LastModified o1)) = info" by (auto simp: info_def)
  have l: "ListLogObjects env (r, b) = Inr (sort_keys ?l)"
    using assms by (simp add: ListLogObjects_def ListObjects_def Let_def i)
  have "filter (\<lambda>x. parseHourFromObjectKey (fst x) = Some h) ?l = map info (hour_objects r b h)"
    by (induction b) (auto simp: hour_objects_def info_def)
  then have "mset (filter (\<lambda>x. parseHourFromObjectKey (fst x) = Some h) (sort_keys ?l)) = mset (map info (hour_objects r b h))"
    using reordersD(1)[OF sort_keys_reorders, of ?l] by (metis mset_filter)
  then show ?thesis using l by blast
qed

lemma hour_content_mset:
  assumes "distinct (map fst b)" "mset objs = mset (map info xs)" "set xs \<subseteq> set b"
  shows "mset (hour_content b objs) = mset (object_records xs)"
proof -
  have "obj_data b (fst (info x)) = ob_data (snd x)" if "x \<in> set xs" for x
    using alookup_distinct[OF assms(1), of "fst x" "snd x"] that assms(3) by (auto simp: obj_data_def info_def)
  then have "map (\<lambda>x. nd_records (obj_data b (fst x))) (map info xs) = map (\<lambda>x. nd_records (ob_data (snd x))) xs" by simp
  then have "mset (hour_content b (map info xs)) = mset (object_records xs)" by (simp only: hour_content_def object_records_def)
  then show ?thesis using mset_concat_eq[OF assms(2), of "\<lambda>x. nd_records (obj_data b (fst x))"] by (simp add: hour_content_def)
qed

lemma minio_AggregateAll_hour:
  assumes env: "ms_ok env" and b: "distinct (map fst b)" "hour_objects (ms_store a) b h \<noteq> []" "\<forall>x \<in> set (hour_objects (ms_store a) b h). obj_ok b (fst x)"
  shows "\<exists>st' objs. minio_AggregateAll a env b st = (st', None) \<and> mset objs = mset (map info (hour_objects (ms_store a) b h))
    \<and> fs_file (as_fs st') (minio_summaryPath a h) =
      (if fresh_summary (as_fs st) (minio_summaryPath a h) objs then fs_file (as_fs st) (minio_summaryPath a h)
       else Some (summary_file env b h objs))"
proof -
  have ctx: "\<forall>i. me_ctx env i = None" and sl: "se_list (me_store env) = None" using env by (simp_all add: ms_ok_def)
  obtain all where all: "ListLogObjects (me_store env) (ms_store a, b) = Inr all"
      "mset (filter (\<lambda>x. parseHourFromObjectKey (fst x) = Some h) all) = mset (map info (hour_objects (ms_store a) b h))"
    using listing[OF sl] by blast
  define f where "f = (\<lambda>x :: string \<times> int. the (parseHourFromObjectKey (fst x)))"
  define known where "known = filter (\<lambda>x. parseHourFromObjectKey (fst x) \<noteq> None) all"
  define objs where "objs = filter (\<lambda>x. f x = h) known"
  obtain st1 where st1: "group_objects (me_ctx env) all [] st = (st1, Inr (grp_all f known []))" "as_fs st1 = as_fs st"
    using group_objects_ok[OF ctx, of all "[]" st] by (auto simp: f_def known_def)
  have oe: "objs = filter (\<lambda>x. parseHourFromObjectKey (fst x) = Some h) all"
    by (auto simp: objs_def known_def f_def intro!: filter_cong)
  then have mo: "mset objs = mset (map info (hour_objects (ms_store a) b h))" using all(2) by simp
  then have so: "set objs = info ` set (hour_objects (ms_store a) b h)" by (metis set_map set_mset_mset)
  then have ne: "objs \<noteq> []" and ok: "\<forall>x \<in> set objs. obj_ok b (fst x)" using b(2,3) by (auto simp: info_def)
  let ?hs = "sort_hours (grp_all f known [])"
  have "hour_ok (fst x)" if "x \<in> set ?hs" for x
  proof -
    have "fst x \<in> fst ` set (grp_all f known [])" using that reordersD(2)[OF sort_hours_reorders, of "grp_all f known []"] by auto
    then obtain y where "y \<in> set known" "f y = fst x" using keys_grp_all[of f known "[]"] by auto
    then have "parseHourFromObjectKey (fst y) = Some (fst x)" by (auto simp: known_def f_def)
    then show ?thesis using parsed_hour by (simp add: hour_ok_def)
  qed
  then have "list_all (\<lambda>x. hour_ok (fst x)) ?hs" by (simp add: list_all_iff)
  moreover have "distinct (map fst ?hs)" unfolding reorders_keys[OF sort_hours_reorders] by (intro distinct_grp_all) simp
  moreover have "(h, objs) \<in> set ?hs"
  proof -
    obtain x where "x \<in> set known" "f x = h" using ne by (auto simp: objs_def filter_empty_conv)
    then have "h \<in> fst ` set (grp_all f known [])" using keys_grp_all[of f known "[]"] by auto
    then obtain vs where "(h, vs) \<in> set (grp_all f known [])" by auto
    then show ?thesis using grp_all_entry[of h vs f known] reordersD(2)[OF sort_hours_reorders, of "grp_all f known []"] by (simp add: objs_def)
  qed
  ultimately have "fs_file (as_fs (hours_loop a env b ?hs st1)) (minio_summaryPath a h) =
      (if fresh_summary (as_fs st1) (minio_summaryPath a h) objs then fs_file (as_fs st1) (minio_summaryPath a h)
       else Some (summary_file env b h objs))" using hours_loop_hour[OF env _ _ _ ne ok] by blast
  then show ?thesis using all(1) st1 mo by (intro exI[of _ "hours_loop a env b ?hs st1"] exI[of _ objs]) (simp add: minio_AggregateAll_def)
qed

subsection \<open>Summaries do not depend on the order of the records\<close>

lemma bump_all_mem: "(k, n) \<in> set (bump_all ks []) \<longleftrightarrow> k \<in> set ks \<and> n = count_list ks k"
proof
  have d: "distinct (map fst (bump_all ks []))" by (intro distinct_bump_all) simp
  have c: "acount (bump_all ks []) k = n" if "(k, n) \<in> set (bump_all ks [])" for k n
    using alookup_distinct[OF d that] by (simp add: acount_def)
  show "k \<in> set ks \<and> n = count_list ks k" if "(k, n) \<in> set (bump_all ks [])"
    using c[OF that] that keys_bump_all[of ks "[]"] by force
  show "(k, n) \<in> set (bump_all ks [])" if k: "k \<in> set ks \<and> n = count_list ks k"
  proof -
    have "k \<in> fst ` set (bump_all ks [])" using k keys_bump_all[of ks "[]"] by simp
    then obtain m where "(k, m) \<in> set (bump_all ks [])" by auto
    then show ?thesis using c k by fastforce
  qed
qed

lemma marshal_counts_mset:
  assumes "mset ks = mset ks'"
  shows "marshal_counts (bump_all ks []) = marshal_counts (bump_all ks' [])"
proof -
  let ?a = "bump_all ks []" and ?b = "bump_all ks' []"
  have "set ?a = set ?b"
    using bump_all_mem[of _ _ ks] bump_all_mem[of _ _ ks'] mset_eq_setD[OF assms] arg_cong[OF assms, of count]
    by (auto simp: count_mset fun_eq_iff)
  moreover have d: "distinct (map fst ?a)" "distinct (map fst ?b)" by (simp_all add: distinct_bump_all)
  ultimately have "sort_key fst ?a = sort_key fst ?b"
    by (intro map_sorted_distinct_set_unique[where f = fst]) (auto simp: distinct_map)
  then show ?thesis by (simp add: marshal_counts_def)
qed

lemma summary_of_mset:
  assumes "mset rs = mset rs'"
  shows "summary_of h rs = summary_of h rs'"
proof -
  have "mset (map Path rs) = mset (map Path rs')" "mset (map UserAgent rs) = mset (map UserAgent rs')" using assms by simp_all
  note this[THEN marshal_counts_mset]
  then show ?thesis by (simp only: summary_of_def summary_json_def)
qed

subsection \<open>Properties\<close>

text \<open>The hour that \<^verbatim>\<open>parseHourFromObjectKey\<close> reads from a key the MinIO repository made for a timestamp is that timestamp's
  hour, for every key prefix, writer identity and counter.\<close>

theorem shard_key_hour_roundtrip:
  assumes "json_time t" "slash \<notin> set w"
  shows "parseHourFromObjectKey (shard_key (hour_prefix lp t) w n) = Some (TruncateHour t)"
  using assms by (rule parse_shard_key)

lemma shard_key_hour_roundtrip_witness:
  "parseHourFromObjectKey (shard_key (hour_prefix ''logs'' ex_time) ''pod-1'' 7) = Some (TruncateHour ex_time)"
  by (rule shard_key_hour_roundtrip) simp_all

text \<open>(C31) A run of the MinIO aggregator ends without error when the store answers, and leaves, for every hour with readable objects,
  the summary of all records in the objects of that hour, unless the summary was not older than any of them, which is then kept.\<close>

theorem minio_AggregateAll_summaries:
  assumes "ms_ok env" "distinct (map fst b)" "hour_objects (ms_store a) b h \<noteq> []" "\<forall>x \<in> set (hour_objects (ms_store a) b h). obj_ok b (fst x)"
  shows "\<exists>st'. minio_AggregateAll a env b st = (st', None) \<and> fs_file (as_fs st') (minio_summaryPath a h) =
    (if fresh_summary (as_fs st) (minio_summaryPath a h) (map info (hour_objects (ms_store a) b h)) then fs_file (as_fs st) (minio_summaryPath a h)
     else Some \<lparr>fcontent = summary_of h (object_records (hour_objects (ms_store a) b h)), fmtime = clock (me_os env)\<rparr>)"
proof -
  obtain st' objs where r: "minio_AggregateAll a env b st = (st', None)" "mset objs = mset (map info (hour_objects (ms_store a) b h))"
      "fs_file (as_fs st') (minio_summaryPath a h) =
        (if fresh_summary (as_fs st) (minio_summaryPath a h) objs then fs_file (as_fs st) (minio_summaryPath a h)
         else Some (summary_file env b h objs))"
    using minio_AggregateAll_hour[OF assms] by blast
  have "mset (sort_keys objs) = mset (map info (hour_objects (ms_store a) b h))" using r(2) reordersD(1)[OF sort_keys_reorders] by metis
  then have "mset (hour_content b (sort_keys objs)) = mset (object_records (hour_objects (ms_store a) b h))"
    by (rule hour_content_mset[OF assms(2)]) (auto simp: hour_objects_def)
  then have c: "summary_of h (hour_content b (sort_keys objs)) = summary_of h (object_records (hour_objects (ms_store a) b h))" by (rule summary_of_mset)
  have "fresh_summary fs sp objs = fresh_summary fs sp (map info (hour_objects (ms_store a) b h))" for fs sp
    unfolding fresh_summary_def by (simp only: mset_eq_setD[OF r(2)])
  then show ?thesis using r(1,3) c by (simp add: summary_file_def)
qed

definition ex_ms :: ms_env where
  "ex_ms = \<lparr>me_ctx = ctx_ok, me_os = os_fine 9, me_store = ex_store, me_resp = (\<lambda>_. ([], 0))\<rparr>"

definition ex_bucket :: bucket where
  "ex_bucket = snd (fst (minio_SaveBatch ex_store ex_batch (ex_repo ''w'', [])))"

lemma ex_ms_ok: "ms_ok ex_ms"
  by (simp add: ms_ok_def ex_ms_def ex_store_def)

lemma ex_bucket_facts:
  "distinct (map fst ex_bucket)" "hour_objects (ex_repo ''w'') ex_bucket (TruncateHour ex_time) \<noteq> []"
  "\<forall>x \<in> set (hour_objects (ex_repo ''w'') ex_bucket (TruncateHour ex_time)). obj_ok ex_bucket (fst x)"
proof -
  show "distinct (map fst ex_bucket)" by code_simp
  show "hour_objects (ex_repo ''w'') ex_bucket (TruncateHour ex_time) \<noteq> []" by code_simp
  show "\<forall>x \<in> set (hour_objects (ex_repo ''w'') ex_bucket (TruncateHour ex_time)). obj_ok ex_bucket (fst x)" by code_simp
qed

lemma minio_AggregateAll_summaries_witness:
  "\<exists>st'. minio_AggregateAll (NewMinIOAggregationService (ex_repo ''w'') ''analytics'' 0) ex_ms ex_bucket
       \<lparr>as_fs = ex_fs, as_poll = 0, as_obs = obs0\<rparr> = (st', None)
     \<and> fs_content (as_fs st') (minio_summaryPath (NewMinIOAggregationService (ex_repo ''w'') ''analytics'' 0) (TruncateHour ex_time)) =
         summary_of (TruncateHour ex_time) (object_records (hour_objects (ex_repo ''w'') ex_bucket (TruncateHour ex_time)))"
proof -
  have "\<not> fresh_summary ex_fs sp objs" for sp objs by (simp add: fresh_summary_def ex_fs_def fs_file_def)
  moreover have st: "ms_store (NewMinIOAggregationService (ex_repo ''w'') ''analytics'' 0) = ex_repo ''w''"
    by (simp add: NewMinIOAggregationService_def)
  ultimately show ?thesis
    using minio_AggregateAll_summaries[of ex_ms ex_bucket "NewMinIOAggregationService (ex_repo ''w'') ''analytics'' 0" "TruncateHour ex_time"
        "\<lparr>as_fs = ex_fs, as_poll = 0, as_obs = obs0\<rparr>", unfolded st, OF ex_ms_ok ex_bucket_facts]
    by (auto simp: fs_content_def)
qed

text \<open>A prefix that is not clean is never listed: the keys are built with \<^verbatim>\<open>path.Join\<close>, which cleans them, but the listing asks for the
  prefix as it was configured, so nothing of what is saved is ever summarized.\<close>

lemma unclean_prefix_not_listed:
  "let r = (ex_repo ''w'')\<lparr>mr_logsPrefix := ''a//b''\<rparr>; (st, res) = minio_SaveBatch ex_store ex_batch (r, []) in
   res = None \<and> snd st \<noteq> [] \<and> ListLogObjects ex_store st = Inr []"
  by code_simp

end
