(* ===== verification/Backends.thy ===== *)
theory Backends
  imports Minio_Aggregation
begin

section \<open>Both storage backends give the same summaries\<close>

text \<open>
  The file backend (\<open>File_Repo\<close>, \<open>Aggregation\<close>) and the MinIO backend (\<open>Minio_Repo\<close>, \<open>Minio_Aggregation\<close>) store and summarize the same batch:
  each is followed from \<^verbatim>\<open>SaveBatch\<close> to the summary of an hour, and both summaries are the one of the batch's records of that
  hour (\<open>batch_hour\<close>).
\<close>

definition batch_hour :: "LogRecord list \<Rightarrow> gotime \<Rightarrow> LogRecord list" where
  "batch_hour rs h = map readable (filter (\<lambda>r. TruncateHour (UTC (Timestamp r)) = h) rs)"

text \<open>The line of a record fits the scanner.\<close>

definition fits :: "LogRecord \<Rightarrow> bool" where
  "fits r \<longleftrightarrow> (case marshal_record (utc_record r) of None \<Rightarrow> True | Some d \<Rightarrow> int (length d) < max_line)"

subsection \<open>Lines of encoded records\<close>

lemma marshal_shape: "marshal_record r = Some d \<Longrightarrow> \<exists>m. d = CHR ''{'' # m @ ''}''"
  by (auto simp: marshal_record_def split: option.splits)

lemma marshal_trim:
  assumes "marshal_record r = Some d"
  shows "TrimSpace d = d" "drop_cr d = d" "d \<noteq> []"
proof -
  obtain m where m: "d = CHR ''{'' # m @ ''}''" using marshal_shape[OF assms] by blast
  show "drop_cr d = d" by (simp add: m drop_cr_def)
  have "printable (CHR ''{'')" "printable (CHR ''}'')" by (simp_all add: printable_def bv_def)
  then show "TrimSpace d = d" unfolding m using TrimSpace_before[of "CHR ''{''" "CHR ''}''" "[]" m] by simp
  show "d \<noteq> []" by (simp add: m)
qed

definition encodable :: "LogRecord \<Rightarrow> bool" where
  "encodable r \<longleftrightarrow> utc_wf r \<and> marshal_record r \<noteq> None"

lemma lines_of_lines: "list_all encodable rs \<Longrightarrow> complete_lines (lines_of rs) = map (\<lambda>r. the (marshal_record r)) rs"
  by (induction rs) (auto simp: encodable_def line_of_def complete_lines_append complete_lines_line marshal_no_newline split: option.splits)

lemma raw_lines_of: "list_all encodable rs \<Longrightarrow> raw_lines (lines_of rs) = map (\<lambda>r. the (marshal_record r)) rs"
  by (simp add: raw_lines_complete lines_of_lines)

lemma hour_records_lines: "list_all encodable rs \<Longrightarrow> hour_records (lines_of rs) = map valid_record rs"
proof -
  assume e: "list_all encodable rs"
  then have "line_records (map drop_cr (map (\<lambda>r. the (marshal_record r)) rs)) = map valid_record rs"
    by (induction rs) (auto simp: marshal_trim unmarshal_marshal encodable_def utc_wf_def)
  then show ?thesis using raw_lines_of[OF e] by (simp add: hour_records_def)
qed

lemma nd_records_lines: "list_all encodable rs \<Longrightarrow> nd_records (lines_of rs) = map valid_record rs"
proof -
  assume e: "list_all encodable rs"
  then have "line_records (filter (\<lambda>l. l \<noteq> []) (map (\<lambda>l. TrimSpace (drop_cr l)) (map (\<lambda>r. the (marshal_record r)) rs))) = map valid_record rs"
    by (induction rs) (auto simp: marshal_trim unmarshal_marshal encodable_def utc_wf_def)
  then show ?thesis using raw_lines_of[OF e] by (simp add: nd_records_def)
qed

subsection \<open>The file backend\<close>

lemma encodable_time: "marshal_record (utc_record r) \<noteq> None \<Longrightarrow> json_time (UTC (Timestamp r))"
  by (auto simp: marshal_record_None marshal_time_def json_time_def split: if_splits)

lemma batch_encodable:
  assumes "list_all (\<lambda>r. wf_time (Timestamp r)) rs" "\<forall>r \<in> set rs. marshal_record (utc_record r) \<noteq> None"
  shows "list_all encodable (map utc_record rs)"
  using assms by (auto simp: list_all_iff encodable_def utc_wf_def wf_time_def)

lemma lines_short: "list_all encodable rs \<Longrightarrow> list_all fits rs \<Longrightarrow> list_all utc_wf rs \<Longrightarrow> short_lines (lines_of rs)"
proof -
  assume a: "list_all encodable rs" "list_all fits rs" "list_all utc_wf rs"
  have "utc_record r = r" if "utc_wf r" for r using that by (cases r) (simp add: utc_wf_def utc_record_def UTC_id)
  then have "int (length (the (marshal_record r))) < max_line" if "r \<in> set rs" for r
    using a that by (fastforce simp: list_all_iff fits_def encodable_def)
  then show ?thesis using raw_lines_of[OF a(1)] by (simp add: short_lines_def list_all_iff)
qed

lemma fits_utc [simp]: "fits (utc_record r) = fits r"
  by (simp add: fits_def)

lemma raw_lines_Nil: "raw_lines [] = []"
  by (simp add: raw_lines_complete complete_lines_def)

lemma records_appended:
  assumes "ends_line c" "list_all encodable g"
  shows "raw_lines (c @ lines_of g) = raw_lines c @ raw_lines (lines_of g)" "hour_records (c @ lines_of g) = hour_records c @ map valid_record g"
proof -
  have "ends_line (lines_of g)" by simp
  then show l: "raw_lines (c @ lines_of g) = raw_lines c @ raw_lines (lines_of g)"
    using assms(1) by (simp add: raw_lines_complete complete_lines_append ends_line_append)
  show "hour_records (c @ lines_of g) = hour_records c @ map valid_record g"
    using l hour_records_lines[OF assms(2)] by (simp add: hour_records_def)
qed

text \<open>An hour's log file after a batch: what it held and the batch's records of that hour.\<close>

lemma file_hour:
  assumes sv: "SaveBatch env rs (s, fs) = ((s', fs'), None)" "reorders (se_ord env)"
    and rs: "list_all (\<lambda>r. wf_time (Timestamp r)) rs" "list_all fits rs"
    and h: "hour_ok h" "batch_hour rs h \<noteq> []" "fs_content fs (hour_path (baseDir s) h) = c" "ends_line c" "short_lines c"
  shows "\<exists>f. fs_file fs' (hour_path (baseDir s) h) = Some f \<and> short_lines (fcontent f) \<and> hour_records (fcontent f) = hour_records c @ batch_hour rs h"
proof -
  let ?p = "hour_path (baseDir s) h"
  have m: "\<forall>r \<in> set rs. marshal_record (utc_record r) \<noteq> None" using SaveBatch_marshal[OF sv] .
  have "batch_at (baseDir s) rs ?p = filter (\<lambda>r. TruncateHour (Timestamp r) = h) (map utc_record rs)"
    unfolding batch_at_def
  proof (rule filter_cong[OF refl])
    fix x assume "x \<in> set (map utc_record rs)"
    then have "json_time (Timestamp x)" using m encodable_time by auto
    then show "(hour_path (baseDir s) (Timestamp x) = ?p) = (TruncateHour (Timestamp x) = h)"
      using hour_path_same[of "Timestamp x" h "baseDir s"] h(1) by (auto simp: json_time_def hour_ok_def)
  qed
  moreover define g where "g = filter (\<lambda>r. TruncateHour (Timestamp r) = h) (map utc_record rs)"
  ultimately have c: "fs_content fs' ?p = c @ lines_of g" using SaveBatch_effect[OF sv, of ?p] h(3) by simp
  have e: "list_all encodable g" "list_all fits g" using batch_encodable[OF rs(1) m] rs(2) by (auto simp: g_def list_all_iff)
  then have u: "list_all utc_wf g" by (simp add: list_all_iff encodable_def)
  have b: "map valid_record g = batch_hour rs h"
    by (simp add: g_def batch_hour_def filter_map comp_def readable_def)
  then obtain r g' where g: "g = r # g'" using h(2) by (cases g) auto
  then have "fs_content fs' ?p \<noteq> []" using c e(1) by (auto simp: line_of_def encodable_def)
  then obtain f where f: "fs_file fs' ?p = Some f" by (auto simp: fs_content_def split: option.splits)
  then have "fcontent f = c @ lines_of g" using c by (simp add: fs_content_def)
  then show ?thesis using f lines_short[OF e u] records_appended[OF h(4) e(1)] h(5) b by (simp add: short_lines_def)
qed

subsection \<open>The MinIO backend\<close>

text \<open>The objects a successful call writes.\<close>

fun shard_objs :: "store_env \<Rightarrow> string \<Rightarrow> int \<Rightarrow> (string \<times> LogRecord list) list \<Rightarrow> bucket" where
  "shard_objs env w n [] = []"
| "shard_objs env w n ((hp, g) # gs) =
     (shard_key hp w (n + 1), \<lparr>ob_data = lines_of g, LastModified = se_time env\<rparr>) # shard_objs env w (n + 1) gs"

lemma save_shards_objs:
  "save_shards env k gs (r, b) = ((r', b'), None) \<Longrightarrow> shard_inv (r, b) \<Longrightarrow> objectSeq r + int (length gs) < 2 ^ 64 \<Longrightarrow>
   b' = b @ shard_objs env (mr_writerID r) (objectSeq r) gs \<and> (\<forall>x \<in> set (concat (map snd gs)). marshal_record x \<noteq> None)
   \<and> mr_logsPrefix r' = mr_logsPrefix r"
proof (induction gs arbitrary: k r b)
  case (Cons x gs)
  obtain hp g where x: "x = (hp, g)" by fastforce
  obtain p k1 where p: "se_poll env k = None" "marshalNDJSON (se_poll env) (Suc k) g = Inr (p, k1)"
    using Cons.prems(1) x by (auto split: option.splits sum.splits)
  obtain r1 key where n: "newShardObjectKey hp r = (r1, key)" by fastforce
  obtain b1 res1 where w: "WriteObject env key p b = (b1, res1)" by fastforce
  have rest: "save_shards env k1 gs (r1, b1) = ((r', b'), None)" "res1 = None"
    using Cons.prems(1) x p n w by (auto split: option.splits)
  have room: "objectSeq r + 1 < 2 ^ 64" using Cons.prems(3) by simp
  note f = new_key_fresh[OF Cons.prems(2) room n]
  have p': "p = lines_of g" "\<forall>x \<in> set g. marshal_record x \<noteq> None" using marshalNDJSON_lines[OF p(2)] by simp_all
  have b1: "b1 = b @ [(key, \<lparr>ob_data = lines_of g, LastModified = se_time env\<rparr>)]"
    using w rest(2) p'(1) aset_fresh[OF f(1)] by (auto simp: WriteObject_def Let_def split: write_answer.splits)
  have inv: "shard_inv (r1, b1)" by (rule shard_inv_step[OF Cons.prems(2) n room]) (use b1 in auto)
  have pre: "mr_logsPrefix r1 = mr_logsPrefix r" using n by (auto simp: newShardObjectKey_def Let_def)
  show ?case using Cons.IH[OF rest(1) inv] Cons.prems(3) f b1 p'(2) x pre by auto
qed simp

definition prefix_ok :: "string \<Rightarrow> bool" where
  "prefix_ok lp \<longleftrightarrow> comps lp \<noteq> [] \<and> Clean lp = lp \<and> \<not> is_rooted lp \<and> printable (hd lp)"

lemma prefix_ok_key:
  assumes "prefix_ok lp" "slash \<notin> set w" and k_def: "k = shard_key (hour_prefix lp t) w n"
  shows "HasPrefix k (Trim lp ''/'' @ ''/'')" "HasSuffix k ''.log.json''" "k \<noteq> []" "TrimPrefix (TrimSpace k) ''/'' = k"
proof -
  let ?e = "[format_date t, format_hour t, shard_file w n]"
  have r: "\<not> is_rooted lp" "comps lp \<noteq> []" "printable (hd lp)" "Clean lp = lp" using assms(1) by (simp_all add: prefix_ok_def)
  have lp: "lp = join_with slash (comps lp)" using r by (simp add: Clean_def path_of_def)
  have "shard_key (hour_prefix lp t) w n = path_of False (comps lp @ ?e)"
    using shard_key_path(1)[OF assms(2), of "hour_prefix lp t" n] hour_prefix_path[of lp t] r(1) by simp
  then have k: "k = lp @ slash # join_with slash ?e"
    using join_with_append[OF r(2), of ?e slash] lp by (simp add: k_def path_of_def)
  obtain u where lu: "lp = u @ last (comps lp)" using join_with_last[OF r(2), of slash] lp by metis
  have cl: "last (comps lp) \<noteq> []" "slash \<notin> set (last (comps lp))"
    using clean_list_no_slash[OF comps_clean[of lp]] r(2) by (metis last_in_set)+
  then have ll: "last lp \<noteq> slash" "lp \<noteq> []" using lu by (metis last_appendR last_in_set, auto)
  have "\<not> is_rooted lp" by (rule r)
  then obtain c l where c: "lp = c # l" "c \<noteq> slash" using ll(2) by (cases lp) (auto simp: is_rooted_def HasPrefix_def)
  have tr: "Trim lp ''/'' = lp"
  proof -
    have "dropWhile (\<lambda>x. x \<in> set ''/'') lp = lp" using c by simp
    moreover have "dropWhile (\<lambda>x. x \<in> set ''/'') (rev lp) = rev lp"
    proof -
      obtain l' c' where "lp = l' @ [c']" "c' \<noteq> slash" using ll by (cases lp rule: rev_cases) auto
      then show ?thesis by simp
    qed
    ultimately show ?thesis by (simp add: Trim_def)
  qed
  show "HasPrefix k (Trim lp ''/'' @ ''/'')" unfolding tr k by (simp add: HasPrefix_def)
  have s: "k = (lp @ slash # format_date t @ slash # format_hour t @ slash # w @ CHR ''-'' # show_int n) @ ''.log.json''"
    by (simp add: k shard_file_def)
  show "HasSuffix k ''.log.json''" unfolding s by (rule HasSuffix_append)
  show "k \<noteq> []" by (simp add: k)
  have "k = [] @ c # (l @ slash # format_date t @ slash # format_hour t @ slash # w @ CHR ''-'' # show_int n @ ''.log.jso'') @ [CHR ''n'']"
    by (simp add: s c(1))
  moreover have "printable c" "printable (CHR ''n'')" using r(3) c(1) by (simp_all add: printable_def bv_def)
  ultimately have ts: "TrimSpace k = k" using TrimSpace_before[of c "CHR ''n''" "[]"] by (metis drop_Nil)
  show "TrimPrefix (TrimSpace k) ''/'' = k" unfolding ts using c k by (simp add: TrimPrefix_def HasPrefix_def)
qed

text \<open>A group of records as \<^verbatim>\<open>SaveBatch\<close> forms it.\<close>

definition group_ok :: "string \<Rightarrow> string \<times> LogRecord list \<Rightarrow> bool" where
  "group_ok lp x \<longleftrightarrow> snd x \<noteq> [] \<and> list_all (\<lambda>r. fst x = hour_prefix lp (Timestamp r) \<and> encodable r \<and> fits r) (snd x)"

lemma encodable_json_time: "encodable r \<Longrightarrow> json_time (Timestamp r)"
  by (auto simp: encodable_def utc_wf_def marshal_record_None marshal_time_def json_time_def split: if_splits)

lemma group_hour:
  assumes "group_ok lp (hp, g)" "r \<in> set g" "slash \<notin> set w"
  shows "parseHourFromObjectKey (shard_key hp w n) = Some (TruncateHour (Timestamp r))"
  using assms encodable_json_time[of r] parse_shard_key[of "Timestamp r" w lp n] by (simp add: group_ok_def list_all_iff)

lemma shard_objs_keys:
  "list_all (group_ok lp) gs \<Longrightarrow> x \<in> set (shard_objs env w n gs) \<Longrightarrow>
   (\<exists>t m. n < m \<and> fst x = shard_key (hour_prefix lp t) w m) \<and> short_lines (ob_data (snd x))"
proof (induction env w n gs rule: shard_objs.induct)
  case (2 env w n hp g gs)
  show ?case
  proof (cases "x \<in> set (shard_objs env w (n + 1) gs)")
    case True
    then obtain t m where "n + 1 < m" "fst x = shard_key (hour_prefix lp t) w m" "short_lines (ob_data (snd x))" using 2 by auto
    then show ?thesis by (intro conjI exI[of _ t] exI[of _ m]) auto
  next
    case False
    then have x: "x = (shard_key hp w (n + 1), \<lparr>ob_data = lines_of g, LastModified = se_time env\<rparr>)" using 2(3) by simp
    obtain r g' where g: "g = r # g'" using 2(2) by (cases g) (auto simp: group_ok_def)
    have a: "list_all encodable g" "list_all fits g" "list_all utc_wf g" "hp = hour_prefix lp (Timestamp r)"
      using 2(2) g by (auto simp: group_ok_def list_all_iff encodable_def)
    show ?thesis using lines_short[OF a(1-3)] a(4) x by (intro conjI exI[of _ "Timestamp r"] exI[of _ "n + 1"]) auto
  qed
qed simp

lemma shard_objs_distinct:
  "list_all (group_ok lp) gs \<Longrightarrow> 0 \<le> n \<Longrightarrow> slash \<notin> set w \<Longrightarrow> distinct (map fst (shard_objs env w n gs))"
proof (induction env w n gs rule: shard_objs.induct)
  case (2 env w n hp g gs)
  have "shard_key hp w (n + 1) \<noteq> fst x" if x: "x \<in> set (shard_objs env w (n + 1) gs)" for x
  proof
    assume e: "shard_key hp w (n + 1) = fst x"
    obtain t m where m: "n + 1 < m" "fst x = shard_key (hour_prefix lp t) w m" using shard_objs_keys[of lp gs x env w "n + 1"] x 2(2) by auto
    then show False using shard_key_inject[of hp w "n + 1" "hour_prefix lp t" w m] e 2(3,4) by simp
  qed
  then show ?case using 2 by auto
qed simp

lemma shard_objs_records:
  "list_all (group_ok lp) gs \<Longrightarrow> slash \<notin> set w \<Longrightarrow>
   object_records (filter (\<lambda>x. parseHourFromObjectKey (fst x) = Some h) (shard_objs env w n gs)) =
   map valid_record (filter (\<lambda>r. TruncateHour (Timestamp r) = h) (concat (map snd gs)))"
proof (induction env w n gs rule: shard_objs.induct)
  case (2 env w n hp g gs)
  have ok: "group_ok lp (hp, g)" and e: "list_all encodable g" using 2(2) by (auto simp: group_ok_def list_all_iff)
  obtain r g' where g: "g = r # g'" using ok by (cases g) (auto simp: group_ok_def)
  have p: "parseHourFromObjectKey (shard_key hp w (n + 1)) = Some (TruncateHour (Timestamp r))" using group_hour[OF ok _ 2(3)] g by simp
  have same: "\<forall>r' \<in> set g. TruncateHour (Timestamp r') = TruncateHour (Timestamp r)"
    using group_hour[OF ok _ 2(3), of _ "n + 1"] p by auto
  have "filter (\<lambda>r. TruncateHour (Timestamp r) = h) g = (if TruncateHour (Timestamp r) = h then g else [])"
    using same by (auto simp: filter_id_conv filter_empty_conv)
  then show ?case using 2 p nd_records_lines[OF e] by (simp add: object_records_def)
qed (simp add: object_records_def)

lemma minio_hour:
  assumes sv: "minio_SaveBatch env rs (r, []) = ((r', b'), None)" "shard_inv (r, [])" "objectSeq r + int (length rs) < 2 ^ 64"
    and rs: "list_all (\<lambda>r. wf_time (Timestamp r)) rs" "list_all fits rs" "prefix_ok (mr_logsPrefix r)" "batch_hour rs h \<noteq> []"
    and rd: "mr_logsPrefix rd = mr_logsPrefix r"
  shows "distinct (map fst b')" "hour_objects rd b' h \<noteq> []" "\<forall>x \<in> set (hour_objects rd b' h). obj_ok b' (fst x)"
    "mset (object_records (hour_objects rd b' h)) = mset (batch_hour rs h)"
proof -
  let ?lp = "mr_logsPrefix r" and ?w = "mr_writerID r" and ?n = "objectSeq r"
  let ?f = "\<lambda>r. hour_prefix ?lp (Timestamp r)"
  have ne: "rs \<noteq> []" using rs(4) by (auto simp: batch_hour_def)
  have w: "slash \<notin> set ?w" "0 \<le> ?n" using sv(2) by (simp_all add: shard_inv_def)
  obtain g where g: "m_group (se_poll env) 0 ?lp rs [] = Inr g" using sv(1) ne by (auto simp: minio_SaveBatch_def split: sum.splits)
  define gs where "gs = sort_keys g"
  have sh: "save_shards env (length rs) gs (r, []) = ((r', b'), None)" using sv(1) g ne by (simp add: minio_SaveBatch_def gs_def)
  have ge: "g = grp_all ?f (map utc_record rs) []" by (rule m_group_Inr[OF g])
  have mg: "mset gs = mset g" "set gs = set g" "length gs = length g" unfolding gs_def using reordersD(1-3)[OF sort_keys_reorders] by blast+
  have l: "objectSeq r + int (length gs) < 2 ^ 64" using length_grp_all[of ?f "map utc_record rs" "[]"] ge mg(3) sv(3) by simp
  note so = save_shards_objs[OF sh sv(2) l]
  have mc: "mset (concat (map snd gs)) = mset (map utc_record rs)"
    using mset_concat_eq[OF mg(1), of snd] ge by (simp add: mset_concat_grp_all)
  have enc: "\<forall>x \<in> set (map utc_record rs). encodable x \<and> fits x"
  proof -
    have "\<forall>x \<in> set (map utc_record rs). marshal_record x \<noteq> None" using so mset_eq_setD[OF mc] by metis
    then show ?thesis using rs(1,2) by (auto simp: encodable_def utc_wf_def wf_time_def list_all_iff)
  qed
  have "group_ok ?lp x" if "x \<in> set gs" for x
  proof -
    have "(fst x, snd x) \<in> set (grp_all ?f (map utc_record rs) [])" using that mg(2) ge by simp
    then have e: "snd x = filter (\<lambda>v. ?f v = fst x) (map utc_record rs)" "fst x \<in> ?f ` set (map utc_record rs)"
      using grp_all_entry[of "fst x" "snd x" ?f "map utc_record rs"] keys_grp_all[of ?f "map utc_record rs" "[]"] by (blast, force)
    then show ?thesis using enc by (auto simp: group_ok_def list_all_iff filter_empty_conv)
  qed
  then have ok: "list_all (group_ok ?lp) gs" by (simp add: list_all_iff)
  have b': "b' = shard_objs env ?w ?n gs" using so by simp
  show d: "distinct (map fst b')" unfolding b' by (rule shard_objs_distinct[OF ok w(2,1)])
  have k: "HasPrefix (fst x) (Trim ?lp ''/'' @ ''/'') \<and> HasSuffix (fst x) ''.log.json'' \<and> obj_ok b' (fst x)" if x: "x \<in> set b'" for x
  proof -
    obtain t m where m: "fst x = shard_key (hour_prefix ?lp t) ?w m" "short_lines (ob_data (snd x))"
      using shard_objs_keys[OF ok] x unfolding b' by blast
    have "obj_data b' (fst x) = ob_data (snd x)" using alookup_distinct[OF d, of "fst x" "snd x"] x by (simp add: obj_data_def)
    then show ?thesis using prefix_ok_key[OF rs(3) w(1) m(1)] m(2) x by (simp add: obj_ok_def)
  qed
  have ho: "hour_objects rd b' h = filter (\<lambda>x. parseHourFromObjectKey (fst x) = Some h) b'"
    unfolding hour_objects_def rd using k by (intro filter_cong) auto
  show "\<forall>x \<in> set (hour_objects rd b' h). obj_ok b' (fst x)" unfolding ho using k by simp
  have "mset (filter (\<lambda>r. TruncateHour (Timestamp r) = h) (concat (map snd gs))) = mset (filter (\<lambda>r. TruncateHour (Timestamp r) = h) (map utc_record rs))"
    using mc by (metis mset_filter)
  then have "mset (object_records (hour_objects rd b' h)) = mset (map valid_record (filter (\<lambda>r. TruncateHour (Timestamp r) = h) (map utc_record rs)))"
    using ho shard_objs_records[OF ok w(1), of h env ?n] b' by (metis mset_map)
  also have "map valid_record (filter (\<lambda>r. TruncateHour (Timestamp r) = h) (map utc_record rs)) = batch_hour rs h"
    by (simp add: batch_hour_def filter_map comp_def readable_def)
  finally show m: "mset (object_records (hour_objects rd b' h)) = mset (batch_hour rs h)" .
  show "hour_objects rd b' h \<noteq> []"
  proof
    assume "hour_objects rd b' h = []"
    then show False using m rs(4) by (simp add: object_records_def)
  qed
qed

subsection \<open>Properties\<close>

text \<open>(C9) The storage backend does not show in the analytics: when the same batch is saved to log files and to MinIO and both are
  aggregated (each aggregator on the directory or the repository prefix the batch was written to, the prefix as \<^verbatim>\<open>path.Join\<close> leaves it, every line
  within the scanner's limit), the summaries of every hour of the batch have the same bytes, those of the summary of the batch's records of that hour.\<close>

theorem storage_backends_agree:
  assumes files: "SaveBatch env rs (s, fs) = ((s', fs'), None)" "reorders (se_ord env)" "fs_content fs (hour_path (baseDir s) h) = []"
      "logsDir a = baseDir s" "AggregateAll a aenv ws (st\<lparr>as_fs := fs'\<rparr>) = (st1, None)" "os_ok (ae_os aenv)" "\<forall>i. ae_ctx aenv i = None"
      "\<forall>w \<in> set ws. entry_ok a w" "distinct ws" "WFile (hour_path (baseDir s) h) \<in> set ws" "fs_file fs' (summaryPath a h) = None"
    and minio: "minio_SaveBatch menv rs (r, []) = ((r', b), None)" "shard_inv (r, [])" "objectSeq r + int (length rs) < 2 ^ 64"
      "prefix_ok (mr_logsPrefix r)" "mr_logsPrefix (ms_store ma) = mr_logsPrefix r" "minio_AggregateAll ma msenv b mst = (mst1, None)" "ms_ok msenv"
      "fs_file (as_fs mst) (minio_summaryPath ma h) = None"
    and batch: "list_all (\<lambda>r. wf_time (Timestamp r)) rs" "list_all fits rs" "hour_ok h" "batch_hour rs h \<noteq> []"
  shows "fs_content (as_fs st1) (summaryPath a h) = summary_of h (batch_hour rs h)
    \<and> fs_content (as_fs mst1) (minio_summaryPath ma h) = summary_of h (batch_hour rs h)"
proof
  have h: "json_time h" "TruncateHour h = h" using batch(3) by (simp_all add: hour_ok_def)
  obtain f where f: "fs_file fs' (hour_path (baseDir s) h) = Some f" "short_lines (fcontent f)" "hour_records (fcontent f) = batch_hour rs h"
    using file_hour[OF files(1,2) batch(1-4) files(3)] by (auto simp: short_lines_def hour_records_def raw_lines_Nil)
  have "fs_file (as_fs st1) (summaryPath a h) = Some \<lparr>fcontent = summary_of h (hour_records (fcontent f)), fmtime = clock (ae_os aenv)\<rparr>"
    using AggregateAll_hour[OF files(6-9), of h "st\<lparr>as_fs := fs'\<rparr>" f st1] files(4,5,10,11) h f by (simp add: up_to_date_def)
  then show "fs_content (as_fs st1) (summaryPath a h) = summary_of h (batch_hour rs h)" using f(3) by (simp add: fs_content_def)
  note m = minio_hour[OF minio(1-3) batch(1,2) minio(4) batch(4) minio(5)]
  obtain mst2 objs where o: "minio_AggregateAll ma msenv b mst = (mst2, None)" "mset objs = mset (map info (hour_objects (ms_store ma) b h))"
      "fs_file (as_fs mst2) (minio_summaryPath ma h) = Some (summary_file msenv b h objs)"
    using minio_AggregateAll_hour[OF minio(7) m(1-3), of mst] minio(8) by (auto simp: fresh_summary_def)
  have "mset (sort_keys objs) = mset (map info (hour_objects (ms_store ma) b h))" using o(2) reordersD(1)[OF sort_keys_reorders] by metis
  moreover have "set (hour_objects (ms_store ma) b h) \<subseteq> set b" by (auto simp: hour_objects_def)
  ultimately have "mset (hour_content b (sort_keys objs)) = mset (batch_hour rs h)"
    using hour_content_mset[OF m(1)] m(4) by simp
  note c = summary_of_mset[OF this, of h]
  show "fs_content (as_fs mst1) (minio_summaryPath ma h) = summary_of h (batch_hour rs h)"
    using o(1,3) minio(6) c by (simp add: fs_content_def summary_file_def)
qed

lemma storage_backends_agree_witness:
  "\<exists>st1 mst1. AggregateAll ex_svc ex_agg [WFile (hour_path ''logs'' (TruncateHour ex_time))]
        \<lparr>as_fs = snd (fst (ex_out ex_env)), as_poll = 0, as_obs = obs0\<rparr> = (st1, None)
    \<and> minio_AggregateAll (NewMinIOAggregationService (ex_repo ''w'') ''a'' 0) ex_ms (snd (fst (minio_SaveBatch ex_store ex_batch (ex_repo ''w'', []))))
        \<lparr>as_fs = ex_fs, as_poll = 0, as_obs = obs0\<rparr> = (mst1, None)
    \<and> fs_content (as_fs st1) (summaryPath ex_svc (TruncateHour ex_time)) =
        fs_content (as_fs mst1) (minio_summaryPath (NewMinIOAggregationService (ex_repo ''w'') ''a'' 0) (TruncateHour ex_time))"
proof -
  let ?h = "TruncateHour ex_time" and ?st = "\<lparr>as_fs = snd (fst (ex_out ex_env)), as_poll = 0, as_obs = obs0\<rparr>"
    and ?ma = "NewMinIOAggregationService (ex_repo ''w'') ''a'' 0" and ?mst = "\<lparr>as_fs = ex_fs, as_poll = 0, as_obs = obs0\<rparr>"
  obtain st1 where a: "AggregateAll ex_svc ex_agg [WFile (hour_path ''logs'' ?h)] ?st = (st1, None)" using AggregateAll_total[OF ex_agg_facts(2)] by blast
  obtain r' b where m: "minio_SaveBatch ex_store ex_batch (ex_repo ''w'', []) = ((r', b), None)" using ex_minio_save by (metis prod.collapse)
  have h: "hour_ok ?h" by code_simp
  have batch: "list_all (\<lambda>r. wf_time (Timestamp r)) ex_batch" "list_all fits ex_batch" "batch_hour ex_batch ?h \<noteq> []"
    by (simp add: ex_batch_def wf_time_def, code_simp, code_simp)
  have pre: "prefix_ok ''logs''" by code_simp
  have nf: "fs_file (snd (fst (ex_out ex_env))) (summaryPath ex_svc ?h) = None" by code_simp
  have inv: "shard_inv (ex_repo ''w'', [])" by (rule ex_repo_inv) simp
  have seq: "objectSeq (ex_repo ''w'') + int (length ex_batch) < 2 ^ 64" by (simp add: ex_repo_def ex_batch_def)
  note mh = minio_hour[OF m inv seq batch(1,2) _ batch(3), where rd = "ms_store ?ma"]
  obtain mst1 where ms: "minio_AggregateAll ?ma ex_ms b ?mst = (mst1, None)"
    using minio_AggregateAll_hour[OF ex_ms_ok mh(1-3)] pre by (auto simp: ex_repo_def NewMinIOAggregationService_def)
  have "fs_content (as_fs st1) (summaryPath ex_svc ?h) = summary_of ?h (batch_hour ex_batch ?h)
    \<and> fs_content (as_fs mst1) (minio_summaryPath ?ma ?h) = summary_of ?h (batch_hour ex_batch ?h)"
    by (rule storage_backends_agree[where aenv = ex_agg and ws = "[WFile (hour_path ''logs'' ?h)]" and st = ?st,
          OF ex_pairs[of ex_env, unfolded ex_save] _ _ _ _ _ _ _ _ _ nf m inv seq _ _ ms ex_ms_ok _ batch(1,2) h batch(3)])
      (use a pre h in \<open>auto simp del: AggregateAll.simps simp: ex_repo_def ex_fs_def fs_content_def fs_file_def NewFileRepo_def NewMinIOAggregationService_def entry_ok_def hour_ok_def\<close>)
  then show ?thesis using a ms m by (metis fst_conv snd_conv)
qed

end
