(* ===== verification/Config.thy ===== *)
theory Config
  imports Complex_Main Kafka_Queue
begin

section \<open>Configuration (config/config.go)\<close>

text \<open>
  The YAML structs are records with the fields in the order of the source. The YAML library is not part of the program:
  \<open>Load\<close> takes its \<^verbatim>\<open>Unmarshal\<close> as an argument, and the answer of \<^verbatim>\<open>os.ReadFile\<close>. \<open>ParseDuration\<close> is
  \<^verbatim>\<open>time.ParseDuration\<close>; the floating-point product for a fraction is the argument \<open>ff\<close> (digits of the fraction,
  unit, scale). Percentages are rational numbers.
\<close>

record ServerConfig =
  Addr :: string
  ReadHeaderTimeout :: duration
  ReadTimeout :: duration
  srv_WriteTimeout :: duration
  IdleTimeout :: duration
  RequestTimeout :: duration

record AuthSettings =
  Enabled :: bool
  HeaderName :: string
  Keys :: "string list"

record MinIOSettings =
  Endpoint :: string
  Bucket :: string
  AccessKey :: string
  SecretKey :: string
  UseSSL :: bool
  LogsPrefix :: string
  AnalyticsPrefix :: string

record StorageConfig =
  Backend :: string
  LogsDir :: string
  AnalyticsDir :: string
  MinIO :: MinIOSettings

record IngestionSettings =
  ing_QueueBufferSize :: int
  ProducerWorkers :: int
  ProducerWriteTimeout :: duration
  ing_QueueHighWaterPercent :: rat
  SyncOnIngest :: bool
  ing_CircuitFailureThreshold :: int
  ing_CircuitCooldown :: duration

record ConsumerSettings =
  cons_FlushSize :: int
  cons_FlushInterval :: duration
  cons_PersistTimeout :: duration

record Config =
  Version :: int
  Server :: ServerConfig
  Storage :: StorageConfig
  Auth :: AuthSettings
  Interval :: string
  Ingestion :: IngestionSettings
  Consumer :: ConsumerSettings
  Kafka :: KafkaSettings

definition blank :: "string \<Rightarrow> bool" where
  "blank s \<longleftrightarrow> TrimSpace s = []"

abbreviation dflt :: "int \<Rightarrow> int \<Rightarrow> int" where
  "dflt v d \<equiv> (if v = 0 then d else v)"

subsection \<open>Defaults\<close>

definition server_defaults :: "ServerConfig \<Rightarrow> ServerConfig" where
  "server_defaults s = s\<lparr>ReadHeaderTimeout := dflt (ReadHeaderTimeout s) (2 * Second), ReadTimeout := dflt (ReadTimeout s) (10 * Second),
     srv_WriteTimeout := dflt (srv_WriteTimeout s) (10 * Second), IdleTimeout := dflt (IdleTimeout s) (60 * Second),
     RequestTimeout := dflt (RequestTimeout s) (5 * Second)\<rparr>"

definition auth_defaults :: "AuthSettings \<Rightarrow> AuthSettings" where
  "auth_defaults a =
     (let name = TrimSpace (HeaderName a);
          a1 = a\<lparr>HeaderName := (if name = [] then ''X-API-Key'' else name)\<rparr>
      in if Keys a1 = [] then a1 else a1\<lparr>Keys := filter (\<lambda>k. k \<noteq> []) (map TrimSpace (Keys a1))\<rparr>)"

definition backend_normalized :: "string \<Rightarrow> string" where
  "backend_normalized b = ToLower (TrimSpace b)"

definition backend_IsValid :: "string \<Rightarrow> bool" where
  "backend_IsValid b \<longleftrightarrow> backend_normalized b = ''file'' \<or> backend_normalized b = ''minio''"

definition minio_defaults :: "MinIOSettings \<Rightarrow> MinIOSettings" where
  "minio_defaults m = m\<lparr>LogsPrefix := (if blank (LogsPrefix m) then ''logs'' else LogsPrefix m),
     AnalyticsPrefix := (if blank (AnalyticsPrefix m) then ''analytics'' else AnalyticsPrefix m)\<rparr>"

definition storage_defaults :: "StorageConfig \<Rightarrow> StorageConfig" where
  "storage_defaults s =
     (let b = backend_normalized (Backend s) in
      s\<lparr>Backend := (if b = [] then ''file'' else b),
        LogsDir := (if blank (LogsDir s) then ''logs'' else LogsDir s),
        AnalyticsDir := (if blank (AnalyticsDir s) then ''analytics'' else AnalyticsDir s),
        MinIO := minio_defaults (MinIO s)\<rparr>)"

definition ingestion_defaults :: "IngestionSettings \<Rightarrow> IngestionSettings" where
  "ingestion_defaults i = i\<lparr>ing_QueueBufferSize := dflt (ing_QueueBufferSize i) 10000, ProducerWorkers := dflt (ProducerWorkers i) 10,
     ProducerWriteTimeout := dflt (ProducerWriteTimeout i) (10 * Second),
     ing_QueueHighWaterPercent := (if ing_QueueHighWaterPercent i = 0 then 9 / 10 else ing_QueueHighWaterPercent i),
     ing_CircuitFailureThreshold := (if ing_CircuitFailureThreshold i \<le> 0 then 5 else ing_CircuitFailureThreshold i),
     ing_CircuitCooldown := dflt (ing_CircuitCooldown i) (10 * Second)\<rparr>"

definition consumer_defaults :: "ConsumerSettings \<Rightarrow> ConsumerSettings" where
  "consumer_defaults c = c\<lparr>cons_FlushSize := dflt (cons_FlushSize c) 512,
     cons_FlushInterval := dflt (cons_FlushInterval c) (500 * Millisecond),
     cons_PersistTimeout := dflt (cons_PersistTimeout c) (5 * Second)\<rparr>"

definition kafka_defaults :: "KafkaSettings \<Rightarrow> KafkaSettings" where
  "kafka_defaults k = k\<lparr>Topic := (if blank (Topic k) then ''logs'' else Topic k),
     GroupID := (if blank (GroupID k) then ''logs-consumer-group'' else GroupID k),
     BatchSize := dflt (BatchSize k) 100, BatchTimeout := dflt (BatchTimeout k) Second, Consumers := dflt (Consumers k) 1,
     Compression := (if blank (Compression k) then ''none'' else Compression k)\<rparr>"

definition applyDefaults :: "Config \<Rightarrow> Config" where
  "applyDefaults c = c\<lparr>Version := dflt (Version c) 1,
     Server := server_defaults ((Server c)\<lparr>Addr := (if blank (Addr (Server c)) then '':8082'' else Addr (Server c))\<rparr>),
     Storage := storage_defaults (Storage c), Auth := auth_defaults (Auth c),
     Interval := (if blank (Interval c) then ''1m'' else Interval c),
     Ingestion := ingestion_defaults (Ingestion c), Consumer := consumer_defaults (Consumer c), Kafka := kafka_defaults (Kafka c)\<rparr>"

definition validate_config :: "Config \<Rightarrow> goerr option" where
  "validate_config c =
     (if \<not> backend_IsValid (Backend (Storage c)) then Some (ErrMsg (''invalid storage backend '' @ qstr (Backend (Storage c)))) else None)"

definition Load :: "(string \<Rightarrow> Config result) \<Rightarrow> string result \<Rightarrow> Config result" where
  "Load unmarshal readFile =
     (case readFile of
        Inl e \<Rightarrow> Inl (wrap ''read config: '' e)
      | Inr data \<Rightarrow>
          (case unmarshal data of
             Inl e \<Rightarrow> Inl (wrap ''parse config: '' e)
           | Inr cfg \<Rightarrow>
               (let c = applyDefaults cfg in
                case validate_config c of Some e \<Rightarrow> Inl e | None \<Rightarrow> Inr c)))"

subsection \<open>Durations\<close>

definition unitMap :: "(string \<times> int) list" where
  "unitMap = [(''ns'', 1), (''us'', 1000), ([CHR 0xC2, CHR 0xB5, CHR ''s''], 1000), ([CHR 0xCE, CHR 0xBC, CHR ''s''], 1000),
     (''ms'', 1000000), (''s'', 1000000000), (''m'', 60000000000), (''h'', 3600000000000)]"

fun leadingInt :: "int \<Rightarrow> string \<Rightarrow> (int \<times> string) option" where
  "leadingInt x [] = Some (x, [])"
| "leadingInt x (c # s) =
     (if \<not> is_digit c then Some (x, c # s)
      else if x > 2 ^ 63 div 10 then None
      else let y = x * 10 + int (dval c) in if y > 2 ^ 63 then None else leadingInt y s)"

fun leadingFraction :: "bool \<Rightarrow> int \<Rightarrow> int \<Rightarrow> string \<Rightarrow> int \<times> int \<times> string" where
  "leadingFraction over x scale [] = (x, scale, [])"
| "leadingFraction over x scale (c # s) =
     (if \<not> is_digit c then (x, scale, c # s)
      else if over \<or> x > (2 ^ 63 - 1) div 10 then leadingFraction True x scale s
      else let y = x * 10 + int (dval c) in
        if y > 2 ^ 63 then leadingFraction True x scale s else leadingFraction False y (scale * 10) s)"

lemma leadingInt_length: "leadingInt x s = Some (y, r) \<Longrightarrow> length r \<le> length s"
  by (induction x s rule: leadingInt.induct) (auto simp: Let_def split: if_splits)

lemma leadingFraction_length: "leadingFraction ov x sc s = (y, sc', r) \<Longrightarrow> length r \<le> length s"
  by (induction ov x sc s rule: leadingFraction.induct) (auto simp: Let_def split: if_splits)

text \<open>One number with its unit: the value in nanoseconds and the rest of the text.\<close>

definition number_char :: "char \<Rightarrow> bool" where
  "number_char c \<longleftrightarrow> c = CHR ''.'' \<or> is_digit c"

definition get_fraction :: "string \<Rightarrow> int \<times> int \<times> string \<times> bool" where
  "get_fraction s =
     (case s of
        [] \<Rightarrow> (0, 1, s, False)
      | c # r \<Rightarrow> if c = CHR ''.'' then (case leadingFraction False 0 1 r of (f, scale, r') \<Rightarrow> (f, scale, r', length r' \<noteq> length r))
                 else (0, 1, s, False))"

definition get_quantity :: "(int \<Rightarrow> int \<Rightarrow> int \<Rightarrow> int) \<Rightarrow> string \<Rightarrow> (int \<times> string) option" where
  "get_quantity ff s =
     (if s = [] \<or> \<not> number_char (hd s) then None
      else case leadingInt 0 s of
        None \<Rightarrow> None
      | Some (v, s1) \<Rightarrow>
          (case get_fraction s1 of (f, scale, s2, post) \<Rightarrow>
             if length s1 = length s \<and> \<not> post then None
             else let u = takeWhile (\<lambda>c. \<not> number_char c) s2; s3 = dropWhile (\<lambda>c. \<not> number_char c) s2 in
               if u = [] then None
               else (case alookup unitMap u of
                       None \<Rightarrow> None
                     | Some unit \<Rightarrow>
                         if v > 2 ^ 63 div unit then None
                         else let w = (if f > 0 then v * unit + ff f unit scale else v * unit) in
                           if f > 0 \<and> w > 2 ^ 63 then None else Some (w, s3))))"

lemma get_fraction_length: "get_fraction s = (f, sc, r, post) \<Longrightarrow> length r \<le> length s"
  by (auto simp: get_fraction_def dest: leadingFraction_length split: list.splits if_splits prod.splits)

lemma get_quantity_length: "get_quantity ff s = Some (w, r) \<Longrightarrow> length r < length s"
proof -
  assume q: "get_quantity ff s = Some (w, r)"
  then obtain v s1 where i: "leadingInt 0 s = Some (v, s1)" by (auto simp: get_quantity_def split: if_splits option.splits)
  obtain f sc s2 post where g: "get_fraction s1 = (f, sc, s2, post)" by (metis prod.exhaust)
  let ?u = "takeWhile (\<lambda>c. \<not> number_char c) s2"
  have u: "?u \<noteq> []" "r = dropWhile (\<lambda>c. \<not> number_char c) s2"
    using q i g by (auto simp: get_quantity_def Let_def split: if_splits option.splits)
  have "length s2 = length ?u + length r" unfolding u(2) by (metis length_append takeWhile_dropWhile_id)
  then show ?thesis using u(1) get_fraction_length[OF g] leadingInt_length[OF i] by (cases ?u) auto
qed

function quantities :: "(int \<Rightarrow> int \<Rightarrow> int \<Rightarrow> int) \<Rightarrow> int \<Rightarrow> string \<Rightarrow> int option" where
  "quantities ff d s =
     (if s = [] then Some d
      else case get_quantity ff s of
        None \<Rightarrow> None
      | Some (w, r) \<Rightarrow> if d + w > 2 ^ 63 then None else quantities ff (d + w) r)"
  by pat_completeness auto
termination
  by (relation "measure (\<lambda>(ff, d, s). length s)") (auto dest: get_quantity_length)

declare quantities.simps [simp del]

definition ParseDuration :: "(int \<Rightarrow> int \<Rightarrow> int \<Rightarrow> int) \<Rightarrow> string \<Rightarrow> duration result" where
  "ParseDuration ff orig =
     (let neg = (orig \<noteq> [] \<and> hd orig = CHR ''-'');
          s = (if orig \<noteq> [] \<and> (hd orig = CHR ''-'' \<or> hd orig = CHR ''+'') then tl orig else orig) in
      if s = ''0'' then Inr 0
      else if s = [] then Inl (TimeErr orig)
      else case quantities ff 0 s of
        None \<Rightarrow> Inl (TimeErr orig)
      | Some d \<Rightarrow> if neg then Inr (- d) else if d > 2 ^ 63 - 1 then Inl (TimeErr orig) else Inr d)"

definition parseDurationOrFallback :: "(int \<Rightarrow> int \<Rightarrow> int \<Rightarrow> int) \<Rightarrow> string \<Rightarrow> duration \<Rightarrow> duration result" where
  "parseDurationOrFallback ff val fallback =
     (let v = TrimSpace val in if v = [] then Inr fallback else ParseDuration ff v)"

definition config_AggregationInterval :: "(int \<Rightarrow> int \<Rightarrow> int \<Rightarrow> int) \<Rightarrow> Config \<Rightarrow> duration \<Rightarrow> duration result" where
  "config_AggregationInterval ff c fallback = parseDurationOrFallback ff (Interval c) fallback"

subsection \<open>Properties of a loaded configuration\<close>

text \<open>Nothing is left unset: the conditions on every field that has a default.\<close>

definition config_set :: "Config \<Rightarrow> bool" where
  "config_set c \<longleftrightarrow>
     Version c \<noteq> 0 \<and> \<not> blank (Addr (Server c)) \<and> ReadHeaderTimeout (Server c) \<noteq> 0 \<and> ReadTimeout (Server c) \<noteq> 0
     \<and> srv_WriteTimeout (Server c) \<noteq> 0 \<and> IdleTimeout (Server c) \<noteq> 0 \<and> RequestTimeout (Server c) \<noteq> 0
     \<and> backend_IsValid (Backend (Storage c)) \<and> \<not> blank (LogsDir (Storage c)) \<and> \<not> blank (AnalyticsDir (Storage c))
     \<and> \<not> blank (LogsPrefix (MinIO (Storage c))) \<and> \<not> blank (AnalyticsPrefix (MinIO (Storage c)))
     \<and> HeaderName (Auth c) \<noteq> [] \<and> TrimSpace (HeaderName (Auth c)) = HeaderName (Auth c)
     \<and> list_all (\<lambda>k. k \<noteq> [] \<and> TrimSpace k = k) (Keys (Auth c)) \<and> \<not> blank (Interval c)
     \<and> ing_QueueBufferSize (Ingestion c) \<noteq> 0 \<and> ProducerWorkers (Ingestion c) \<noteq> 0 \<and> ProducerWriteTimeout (Ingestion c) \<noteq> 0
     \<and> ing_QueueHighWaterPercent (Ingestion c) \<noteq> 0 \<and> 0 < ing_CircuitFailureThreshold (Ingestion c) \<and> ing_CircuitCooldown (Ingestion c) \<noteq> 0
     \<and> cons_FlushSize (Consumer c) \<noteq> 0 \<and> cons_FlushInterval (Consumer c) \<noteq> 0 \<and> cons_PersistTimeout (Consumer c) \<noteq> 0
     \<and> \<not> blank (Topic (Kafka c)) \<and> \<not> blank (GroupID (Kafka c)) \<and> BatchSize (Kafka c) \<noteq> 0 \<and> BatchTimeout (Kafka c) \<noteq> 0
     \<and> Consumers (Kafka c) \<noteq> 0 \<and> \<not> blank (Compression (Kafka c))"

lemmas default_defs = applyDefaults_def server_defaults_def storage_defaults_def minio_defaults_def auth_defaults_def
  ingestion_defaults_def consumer_defaults_def kafka_defaults_def

lemma literals_not_blank:
  "\<not> blank '':8082''" "\<not> blank ''logs''" "\<not> blank ''analytics''" "\<not> blank ''1m''" "\<not> blank ''logs-consumer-group''" "\<not> blank ''none''"
  "TrimSpace ''X-API-Key'' = ''X-API-Key''"
  "backend_normalized ''file'' = ''file''" "backend_normalized ''minio'' = ''minio''"
  by code_simp+

lemma applyDefaults_set:
  assumes "validate_config (applyDefaults c) = None"
  shows "config_set (applyDefaults c)"
proof -
  have "backend_IsValid (Backend (Storage (applyDefaults c)))" using assms by (simp add: validate_config_def split: if_splits)
  then show ?thesis
    using literals_not_blank by (simp add: config_set_def default_defs Let_def list_all_iff blank_def) auto
qed

lemma applyDefaults_id:
  assumes "config_set c" "Backend (Storage c) \<in> {''file'', ''minio''}"
  shows "applyDefaults c = c"
proof -
  have "filter (\<lambda>k. k \<noteq> []) (map TrimSpace (Keys (Auth c))) = Keys (Auth c)"
    using assms(1) unfolding config_set_def by (simp add: list_all_iff map_idI filter_id_conv)
  moreover have "backend_normalized (Backend (Storage c)) = Backend (Storage c)" "Backend (Storage c) \<noteq> []"
    using assms(2) literals_not_blank(8,9) by auto
  ultimately show ?thesis using assms(1) by (simp add: config_set_def default_defs Let_def blank_def)
qed

lemma loaded_backend:
  assumes "validate_config (applyDefaults c) = None"
  shows "Backend (Storage (applyDefaults c)) \<in> {''file'', ''minio''}"
proof -
  let ?b = "backend_normalized (Backend (Storage c))"
  have "backend_normalized ?b = ?b" by (simp add: backend_normalized_def TrimSpace_ToLower ToLower_idem)
  moreover have "Backend (Storage (applyDefaults c)) = (if ?b = [] then ''file'' else ?b)" by (simp add: default_defs Let_def)
  ultimately show ?thesis using assms by (auto simp: validate_config_def backend_IsValid_def split: if_splits)
qed

subsection \<open>Properties\<close>

text \<open>(C39) A configuration that loads is complete: every field with a default is set (texts are not blank, numbers and durations are not
  zero; only the circuit threshold is sure to be positive, any other negative number is taken as it is), the storage backend is one of the two
  the application can build, whatever its spelling in the file, the API keys are non-empty and without surrounding space; and applying the
  defaults again changes nothing.\<close>

theorem loaded_config_complete:
  assumes "Load unmarshal readFile = Inr c"
  shows "config_set c \<and> Backend (Storage c) \<in> {''file'', ''minio''} \<and> applyDefaults c = c"
proof -
  obtain c0 where c: "c = applyDefaults c0" "validate_config c = None"
    using assms by (auto simp: Load_def Let_def split: sum.splits option.splits)
  have set: "config_set c" using applyDefaults_set[of c0] c by simp
  have backend: "Backend (Storage c) \<in> {''file'', ''minio''}" using loaded_backend[of c0] c by simp
  show ?thesis using set backend applyDefaults_id[OF set backend] by (intro conjI)
qed

definition zero_config :: Config where
  "zero_config = \<lparr>Version = 0,
     Server = \<lparr>Addr = [], ReadHeaderTimeout = 0, ReadTimeout = 0, srv_WriteTimeout = 0, IdleTimeout = 0, RequestTimeout = 0\<rparr>,
     Storage = \<lparr>Backend = [], LogsDir = [], AnalyticsDir = [], MinIO = \<lparr>Endpoint = [], Bucket = [], AccessKey = [], SecretKey = [],
       UseSSL = False, LogsPrefix = [], AnalyticsPrefix = []\<rparr>\<rparr>,
     Auth = \<lparr>Enabled = True, HeaderName = [], Keys = ['' k1 '', '' '']\<rparr>, Interval = [],
     Ingestion = \<lparr>ing_QueueBufferSize = 0, ProducerWorkers = 0, ProducerWriteTimeout = 0, ing_QueueHighWaterPercent = 0, SyncOnIngest = False,
       ing_CircuitFailureThreshold = 0, ing_CircuitCooldown = 0\<rparr>,
     Consumer = \<lparr>cons_FlushSize = 0, cons_FlushInterval = 0, cons_PersistTimeout = 0\<rparr>,
     Kafka = \<lparr>Brokers = [], Topic = [], GroupID = [], BatchSize = 0, BatchTimeout = 0, Consumers = 0, RequireAllAcks = False,
       BatchBytes = 0, Compression = [], Async = False\<rparr>\<rparr>"

lemma zero_config_loads: "Load (\<lambda>_. Inr zero_config) (Inr []) = Inr (applyDefaults zero_config)"
  "Backend (Storage (applyDefaults zero_config)) = ''file''"
proof -
  have b: "backend_normalized [] = []" by (simp add: backend_normalized_def)
  then show "Backend (Storage (applyDefaults zero_config)) = ''file''" by (simp add: default_defs Let_def zero_config_def)
  then show "Load (\<lambda>_. Inr zero_config) (Inr []) = Inr (applyDefaults zero_config)"
    using literals_not_blank(8) by (simp add: Load_def validate_config_def backend_IsValid_def Let_def)
qed

lemma loaded_config_complete_witness: "applyDefaults (applyDefaults zero_config) = applyDefaults zero_config"
  using loaded_config_complete[OF zero_config_loads(1)] by simp

end
