(* ===== verification/Profiling.thy ===== *)
theory Profiling
  imports Metrics Go_Io
begin

section \<open>Environment and profiling (util/env.go, util/profile.go)\<close>

text \<open>
  \<open>env\<close> is \<^verbatim>\<open>os.Getenv\<close>: the value of a variable, empty when it is not set. The runtime's profiler is not part of the program:
  \<open>prof_env\<close> holds what the calls answer (creating a profile file, starting the CPU profile, writing the heap and the goroutine profile;
  \<open>pf_lookup\<close>: whether the goroutine profile exists) and the text of the elapsed time. \<open>MaybeStartPprof\<close> starts the
  server of \<^verbatim>\<open>net/http/pprof\<close> in a goroutine: its result is the address it serves, \<open>listenErr\<close> what \<^verbatim>\<open>ListenAndServe\<close> returns.
\<close>

definition GetEnv :: "(string \<Rightarrow> string) \<Rightarrow> string \<Rightarrow> string \<Rightarrow> string" where
  "GetEnv env key fallback = (let val = TrimSpace (env key) in if val \<noteq> [] then val else fallback)"

text \<open>\<^verbatim>\<open>strconv.ParseBool\<close>.\<close>

definition ParseBool :: "string \<Rightarrow> bool option" where
  "ParseBool s =
     (if s \<in> set [''1'', ''t'', ''T'', ''true'', ''TRUE'', ''True''] then Some True
      else if s \<in> set [''0'', ''f'', ''F'', ''false'', ''FALSE'', ''False''] then Some False else None)"

definition parseBoolEnv :: "(string \<Rightarrow> string) \<Rightarrow> string \<Rightarrow> bool" where
  "parseBoolEnv env key =
     (let val = TrimSpace (env key) in
      if val = [] then False else case ParseBool val of None \<Rightarrow> False | Some b \<Rightarrow> b)"

definition ProfileEnabled :: "(string \<Rightarrow> string) \<Rightarrow> bool" where
  "ProfileEnabled env = parseBoolEnv env ''PROFILE_ENABLED''"

definition CaptureProfiles :: "(string \<Rightarrow> string) \<Rightarrow> bool" where
  "CaptureProfiles env = parseBoolEnv env ''PROFILE_CAPTURE''"

definition MaybeStartPprof :: "(string \<Rightarrow> string) \<Rightarrow> goerr option \<Rightarrow> obs \<Rightarrow> obs \<times> string option" where
  "MaybeStartPprof env listenErr ob =
     (if \<not> ProfileEnabled env then (ob, None)
      else let addr = GetEnv env ''PROFILE_ADDR'' '':6060'';
               ob1 = log_msg LInfo ''pprof server listening'' [F ''addr'' (FStr addr)] ob in
        (case listenErr of
           None \<Rightarrow> ob1
         | Some e \<Rightarrow> if err_is e ErrServerClosed then ob1 else log_msg LError ''pprof server error'' [F ''error'' (FErr e)] ob1, Some addr))"

record prof_env =
  pf_create :: "string \<Rightarrow> goerr option"
  pf_startCPU :: "goerr option"
  pf_heap :: "goerr option"
  pf_lookup :: bool
  pf_goroutine :: "goerr option"
  pf_duration :: string

definition startCPUProfile :: "prof_env \<Rightarrow> string \<Rightarrow> goerr option" where
  "startCPUProfile env path = (case pf_create env path of Some e \<Rightarrow> Some e | None \<Rightarrow> pf_startCPU env)"

definition dumpHeap :: "prof_env \<Rightarrow> string \<Rightarrow> obs \<Rightarrow> obs" where
  "dumpHeap env path ob =
     (case pf_create env path of
        Some e \<Rightarrow> log_msg LError ''cannot create heap profile'' [F ''path'' (FStr path), F ''error'' (FErr e)] ob
      | None \<Rightarrow>
          (case pf_heap env of
             Some e \<Rightarrow> log_msg LError ''failed to write heap profile'' [F ''path'' (FStr path), F ''error'' (FErr e)] ob
           | None \<Rightarrow> ob))"

definition dumpGoroutine :: "prof_env \<Rightarrow> string \<Rightarrow> obs \<Rightarrow> obs" where
  "dumpGoroutine env path ob =
     (case pf_create env path of
        Some e \<Rightarrow> log_msg LError ''cannot create goroutine profile'' [F ''path'' (FStr path), F ''error'' (FErr e)] ob
      | None \<Rightarrow>
          if pf_lookup env then
            (case pf_goroutine env of
               Some e \<Rightarrow> log_msg LError ''failed to write goroutine profile'' [F ''path'' (FStr path), F ''error'' (FErr e)] ob
             | None \<Rightarrow> ob)
          else log_msg LWarn ''goroutine profile lookup returned nil'' [F ''path'' (FStr path)] ob)"

text \<open>\<open>action\<close> works on the log, the file system and whatever else (\<open>'x\<close>) it changes. It may also end the process (a
  \<^verbatim>\<open>Fatal\<close> call): then nothing after it runs, deferred calls included.\<close>

datatype 's run_result = Exited 's | Returned 's "goerr option"

definition WithProfiling ::
  "prof_env \<Rightarrow> os_env \<Rightarrow> string \<Rightarrow> string \<Rightarrow> (obs \<times> fsys \<times> 'x \<Rightarrow> (obs \<times> fsys \<times> 'x) run_result) \<Rightarrow>
   obs \<times> fsys \<times> 'x \<Rightarrow> (obs \<times> fsys \<times> 'x) run_result" where
  "WithProfiling env os dir profileName action st =
     (case st of (ob, fs, x) \<Rightarrow>
        case MkdirAll os dir fs of
          (fs1, Some e) \<Rightarrow> Returned (ob, fs1, x) (Some (wrap ''create profiling dir: '' e))
        | (fs1, None) \<Rightarrow>
            let ob1 = (case startCPUProfile env (Join [dir, ''cpu_'' @ profileName @ ''.prof'']) of
                         None \<Rightarrow> ob
                       | Some e \<Rightarrow> log_msg LWarn ''cpu profiling disabled'' [F ''error'' (FErr e)] ob) in
            (case action (ob1, fs1, x) of
               Exited st2 \<Rightarrow> Exited st2
             | Returned (ob2, fs2, x2) err \<Rightarrow>
                 let ob3 = log_msg LInfo ''profiling completed'' [F ''profile'' (FStr profileName), F ''duration'' (FStr (pf_duration env))] ob2;
                     ob4 = dumpHeap env (Join [dir, ''heap_'' @ profileName @ ''.prof'']) ob3;
                     ob5 = dumpGoroutine env (Join [dir, ''goroutine_'' @ profileName @ ''.prof'']) ob4
                 in Returned (ob5, fs2, x2) err))"

subsection \<open>Lemmas\<close>

text \<open>Whatever the profiler answers, profiling returns what the action returns, and runs it exactly when the directory can be made.\<close>

lemma WithProfiling_result:
  assumes "WithProfiling env os dir name action (ob, fs, x) = Returned (ob', fs', x') err"
  shows "(\<exists>e. MkdirAll os dir fs = (fs', Some e) \<and> x' = x \<and> err \<noteq> None)
    \<or> (\<exists>ob1 fs1 ob2. MkdirAll os dir fs = (fs1, None) \<and> action (ob1, fs1, x) = Returned (ob2, fs', x') err)"
proof -
  obtain fs1 me where m: "MkdirAll os dir fs = (fs1, me)" by fastforce
  define ob1 where "ob1 = (case startCPUProfile env (Join [dir, ''cpu_'' @ name @ ''.prof'']) of None \<Rightarrow> ob
     | Some e \<Rightarrow> log_msg LWarn ''cpu profiling disabled'' [F ''error'' (FErr e)] ob)"
  show ?thesis
  proof (cases me)
    case None
    then show ?thesis using assms m unfolding WithProfiling_def prod.case m None option.case ob1_def[symmetric] Let_def
      by (cases "action (ob1, fs1, x)") auto
  qed (use assms m in \<open>auto simp: WithProfiling_def\<close>)
qed

lemma WithProfiling_exited:
  assumes "WithProfiling env os dir name action (ob, fs, x) = Exited st"
  shows "\<exists>ob1 fs1. action (ob1, fs1, x) = Exited st"
  using assms by (auto simp: WithProfiling_def Let_def split: prod.splits option.splits run_result.splits)

end
