(* ===== verification/App.thy ===== *)
theory App
  imports Readiness Backends Consumer Ingestion Config Profiling
begin

section \<open>The application (cmd/bootstrap/app.go)\<close>

text \<open>
  \<open>NewAppWithBuildInfo\<close> turns a configuration file into an application, \<open>BuildApp\<close> creates its services. What the outside
  answers while they are created (MinIO client, host name, brokers) is the record \<open>build_env\<close>. The result of \<open>BuildApp\<close> is the record
  \<open>running\<close> of the services it made, in place of the pointers and closures of the source; the cleanups are
  names of the services they close, in the order they were registered (\<open>runCleanups\<close> goes backwards). Goroutines started here are the
  step relations of the components: the readers and the batch writer (\<open>Consumer_Machine\<close>), the producer's workers
  (\<open>Producer_Async\<close>) and the aggregation loops.
\<close>

record AppConfig =
  app_Addr :: string
  app_ReadHeaderTimeout :: duration
  app_ReadTimeout :: duration
  app_WriteTimeout :: duration
  app_IdleTimeout :: duration
  app_RequestTimeout :: duration
  app_Version :: int
  app_LogsDir :: string
  app_AnalyticsDir :: string
  app_StorageBackend :: string
  app_MinIO :: MinIOSettings
  app_Auth :: AuthSettings
  app_AggregationInterval :: duration
  app_KafkaSettings :: "KafkaSettings option"
  app_Ingestion :: IngestionSettings
  app_Consumer :: ConsumerSettings

record App =
  cfg :: AppConfig
  buildInfo :: BuildInfo

definition NewAppWithBuildInfo ::
  "(int \<Rightarrow> int \<Rightarrow> int \<Rightarrow> int) \<Rightarrow> (string \<Rightarrow> Config result) \<Rightarrow> (string \<Rightarrow> string result) \<Rightarrow> string \<Rightarrow> BuildInfo \<Rightarrow> App result" where
  "NewAppWithBuildInfo ff unmarshal readFile configPath bi =
     (if TrimSpace configPath = [] then Inl (ErrMsg ''config file path is required'')
      else case Load unmarshal (readFile configPath) of
        Inl e \<Rightarrow> Inl (wrap ''load config file: '' e)
      | Inr fileCfg \<Rightarrow>
          (case config_AggregationInterval ff fileCfg 0 of
             Inl e \<Rightarrow> Inl (wrap ''invalid aggregation interval: '' e)
           | Inr aggInterval \<Rightarrow>
               if aggInterval \<le> 0 then Inl (ErrMsg ''aggregation interval must be positive'')
               else Inr \<lparr>cfg = \<lparr>app_Addr = Addr (Server fileCfg), app_ReadHeaderTimeout = ReadHeaderTimeout (Server fileCfg),
                   app_ReadTimeout = ReadTimeout (Server fileCfg), app_WriteTimeout = srv_WriteTimeout (Server fileCfg),
                   app_IdleTimeout = IdleTimeout (Server fileCfg), app_RequestTimeout = RequestTimeout (Server fileCfg),
                   app_Version = Version fileCfg, app_LogsDir = LogsDir (Storage fileCfg), app_AnalyticsDir = AnalyticsDir (Storage fileCfg),
                   app_StorageBackend = Backend (Storage fileCfg), app_MinIO = MinIO (Storage fileCfg), app_Auth = Auth fileCfg,
                   app_AggregationInterval = aggInterval, app_KafkaSettings = Some (Kafka fileCfg), app_Ingestion = Ingestion fileCfg,
                   app_Consumer = Consumer fileCfg\<rparr>, buildInfo = normalizeBuildInfo bi\<rparr>))"

definition NewApp ::
  "(int \<Rightarrow> int \<Rightarrow> int \<Rightarrow> int) \<Rightarrow> (string \<Rightarrow> Config result) \<Rightarrow> (string \<Rightarrow> string result) \<Rightarrow> string \<Rightarrow> App result" where
  "NewApp ff unmarshal readFile configPath = NewAppWithBuildInfo ff unmarshal readFile configPath \<lparr>bi_Version = [], bi_Commit = [], bi_BuildDate = []\<rparr>"

subsection \<open>Building the services\<close>

record build_env =
  be_clientErr :: "goerr option"
  be_writerVars :: "string list"
  be_host :: "string result"
  be_pid :: int
  be_nano :: int
  be_dial :: "string \<Rightarrow> goerr option"
  be_ctx :: ctx

datatype store_repo = FileStore FileRepo | MinIOStore MinIORepo
datatype aggregator = FileAgg AggregationService | MinIOAgg MinIOAggregationService
datatype cleanup = CloseConsumer | CloseProducer | CloseIngestion

record http_server =
  hs_Addr :: string
  hs_ReadHeaderTimeout :: duration
  hs_ReadTimeout :: duration
  hs_WriteTimeout :: duration
  hs_IdleTimeout :: duration

record queue_side =
  qs_queue :: KafkaLogQueue
  qs_consumer :: "(writer_cfg \<times> ConsumedMessage list) svc_state"
  qs_producer :: "prod_cfg \<times> producer"

record running =
  rn_store :: store_repo
  rn_queue :: "queue_side option"
  rn_agg :: aggregator
  rn_ingestion :: IngestionService
  rn_handler :: Handler
  rn_checks :: "ready_check list"
  rn_server :: http_server

definition runCleanups :: "cleanup list \<Rightarrow> cleanup list" where
  "runCleanups cleanups = rev cleanups"

definition open_store :: "build_env \<Rightarrow> AppConfig \<Rightarrow> (store_repo \<times> ready_check list) result" where
  "open_store env c =
     (let backend = (if app_StorageBackend c = [] then ''file'' else app_StorageBackend c);
          checks = [WritableDir (app_AnalyticsDir c)] in
      if backend = ''file'' then Inr (FileStore (NewFileRepo (app_LogsDir c)), checks @ [WritableDir (app_LogsDir c)])
      else if backend = ''minio'' then
        (case NewMinIORepo (be_clientErr env) (be_writerVars env) (be_host env) (be_pid env) (be_nano env)
            \<lparr>opt_Endpoint = Endpoint (app_MinIO c), opt_Bucket = Bucket (app_MinIO c), opt_AccessKey = AccessKey (app_MinIO c),
             opt_SecretKey = SecretKey (app_MinIO c), opt_UseSSL = UseSSL (app_MinIO c), opt_LogsPrefix = LogsPrefix (app_MinIO c),
             opt_WriterID = [], opt_client = False\<rparr> of
           Inl e \<Rightarrow> Inl (wrap ''configure minio repo: '' e)
         | Inr r \<Rightarrow> Inr (MinIOStore r, checks @ [BucketReady r]))
      else Inl (ErrMsg (''unsupported storage backend '' @ qstr backend)))"

definition consumer_batch_cfg :: "AppConfig \<Rightarrow> ConsumerBatchConfig" where
  "consumer_batch_cfg c = \<lparr>FlushSize = cons_FlushSize (app_Consumer c), FlushInterval = cons_FlushInterval (app_Consumer c),
     PersistTimeout = cons_PersistTimeout (app_Consumer c), DLQDirC = []\<rparr>"

text \<open>Fields that the source does not name have their zero value.\<close>

definition producer_config :: "AppConfig \<Rightarrow> ProducerConfig" where
  "producer_config c = \<lparr>QueueBufferSize = ing_QueueBufferSize (app_Ingestion c), Workers = ProducerWorkers (app_Ingestion c),
     WriteTimeout = ProducerWriteTimeout (app_Ingestion c), QueueHighWaterPercent = ing_QueueHighWaterPercent (app_Ingestion c),
     MaxRetries = 0, RetryBackoff = 0, DLQDir = [], CircuitFailureThreshold = ing_CircuitFailureThreshold (app_Ingestion c),
     CircuitCooldown = ing_CircuitCooldown (app_Ingestion c)\<rparr>"

text \<open>Version 2: the queue, its check at startup, the consumers and the producer.\<close>

definition start_queue :: "build_env \<Rightarrow> AppConfig \<Rightarrow> obs \<Rightarrow> obs \<times> queue_side result" where
  "start_queue env c ob =
     (case app_KafkaSettings c of
        None \<Rightarrow> (ob, Inl (ErrMsg ''kafka settings are required for version 2''))
      | Some k \<Rightarrow>
          if Brokers k = [] then (ob, Inl (ErrMsg ''kafka settings are required for version 2''))
          else (case NewKafkaLogQueue (k\<lparr>BatchTimeout := (if BatchTimeout k \<le> 0 then Second else BatchTimeout k)\<rparr>) of
                  Inl e \<Rightarrow> (ob, Inl (wrap ''configure kafka: '' e))
                | Inr q \<Rightarrow>
                    (case CheckConnectivity (be_dial env) (be_ctx env) (q, ob) of
                       ((q1, ob1), Some e) \<Rightarrow> (ob1, Inl (wrap ''kafka startup check: '' e))
                     | ((q1, ob1), None) \<Rightarrow>
                         (case StartConsumers True (q1, ob1) of ((q2, ob2), launched) \<Rightarrow>
                          case Start True (case launched of Inl e \<Rightarrow> Some e | Inr _ \<Rightarrow> None) (consumer_batch_cfg c) NotStarted of (svc, _) \<Rightarrow>
                            (case start_result svc of
                               Some e \<Rightarrow> (ob2, Inl (wrap ''start kafka consumers: '' e))
                             | None \<Rightarrow>
                                 (case NewProducerService (Some (producer_config c)) of (pc, p) \<Rightarrow>
                                    (ob2, Inr \<lparr>qs_queue = q2, qs_consumer = svc,
                                            qs_producer = (pc, if SyncOnIngest (app_Ingestion c) then p else StartAsync p)\<rparr>)))))))"

definition start_aggregation :: "AppConfig \<Rightarrow> store_repo \<Rightarrow> aggregator" where
  "start_aggregation c store =
     (case store of
        MinIOStore r \<Rightarrow> MinIOAgg (NewMinIOAggregationService r (app_AnalyticsDir c) (app_AggregationInterval c))
      | FileStore r \<Rightarrow> FileAgg (NewAggregationService (app_LogsDir c) (app_AnalyticsDir c) (app_AggregationInterval c)))"

definition BuildApp :: "build_env \<Rightarrow> App \<Rightarrow> obs \<Rightarrow> obs \<times> cleanup list \<times> running result" where
  "BuildApp env a ob =
     (let c = cfg a in
      case open_store env c of
        Inl e \<Rightarrow> (ob, [], Inl e)
      | Inr (store, checks) \<Rightarrow>
          (case (if app_Version c = 2 then (case start_queue env c ob of (ob1, Inl e) \<Rightarrow> (ob1, Inl e) | (ob1, Inr qs) \<Rightarrow> (ob1, Inr (Some qs)))
                 else (ob, Inr None)) of
             (ob1, Inl e) \<Rightarrow> (ob1, [], Inl e)
           | (ob1, Inr qside) \<Rightarrow>
               (ob1, (case qside of None \<Rightarrow> [] | Some _ \<Rightarrow> [CloseConsumer, CloseProducer]) @ [CloseIngestion],
                Inr \<lparr>rn_store = store, rn_queue = qside, rn_agg = start_aggregation c store,
                     rn_ingestion = NewIngestionService (if app_Version c = 2 then ModeQueue else ModeDirect) (SyncOnIngest (app_Ingestion c)),
                     rn_handler = WithAPIKeyAuth (Enabled (app_Auth c)) (HeaderName (app_Auth c)) (Keys (app_Auth c))
                       (WithRequestTimeout (app_RequestTimeout c) NewHandler),
                     rn_checks = checks @ (case qside of None \<Rightarrow> [] | Some _ \<Rightarrow> [KafkaReachable]),
                     rn_server = \<lparr>hs_Addr = app_Addr c, hs_ReadHeaderTimeout = app_ReadHeaderTimeout c, hs_ReadTimeout = app_ReadTimeout c,
                       hs_WriteTimeout = app_WriteTimeout c, hs_IdleTimeout = app_IdleTimeout c\<rparr>\<rparr>)))"

subsection \<open>Running\<close>

text \<open>\<open>Run\<close> as the sequence of what its goroutine does: start the server, wait for the end of the context, shut the server down
  (\<open>shutdownErr\<close> is the answer), then the cleanups. \<^verbatim>\<open>ListenAndServe\<close> runs in a goroutine of its own: \<open>listen\<close> is \<open>Some (k, e)\<close>
  when it returns \<open>e\<close> after \<open>k\<close> of the steps that follow the start (the shutdown is the first, the return of \<open>Run\<close> the one after the last
  cleanup). Any error but \<^verbatim>\<open>http.ErrServerClosed\<close> ends the process at that moment, wherever the other goroutine is; after the
  return of \<open>Run\<close> there is no process left to end.\<close>

datatype run_event = Serve http_server | Shutdown | Clean cleanup

definition serve :: "(nat \<times> goerr) option \<Rightarrow> AppConfig \<Rightarrow> obs \<Rightarrow> obs \<times> (nat \<times> goerr) option" where
  "serve listen c ob =
     (log_msg LInfo ''server listening'' [F ''addr'' (FStr (app_Addr c)), F ''version'' (FInt (app_Version c))] ob,
      case listen of
        None \<Rightarrow> None
      | Some (k, e) \<Rightarrow> if err_is e ErrServerClosed then None else Some (k, e))"

definition shutdown_steps :: "cleanup list \<Rightarrow> run_event list" where
  "shutdown_steps cleanups = Shutdown # map Clean (runCleanups cleanups)"

definition run_action ::
  "build_env \<Rightarrow> (nat \<times> goerr) option \<Rightarrow> goerr option \<Rightarrow> App \<Rightarrow> obs \<times> fsys \<times> run_event list \<Rightarrow> (obs \<times> fsys \<times> run_event list) run_result" where
  "run_action env listen shutdownErr a st =
     (case st of (ob, fs, evs) \<Rightarrow>
        case BuildApp env a ob of
          (ob1, cleanups, Inl e) \<Rightarrow> Returned (ob1, fs, evs) (Some e)
        | (ob1, cleanups, Inr r) \<Rightarrow>
            (case serve listen (cfg a) ob1 of (ob2, fatal) \<Rightarrow>
             let ob3 = (case shutdownErr of None \<Rightarrow> ob2 | Some e \<Rightarrow> log_msg LWarn ''graceful shutdown failed'' [F ''error'' (FErr e)] ob2);
                 steps = shutdown_steps cleanups;
                 complete = Returned (ob3, fs, evs @ Serve (rn_server r) # steps) None in
             case fatal of
               None \<Rightarrow> complete
             | Some (k, e) \<Rightarrow>
                 if length steps < k then complete
                 else Exited (log_msg LFatal ''server error'' [F ''error'' (FErr e)] (if k = 0 then ob2 else ob3), fs,
                        evs @ Serve (rn_server r) # take k steps)))"

definition App_Run ::
  "build_env \<Rightarrow> (nat \<times> goerr) option \<Rightarrow> goerr option \<Rightarrow> (string \<Rightarrow> string) \<Rightarrow> prof_env \<Rightarrow> os_env \<Rightarrow> App \<Rightarrow>
   obs \<times> fsys \<times> run_event list \<Rightarrow> (obs \<times> fsys \<times> run_event list) run_result" where
  "App_Run env listen shutdownErr vars pf os a st =
     (if CaptureProfiles vars then
        let profileName = GetEnv vars ''PROFILE_NAME'' (''version'' @ show_int (app_Version (cfg a)));
            dir = GetEnv vars ''PROFILE_DIR'' ''profiles'' in
        (case st of (ob, fs, evs) \<Rightarrow>
           WithProfiling pf os dir profileName (run_action env listen shutdownErr a)
             (log_msg LInfo ''profiling enabled'' [F ''dir'' (FStr dir), F ''profile'' (FStr profileName)] ob, fs, evs))
      else run_action env listen shutdownErr a st)"

subsection \<open>Lemmas\<close>

lemma open_store_ok:
  assumes "open_store env c = Inr (store, checks)"
  shows "case store of FileStore s \<Rightarrow> baseDir s = app_LogsDir c | MinIOStore m \<Rightarrow> slash \<notin> set (mr_writerID m) \<and> objectSeq m = 0"
  using assms new_writer_no_slash
  by (auto simp: open_store_def Let_def NewFileRepo_def split: if_splits sum.splits)

lemma start_queue_ok:
  assumes "start_queue env c ob = (ob', Inr qs)"
  shows "qs_producer qs = (fst (NewProducerService (Some (producer_config c))),
      if SyncOnIngest (app_Ingestion c) then snd (NewProducerService (Some (producer_config c))) else StartAsync (snd (NewProducerService (Some (producer_config c)))))"
    "qs_consumer qs = Consuming (newConsumerWriter (consumer_batch_cfg c))"
  using assms by (auto simp: start_queue_def StartConsumers_def Start_def start_result_def Let_def
      split: option.splits if_splits sum.splits prod.splits)

lemma producer_config_bounds:
  "0 < chanCap (fst (NewProducerService (Some (producer_config c))))" "0 < workers (fst (NewProducerService (Some (producer_config c))))"
  "max_attempts (fst (NewProducerService (Some (producer_config c)))) = 1"
  "0 < writeTimeout (fst (NewProducerService (Some (producer_config c))))"
  "\<not> closed (snd (NewProducerService (Some (producer_config c))))"
  by (simp_all add: NewProducerService_def default_cfg_def producer_config_def max_attempts_def wrap64_def)

lemma BuildApp_ok:
  assumes "BuildApp env a ob = (ob', cl, Inr r)"
  obtains store checks qside where "open_store env (cfg a) = Inr (store, checks)"
    and "(if app_Version (cfg a) = 2 then \<exists>qs. qside = Some qs \<and> start_queue env (cfg a) ob = (ob', Inr qs) else qside = None \<and> ob' = ob)"
    and "cl = (case qside of None \<Rightarrow> [] | Some _ \<Rightarrow> [CloseConsumer, CloseProducer]) @ [CloseIngestion]"
    and "rn_store r = store" "rn_queue r = qside" "rn_agg r = start_aggregation (cfg a) store"
    and "rn_ingestion r = NewIngestionService (if app_Version (cfg a) = 2 then ModeQueue else ModeDirect) (SyncOnIngest (app_Ingestion (cfg a)))"
    and "rn_handler r = WithAPIKeyAuth (Enabled (app_Auth (cfg a))) (HeaderName (app_Auth (cfg a))) (Keys (app_Auth (cfg a)))
       (WithRequestTimeout (app_RequestTimeout (cfg a)) NewHandler)"
proof (cases "app_Version (cfg a) = 2")
  case True
  obtain ob1 res where q: "start_queue env (cfg a) ob = (ob1, res)" by fastforce
  show ?thesis using assms True that q by (cases res) (auto simp: BuildApp_def Let_def split: sum.splits prod.splits)
next
  case False
  show ?thesis using assms False that by (auto simp: BuildApp_def Let_def split: sum.splits prod.splits)
qed

lemma BuildApp_cleanups:
  assumes "BuildApp env a ob = (ob', cl, Inr r)"
  shows "runCleanups cl = (if app_Version (cfg a) = 2 then [CloseIngestion, CloseProducer, CloseConsumer] else [CloseIngestion])"
  by (rule BuildApp_ok[OF assms]) (auto simp: runCleanups_def split: if_splits)

subsection \<open>Properties\<close>

text \<open>What the components of a built application rely on.\<close>

definition store_wired :: "running \<Rightarrow> bool" where
  "store_wired r \<longleftrightarrow>
     (case (rn_store r, rn_agg r) of
        (FileStore s, FileAgg g) \<Rightarrow> logsDir g = baseDir s
      | (MinIOStore m, MinIOAgg g) \<Rightarrow> ms_store g = m \<and> shard_inv (m, [])
      | _ \<Rightarrow> False)"

definition queue_wired :: "running \<Rightarrow> bool" where
  "queue_wired r \<longleftrightarrow>
     (case rn_queue r of
        None \<Rightarrow> mode (rn_ingestion r) = ModeDirect
      | Some qs \<Rightarrow> mode (rn_ingestion r) = ModeQueue
          \<and> (started (snd (qs_producer qs)) \<longleftrightarrow> \<not> syncOnIngest (rn_ingestion r)) \<and> \<not> closed (snd (qs_producer qs))
          \<and> 0 < chanCap (fst (qs_producer qs)) \<and> 0 < workers (fst (qs_producer qs))
          \<and> (case qs_consumer qs of Consuming w \<Rightarrow> 0 < flushSize (fst w) \<and> snd w = [] | _ \<Rightarrow> False))"

text \<open>Version 2 from a configuration that sets nothing but the version and a broker.\<close>

definition ex_app :: "App result" where
  "ex_app = NewApp (\<lambda>_ _ _. 0) (\<lambda>_. Inr (zero_config\<lparr>Version := 2, Kafka := (Kafka zero_config)\<lparr>Brokers := [''b:9092'']\<rparr>\<rparr>))
     (\<lambda>_. Inr []) ''config.yaml''"

definition ex_build :: build_env where
  "ex_build = \<lparr>be_clientErr = None, be_writerVars = [], be_host = Inr ''h'', be_pid = 1, be_nano = 2, be_dial = (\<lambda>_. None), be_ctx = ctx_ok\<rparr>"

lemma ex_app_builds: "\<exists>a ob' cl r qs. ex_app = Inr a \<and> BuildApp ex_build a obs0 = (ob', cl, Inr r) \<and> app_Version (cfg a) = 2
   \<and> rn_queue r = Some qs \<and> snd (qs_producer qs) = StartAsync (snd (NewProducerService None))"
proof -
  have f: "case ex_app of Inl e \<Rightarrow> False | Inr a \<Rightarrow> app_Version (cfg a) = 2 \<and> (case BuildApp ex_build a obs0 of (ob', cl, Inl e) \<Rightarrow> False
      | (ob', cl, Inr r) \<Rightarrow> (case rn_queue r of None \<Rightarrow> False | Some qs \<Rightarrow> snd (qs_producer qs) = StartAsync (snd (NewProducerService None))))"
    by code_simp
  have "\<not> isl ex_app" using f by (simp add: sum.case_eq_if split: if_splits)
  then have a: "ex_app = Inr (projr ex_app)" by simp
  obtain ob' cl res where b: "BuildApp ex_build (projr ex_app) obs0 = (ob', cl, res)" by (rule prod_cases3)
  then have r: "\<not> isl res" "rn_queue (projr res) \<noteq> None" using f by (auto simp: sum.case_eq_if split: if_splits option.splits)
  then have "BuildApp ex_build (projr ex_app) obs0 = (ob', cl, Inr (projr res))" "rn_queue (projr res) = Some (the (rn_queue (projr res)))" using b by simp_all
  moreover have "app_Version (cfg (projr ex_app)) = 2" "snd (qs_producer (the (rn_queue (projr res)))) = StartAsync (snd (NewProducerService None))"
    using f b r by (auto simp: sum.case_eq_if split: if_splits option.splits)
  ultimately show ?thesis using a by blast
qed

text \<open>(C32) Every application that \<^verbatim>\<open>BuildApp\<close> returns is wired as its parts need: the aggregator is
  started on the log directory or the MinIO repository that ingestion and consumer save to (whose fresh object keys are then never reused), the pipeline
  mode fits the services that exist, the producer's workers run exactly when ingestion hands over asynchronously, buffer, workers and flush
  size are positive, a request has time to be processed, and shutdown closes ingestion before the producer and the producer before
  the consumer.\<close>

theorem built_app_is_wired:
  assumes "BuildApp env a ob = (ob', cl, Inr r)"
  shows "store_wired r \<and> queue_wired r \<and> (rn_queue r = None \<longleftrightarrow> app_Version (cfg a) \<noteq> 2) \<and> 0 < requestTimeout (rn_handler r)
    \<and> runCleanups cl = (if app_Version (cfg a) = 2 then [CloseIngestion, CloseProducer, CloseConsumer] else [CloseIngestion])"
proof -
  obtain store checks qside where b: "open_store env (cfg a) = Inr (store, checks)"
    "(if app_Version (cfg a) = 2 then \<exists>qs. qside = Some qs \<and> start_queue env (cfg a) ob = (ob', Inr qs) else qside = None \<and> ob' = ob)"
    "cl = (case qside of None \<Rightarrow> [] | Some _ \<Rightarrow> [CloseConsumer, CloseProducer]) @ [CloseIngestion]"
    "rn_store r = store" "rn_queue r = qside" "rn_agg r = start_aggregation (cfg a) store"
    "rn_ingestion r = NewIngestionService (if app_Version (cfg a) = 2 then ModeQueue else ModeDirect) (SyncOnIngest (app_Ingestion (cfg a)))"
    "rn_handler r = WithAPIKeyAuth (Enabled (app_Auth (cfg a))) (HeaderName (app_Auth (cfg a))) (Keys (app_Auth (cfg a)))
       (WithRequestTimeout (app_RequestTimeout (cfg a)) NewHandler)"
    using BuildApp_ok[OF assms] by blast
  have s: "store_wired r" using open_store_ok[OF b(1)] b(4,6)
    by (cases store) (auto simp: store_wired_def start_aggregation_def NewAggregationService_def NewMinIOAggregationService_def shard_inv_def)
  have t: "0 < requestTimeout (rn_handler r)"
    by (simp add: b(8) WithAPIKeyAuth_def WithRequestTimeout_def NewHandler_def defaultRequestTimeout_def Let_def)
  have q: "queue_wired r"
  proof (cases "app_Version (cfg a) = 2")
    case True
    then obtain qs where "rn_queue r = Some qs" "start_queue env (cfg a) ob = (ob', Inr qs)" using b(2,5) by auto
    then show ?thesis
      using start_queue_ok[of env "cfg a" ob ob' qs] producer_config_bounds[of "cfg a"] b(7) True
      by (auto simp: queue_wired_def NewIngestionService_def StartAsync_def newConsumerWriter_def NewProducerService_def)
  qed (use b(2,5,7) in \<open>simp add: queue_wired_def NewIngestionService_def\<close>)
  show ?thesis using s t q b(2,5) BuildApp_cleanups[OF assms] by (auto split: if_splits)
qed

lemma built_app_is_wired_witness: "\<exists>a ob' cl r. ex_app = Inr a \<and> BuildApp ex_build a obs0 = (ob', cl, Inr r) \<and> queue_wired r
   \<and> runCleanups cl = [CloseIngestion, CloseProducer, CloseConsumer]"
proof -
  obtain a ob' cl r where "ex_app = Inr a" and b: "BuildApp ex_build a obs0 = (ob', cl, Inr r)" "app_Version (cfg a) = 2" using ex_app_builds by blast
  then show ?thesis using built_app_is_wired[OF b(1)] by auto
qed

text \<open>An application built from a configuration file never retries a Kafka write: the producer it makes gives up a batch after
  one failed attempt, whatever the configuration says.\<close>

theorem built_producer_gives_up_at_once:
  assumes "BuildApp env a ob = (ob', cl, Inr r)" "rn_queue r = Some qs" "batch \<noteq> []" "isCircuitOpen now (snd (qs_producer qs)) = (p1, False)"
    and "EnqueueBatch (at_env (envs 1)) batch q = (q1, Some e)"
  shows "\<exists>p' ob2. EnqueueSync EnqueueBatch (fst (qs_producer qs)) now envs batch (snd (qs_producer qs), ob1, q) = ((p', ob2, q1), Some e)"
proof -
  obtain c where c: "qs_producer qs = (fst (NewProducerService (Some (producer_config c))), snd (qs_producer qs))" "\<not> closed (snd (qs_producer qs))"
  proof -
    have "app_Version (cfg a) = 2 \<and> start_queue env (cfg a) ob = (ob', Inr qs)"
      by (rule BuildApp_ok[OF assms(1)]) (use assms(2) in \<open>auto split: if_splits\<close>)
    then show ?thesis using start_queue_ok[of env "cfg a" ob ob' qs] producer_config_bounds(5)[of "cfg a"] that[of "cfg a"]
      by (auto simp: StartAsync_def)
  qed
  have "max_attempts (fst (qs_producer qs)) = 1" using c(1) producer_config_bounds(3)[of c] by (metis fst_conv)
  then have "nat (max_attempts (fst (qs_producer qs))) = Suc 0" by simp
  then show ?thesis using assms(3-5) c(2) by (auto simp: EnqueueSync_def tryEnqueueWithRetry_def Let_def split: prod.splits)
qed

lemma built_producer_gives_up_at_once_witness:
  "\<exists>a ob' cl r qs p' ob2. ex_app = Inr a \<and> BuildApp ex_build a obs0 = (ob', cl, Inr r) \<and> rn_queue r = Some qs
    \<and> EnqueueSync EnqueueBatch (fst (qs_producer qs)) 0 (\<lambda>i. \<lparr>at_env = \<lparr>kw_copies = \<lambda>_. 0, kw_err = Some DeadlineExceeded\<rparr>, at_log_now = 0,
        at_fail_now = 0, at_wait = \<lambda>_. None\<rparr>) [zero_record] (snd (qs_producer qs), obs0, ex_queue) = ((p', ob2, ex_queue), Some DeadlineExceeded)"
proof -
  let ?env = "\<lambda>i::nat. \<lparr>at_env = \<lparr>kw_copies = \<lambda>_. 0, kw_err = Some DeadlineExceeded\<rparr>, at_log_now = 0, at_fail_now = 0, at_wait = \<lambda>_. None\<rparr> :: kw_env att_env"
  obtain a ob' cl r qs where a: "ex_app = Inr a" and b: "BuildApp ex_build a obs0 = (ob', cl, Inr r)" and q: "rn_queue r = Some qs"
    and p: "snd (qs_producer qs) = StartAsync (snd (NewProducerService None))" using ex_app_builds by blast
  have c: "isCircuitOpen 0 (snd (qs_producer qs)) = (snd (qs_producer qs), False)"
    by (simp add: p isCircuitOpen_def StartAsync_def NewProducerService_def)
  have m: "\<exists>d. marshal_record zero_record = Some d" using marshal_record_None[of zero_record] by (cases "marshal_record zero_record") (auto, code_simp)
  have e: "EnqueueBatch (at_env (?env 1)) [zero_record] ex_queue = (ex_queue, Some DeadlineExceeded)"
    using m by (auto simp: EnqueueBatch_def WriteMessages_def enumerate_simps)
  show ?thesis using built_producer_gives_up_at_once[OF b q _ c e] a b q by auto
qed

end
