(* ===== verification/Main_Program.thy ===== *)
theory Main_Program
  imports App
begin

section \<open>The program (cmd/main.go)\<close>

text \<open>
  \<open>main_program\<close> with the two initialisers of \<^verbatim>\<open>cmd/bootstrap\<close> and \<^verbatim>\<open>config.ParseFlags\<close>. Of \<^verbatim>\<open>flag.Parse\<close> it models what one string
  flag needs; a parse that ends the process gives its exit code. The end of the process is the record \<open>process\<close>: its exit code,
  what it wrote to standard error, the events of \<open>App_Run\<close>, and whether the deferred \<^verbatim>\<open>cleanup\<close> (the logger's \<^verbatim>\<open>Sync\<close>) ran.
  \<^verbatim>\<open>Fatal\<close> of the zap logger and \<^verbatim>\<open>os.Exit\<close> run no deferred calls; an uncaught panic ends a Go program with code 2.
\<close>

fun cut_value :: "string \<Rightarrow> string \<times> string option" where
  "cut_value [] = ([], None)"
| "cut_value (c # s) = (if c = CHR ''='' then ([], Some s) else case cut_value s of (name, val) \<Rightarrow> (c # name, val))"

fun parse_args :: "string \<Rightarrow> string list \<Rightarrow> int + string" where
  "parse_args cur [] = Inr cur"
| "parse_args cur (s # args) =
     (if length s < 2 \<or> hd s \<noteq> CHR ''-'' \<or> s = ''--'' then Inr cur
      else let name = (if s ! 1 = CHR ''-'' then drop 2 s else drop 1 s) in
        if name = [] \<or> hd name = CHR ''-'' \<or> hd name = CHR ''='' then Inl 2
        else case cut_value name of (flag, val) \<Rightarrow>
          if flag \<noteq> ''config'' then Inl (if flag = ''help'' \<or> flag = ''h'' then 0 else 2)
          else case val of
                 Some v \<Rightarrow> parse_args v args
               | None \<Rightarrow> (case args of [] \<Rightarrow> Inl 2 | v # rest \<Rightarrow> parse_args v rest))"

definition ParseFlags :: "string list \<Rightarrow> int + string" where
  "ParseFlags args = (case parse_args [] args of Inl code \<Rightarrow> Inl code | Inr configPath \<Rightarrow> Inr (TrimSpace configPath))"

definition InitLogger :: "goerr option \<Rightarrow> goerr option" where
  "InitLogger zapErr = (case zapErr of Some e \<Rightarrow> Some (wrap ''init logger: '' e) | None \<Rightarrow> None)"

definition InitObservability ::
  "(string \<Rightarrow> string list \<Rightarrow> reg_answer) \<Rightarrow> (string \<Rightarrow> string) \<Rightarrow> goerr option \<Rightarrow> (bool \<times> reg_state) \<times> obs \<Rightarrow> ((bool \<times> reg_state) \<times> obs) \<times> string option" where
  "InitObservability register vars pprofErr st =
     (case st of (reg, ob) \<Rightarrow>
        let reg1 = Init register reg in
        case snd reg1 of
          Panicked _ \<Rightarrow> ((reg1, ob), None)
        | Running _ \<Rightarrow> (case MaybeStartPprof vars pprofErr ob of (ob1, pprof) \<Rightarrow> ((reg1, ob1), pprof)))"

record main_env =
  me_zapErr :: "goerr option"
  me_register :: "string \<Rightarrow> string list \<Rightarrow> reg_answer"
  me_vars :: "string \<Rightarrow> string"
  me_pprofErr :: "goerr option"
  me_buildInfo :: BuildInfo
  me_ff :: "int \<Rightarrow> int \<Rightarrow> int \<Rightarrow> int"
  me_unmarshal :: "string \<Rightarrow> Config result"
  me_readFile :: "string \<Rightarrow> string result"
  me_build :: build_env
  me_listen :: "(nat \<times> goerr) option"
  me_shutdownErr :: "goerr option"
  me_prof :: prof_env
  me_os :: os_env

record process =
  ps_code :: int
  ps_stderr :: string
  ps_events :: "run_event list"
  ps_synced :: bool
  ps_obs :: obs
  ps_fs :: fsys

definition main_program :: "main_env \<Rightarrow> string list \<Rightarrow> fsys \<Rightarrow> process" where
  "main_program env args fs =
     (let stop = (\<lambda>code err synced ob. \<lparr>ps_code = code, ps_stderr = err, ps_events = [], ps_synced = synced, ps_obs = ob, ps_fs = fs\<rparr>) in
      case ParseFlags args of
        Inl code \<Rightarrow> stop code [] False obs0
      | Inr configPath \<Rightarrow>
          (case InitLogger (me_zapErr env) of
             Some e \<Rightarrow> stop 1 (''failed to init logger: '' @ err_text e @ [newline]) False obs0
           | None \<Rightarrow>
               (case InitObservability (me_register env) (me_vars env) (me_pprofErr env) ((False, Running []), obs0) of
                  (((_, Panicked m), ob), _) \<Rightarrow> stop 2 m True ob
                | (((_, Running _), ob), _) \<Rightarrow>
                    (case NewAppWithBuildInfo (me_ff env) (me_unmarshal env) (me_readFile env) configPath (me_buildInfo env) of
                       Inl e \<Rightarrow> stop 1 (''failed to build app: '' @ err_text e @ [newline]) False ob
                     | Inr a \<Rightarrow>
                         (case App_Run (me_build env) (me_listen env) (me_shutdownErr env) (me_vars env) (me_prof env) (me_os env) a (ob, fs, []) of
                            Exited (ob1, fs1, evs) \<Rightarrow>
                              \<lparr>ps_code = 1, ps_stderr = [], ps_events = evs, ps_synced = False, ps_obs = ob1, ps_fs = fs1\<rparr>
                          | Returned (ob1, fs1, evs) (Some e) \<Rightarrow>
                              \<lparr>ps_code = 1, ps_stderr = [], ps_events = evs, ps_synced = False,
                               ps_obs = log_msg LFatal ''application exited'' [F ''error'' (FErr e)] ob1, ps_fs = fs1\<rparr>
                          | Returned (ob1, fs1, evs) None \<Rightarrow>
                              \<lparr>ps_code = 0, ps_stderr = [], ps_events = evs, ps_synced = True, ps_obs = ob1, ps_fs = fs1\<rparr>)))))"

subsection \<open>Lemmas\<close>

lemma run_action_events:
  assumes "run_action env listen se a (ob, fs, evs) = res"
  shows "case res of
      Exited (ob', fs', evs') \<Rightarrow> fs' = fs \<and> (\<exists>r ob1 cl k e. BuildApp env a ob = (ob1, cl, Inr r) \<and> listen = Some (k, e) \<and> \<not> err_is e ErrServerClosed
        \<and> k \<le> length (shutdown_steps cl) \<and> evs' = evs @ Serve (rn_server r) # take k (shutdown_steps cl))
    | Returned (ob', fs', evs') err \<Rightarrow> fs' = fs
        \<and> (case err of Some e \<Rightarrow> evs' = evs
           | None \<Rightarrow> \<exists>r ob1 cl. BuildApp env a ob = (ob1, cl, Inr r) \<and> evs' = evs @ Serve (rn_server r) # shutdown_steps cl)"
  using assms by (auto simp: run_action_def serve_def Let_def split: prod.splits sum.splits option.splits if_splits)

lemma App_Run_events:
  assumes "App_Run env listen se vars pf os a (ob, fs, evs) = Returned (ob', fs', evs') None"
  shows "\<exists>r ob0 ob1 cl. BuildApp env a ob0 = (ob1, cl, Inr r) \<and> evs' = evs @ Serve (rn_server r) # shutdown_steps cl"
proof -
  obtain ob2 fs2 ob3 where "run_action env listen se a (ob2, fs2, evs) = Returned (ob3, fs', evs') None"
    using assms by (auto simp: App_Run_def Let_def split: if_splits dest!: WithProfiling_result)
  from run_action_events[OF this] show ?thesis by auto
qed

lemma App_Run_exited:
  assumes "App_Run env listen se vars pf os a (ob, fs, evs) = Exited (ob', fs', evs')"
  shows "\<exists>r ob0 ob1 cl k e. BuildApp env a ob0 = (ob1, cl, Inr r) \<and> listen = Some (k, e) \<and> \<not> err_is e ErrServerClosed
    \<and> k \<le> length (shutdown_steps cl) \<and> evs' = evs @ Serve (rn_server r) # take k (shutdown_steps cl)"
proof -
  obtain ob2 fs2 where "run_action env listen se a (ob2, fs2, evs) = Exited (ob', fs', evs')"
    using assms by (fastforce simp: App_Run_def Let_def split: if_splits dest!: WithProfiling_exited)
  from run_action_events[OF this] show ?thesis unfolding run_result.case prod.case by blast
qed

lemma App_Run_error:
  assumes "App_Run env listen se vars pf os a (ob, fs, evs) = Returned (ob', fs', evs') (Some e)"
  shows "evs' = evs"
proof -
  obtain ob2 fs2 ob3 where "run_action env listen se a (ob2, fs2, evs) = Returned (ob3, fs', evs') (Some e) \<or> evs' = evs"
    using assms by (fastforce simp: App_Run_def Let_def split: if_splits dest!: WithProfiling_result)
  then show ?thesis using run_action_events[of env listen se a ob2 fs2 evs] by auto
qed

text \<open>What the server's goroutine leaves of an ordered shutdown.\<close>

definition ordered_shutdown :: "App \<Rightarrow> run_event list" where
  "ordered_shutdown a = Shutdown # map Clean (if app_Version (cfg a) = 2 then [CloseIngestion, CloseProducer, CloseConsumer] else [CloseIngestion])"

lemma shutdown_steps_ordered: "BuildApp env a ob = (ob1, cl, Inr r) \<Longrightarrow> shutdown_steps cl = ordered_shutdown a"
  using BuildApp_cleanups by (simp add: shutdown_steps_def ordered_shutdown_def)

text \<open>How the process can end once the flags, the logger and the metrics are there.\<close>

lemma main_ran:
  assumes "ps_events (main_program env args fs) \<noteq> [] \<or> ps_code (main_program env args fs) = 0 \<and> ParseFlags args \<noteq> Inl 0"
  obtains path a ob where "ParseFlags args = Inr path"
    and "NewAppWithBuildInfo (me_ff env) (me_unmarshal env) (me_readFile env) path (me_buildInfo env) = Inr a"
    and "case App_Run (me_build env) (me_listen env) (me_shutdownErr env) (me_vars env) (me_prof env) (me_os env) a (ob, fs, []) of
      Exited (ob1, fs1, evs) \<Rightarrow> ps_code (main_program env args fs) = 1 \<and> ps_events (main_program env args fs) = evs
    | Returned (ob1, fs1, evs) (Some e) \<Rightarrow> ps_code (main_program env args fs) = 1 \<and> ps_events (main_program env args fs) = evs
    | Returned (ob1, fs1, evs) None \<Rightarrow> ps_code (main_program env args fs) = 0 \<and> ps_events (main_program env args fs) = evs
        \<and> ps_synced (main_program env args fs)"
proof (cases "ParseFlags args")
  case (Inl code)
  then show ?thesis using assms by (simp add: main_program_def)
next
  case (Inr path)
  obtain b reg ob pprof where io: "InitObservability (me_register env) (me_vars env) (me_pprofErr env) ((False, Running []), obs0) = (((b, reg), ob), pprof)"
    by (metis prod.exhaust)
  have log: "InitLogger (me_zapErr env) = None" using assms Inr by (auto simp: main_program_def split: option.splits)
  then obtain names where reg: "reg = Running names" using assms Inr io by (cases reg) (auto simp: main_program_def)
  obtain a where a: "NewAppWithBuildInfo (me_ff env) (me_unmarshal env) (me_readFile env) path (me_buildInfo env) = Inr a"
    using assms Inr log io reg by (cases "NewAppWithBuildInfo (me_ff env) (me_unmarshal env) (me_readFile env) path (me_buildInfo env)")
      (auto simp: main_program_def)
  show ?thesis
    by (rule that[OF Inr a, of ob]) (simp add: main_program_def Inr log io reg a split: run_result.splits prod.splits option.splits)
qed

text \<open>The four ways to write the flag.\<close>

lemma ParseFlags_config:
  "ParseFlags [''-config'', p] = Inr (TrimSpace p)" "ParseFlags [''--config'', p] = Inr (TrimSpace p)"
  "ParseFlags [''-config='' @ p] = Inr (TrimSpace p)" "ParseFlags [''--config='' @ p] = Inr (TrimSpace p)"
  by (simp_all add: ParseFlags_def)

subsection \<open>Properties\<close>

text \<open>(C33) The exit code tells how the process ended. Code 0 means help was asked for, or the configuration was loaded, the services were
  built, and the server was shut down before ingestion, producer and consumer were closed, in this order. Any other code means that the server
  was never started and nothing was closed, or that \<^verbatim>\<open>ListenAndServe\<close>, which runs beside all of this, failed: then the process did the first
  \<open>k\<close> steps of the same ordered shutdown, none when the server failed while it was serving.\<close>

theorem exit_code_tells_shutdown:
  "if ps_code (main_program env args fs) = 0 then
     ParseFlags args = Inl 0 \<or>
     (\<exists>path a r ob ob1 cl. ParseFlags args = Inr path
        \<and> NewAppWithBuildInfo (me_ff env) (me_unmarshal env) (me_readFile env) path (me_buildInfo env) = Inr a
        \<and> BuildApp (me_build env) a ob = (ob1, cl, Inr r) \<and> ps_synced (main_program env args fs)
        \<and> ps_events (main_program env args fs) = Serve (rn_server r) # ordered_shutdown a)
   else ps_events (main_program env args fs) = [] \<or>
     (\<exists>path a r ob ob1 cl k e. ParseFlags args = Inr path
        \<and> NewAppWithBuildInfo (me_ff env) (me_unmarshal env) (me_readFile env) path (me_buildInfo env) = Inr a
        \<and> BuildApp (me_build env) a ob = (ob1, cl, Inr r) \<and> me_listen env = Some (k, e) \<and> \<not> err_is e ErrServerClosed
        \<and> k \<le> length (ordered_shutdown a)
        \<and> ps_events (main_program env args fs) = Serve (rn_server r) # take k (ordered_shutdown a))"
proof (cases "ps_events (main_program env args fs) \<noteq> [] \<or> ps_code (main_program env args fs) = 0 \<and> ParseFlags args \<noteq> Inl 0")
  case True
  then obtain path a ob where p: "ParseFlags args = Inr path"
      "NewAppWithBuildInfo (me_ff env) (me_unmarshal env) (me_readFile env) path (me_buildInfo env) = Inr a"
      "case App_Run (me_build env) (me_listen env) (me_shutdownErr env) (me_vars env) (me_prof env) (me_os env) a (ob, fs, []) of
        Exited (ob1, fs1, evs) \<Rightarrow> ps_code (main_program env args fs) = 1 \<and> ps_events (main_program env args fs) = evs
      | Returned (ob1, fs1, evs) (Some e) \<Rightarrow> ps_code (main_program env args fs) = 1 \<and> ps_events (main_program env args fs) = evs
      | Returned (ob1, fs1, evs) None \<Rightarrow> ps_code (main_program env args fs) = 0 \<and> ps_events (main_program env args fs) = evs
          \<and> ps_synced (main_program env args fs)"
    by (rule main_ran)
  show ?thesis
  proof (cases "App_Run (me_build env) (me_listen env) (me_shutdownErr env) (me_vars env) (me_prof env) (me_os env) a (ob, fs, [])")
    case (Exited st)
    obtain ob1 fs1 evs where st: "st = (ob1, fs1, evs)" by (cases st)
    have q: "ps_code (main_program env args fs) = 1" "ps_events (main_program env args fs) = evs" using p(3) Exited st by simp_all
    show ?thesis using App_Run_exited[OF Exited[unfolded st]] p(1,2) q shutdown_steps_ordered by fastforce
  next
    case (Returned st err)
    obtain ob1 fs1 evs where st: "st = (ob1, fs1, evs)" by (cases st)
    show ?thesis
    proof (cases err)
      case None
      have q: "ps_code (main_program env args fs) = 0" "ps_events (main_program env args fs) = evs" "ps_synced (main_program env args fs)"
        using p(3) Returned st None by simp_all
      show ?thesis using App_Run_events[OF Returned[unfolded st None]] p(1,2) q shutdown_steps_ordered by fastforce
    next
      case (Some e)
      then show ?thesis using p(3) Returned st App_Run_error[OF Returned[unfolded st Some]] by simp
    qed
  qed
qed auto

end
