(* ===== verification/Spec2Isabelle.thy ===== *)
theory Spec2Isabelle
  imports File_Locks Payloads Producer_Shutdown Consumer_Files Consumer_Shutdown Pipeline Minio_Store Main_Program
begin

text \<open>
  \<^bold>\<open>LogForge.\<close> A verification of the log ingestion service under \<^verbatim>\<open>src/\<close>: an HTTP endpoint takes batches of log records (JSON or CSV),
  stores them as NDJSON, one file or set of objects per UTC hour, and a background job writes hourly summaries.

  \<^bold>\<open>The program.\<close> \<^verbatim>\<open>cmd/main.go\<close> loads a configuration, \<^verbatim>\<open>cmd/bootstrap\<close> creates the services. A request of \<^verbatim>\<open>POST /logs\<close> is
  authorized, decoded and normalized by the handler (\<^verbatim>\<open>internal/http\<close>) and given to the ingestion service, which in direct mode saves
  it in the repository (\<^verbatim>\<open>repo\<close>: log files or MinIO objects) and in queue mode hands it to the producer, which publishes it to Kafka
  (\<^verbatim>\<open>internal/queue\<close>), at once or through a buffered channel and workers with retries, a circuit breaker and a
  dead-letter file. Consumers read the topic, collect batches, save them in the same repository and commit the offsets. The aggregators
  (\<^verbatim>\<open>service/aggregation.go\<close>, \<^verbatim>\<open>service/minio_aggregation.go\<close>) count requests per path and user agent of each hour.

  \<^bold>\<open>The theories.\<close> Definitions keep the source's names where Isabelle allows it.
  \<^item> \<open>LF_Prelude\<close>, \<open>Go_Errors\<close>, \<open>Go_Strings\<close>, \<open>Go_Time\<close>, \<open>Go_Json\<close>, \<open>Go_Io\<close>, \<open>Go_Csv\<close>: lists, associations and simplification sets; the Go
    errors, and what the program uses of \<^verbatim>\<open>strings\<close>, \<^verbatim>\<open>path\<close>, \<^verbatim>\<open>time\<close>, \<^verbatim>\<open>encoding/json\<close>, \<^verbatim>\<open>os\<close>, \<^verbatim>\<open>bufio\<close> and
    \<^verbatim>\<open>encoding/csv\<close>. Time is exact (seconds since year 1, nanoseconds, zone) and strings are UTF-8 bytes.
  \<^item> \<open>Model_Types\<close> (\<^verbatim>\<open>model\<close>), \<open>Metrics\<close> (\<^verbatim>\<open>internal/metrics\<close>, \<^verbatim>\<open>logger\<close>: counters, gauges and log events in the record \<open>obs\<close>), \<open>Retry\<close>
    (\<^verbatim>\<open>util/retry.go\<close>: delays with 64-bit wrap-around), \<open>Profiling\<close> (\<^verbatim>\<open>util/env.go\<close>, \<^verbatim>\<open>util/profile.go\<close>).
  \<^item> \<open>Repository\<close>: the interface \<^verbatim>\<open>repo.Repository\<close> as the locale its clients use; \<open>File_Repo\<close> (\<^verbatim>\<open>repo/file_repo.go\<close>) and its interpretation; \<open>File_Locks\<close>:
    concurrent appends under the per-file locks as a step relation; \<open>Minio_Repo\<close> (\<^verbatim>\<open>repo/minio_repo.go\<close>); \<open>Minio_Store\<close>: its interpretations, which
    give direct mode and the consumer the same guarantees on MinIO.
  \<^item> \<open>Aggregation\<close>, \<open>Minio_Aggregation\<close>: the two aggregators. \<open>Backends\<close>: both backends followed from a batch to the summary of an hour.
  \<^item> \<open>Log_Queue\<close>: the interface \<^verbatim>\<open>model.LogQueue\<close> as a locale; \<open>Kafka_Queue\<close> (\<^verbatim>\<open>internal/queue\<close>) interprets it.
  \<^item> \<open>Producer\<close> (\<^verbatim>\<open>service/producer.go\<close>), \<open>Producer_Async\<close>: callers, channel, workers and \<^verbatim>\<open>Close\<close> as a step relation; \<open>Producer_Shutdown\<close>: \<^verbatim>\<open>Close\<close> drains the channel and returns; \<open>Dlq_Files\<close>: the dead-letter
    files of producer and consumer.
  \<^item> \<open>Consumer\<close> (\<^verbatim>\<open>service/consumer.go\<close>); \<open>Consumer_Machine\<close>: readers, ticker, shutdown and commits as a step relation on any repository, which
    refines an at-least-once delivery specification; \<open>Consumer_Files\<close>: the interpretation on the file repository; \<open>Consumer_Shutdown\<close>:
    termination after cancellation; \<open>Pipeline\<close>: readers and batch writer together, from the topic to the log files.
  \<^item> \<open>Ingestion\<close> (\<^verbatim>\<open>service/ingestion.go\<close>), \<open>Handler\<close> (\<^verbatim>\<open>internal/http/handler.go\<close>), \<open>Payloads\<close>: JSON and CSV bodies of the same records.
  \<^item> \<open>Config\<close> (\<^verbatim>\<open>config/config.go\<close>), \<open>Readiness\<close> and \<open>App\<close> (\<^verbatim>\<open>cmd/bootstrap/app.go\<close>), \<open>Main_Program\<close> (\<^verbatim>\<open>cmd/main.go\<close>, the initialisers, \<^verbatim>\<open>ParseFlags\<close>).
  \<^item> This theory: requests through handler, ingestion and store, and through a whole application built from its configuration.

  \<^bold>\<open>How code becomes definitions.\<close> A struct is a record, a method a function from the state to the new state and its results, an error a
  value of \<open>goerr\<close>; a panic is the result \<open>None\<close> or a constructor of its own. What the outside answers (operating system, context, clock,
  Kafka client, MinIO client, YAML decoder, random source, map iteration order) is an argument; the theorems assume of it only
  what they name, such as \<open>reorders\<close> (an iteration visits every key once), \<open>os_ok\<close> (no call of the operating system fails), \<open>kw_ok\<close>
  (a write that reports success has stored every message, which \<^verbatim>\<open>kafka-go\<close> documents for a synchronous writer only), \<open>logs_clean\<close> (log
  files end with a whole line) or \<open>file_env\<close>, whose part \<open>whole_writes\<close> says that a write to a log file is complete or fails having written
  nothing. Goroutines are step relations whose steps are the critical sections and blocking calls of the source: the statements of
  \<^verbatim>\<open>Close\<close> of the producer, each attempt of a worker, the begin and the return of \<^verbatim>\<open>SaveBatch\<close>, the dead-letter write and each commit are steps of
  their own. That a call of \<^verbatim>\<open>SaveBatch\<close>, \<^verbatim>\<open>Commit\<close> or \<^verbatim>\<open>EnqueueBatch\<close> returns is not something the code enforces; the termination theorems count its return as a step and
  say what is left while it is missing. \<^verbatim>\<open>ListenAndServe\<close> runs beside the shutdown of the process and may fail at every point of it.

  \<^bold>\<open>What is shown.\<close> An accepted request is stored or published, and in synchronous queue mode reaches the log files; nothing is lost or invented by the repositories, the producer and the
  consumer, for every interleaving of their goroutines; offsets are committed only for saved messages; concurrent appends never mix
  lines; replicas on one bucket never overwrite each other; summaries count exactly the stored records, for both backends alike and
  from the configuration file on; decoding yields normalized records, the same from JSON and CSV; requests without a configured key or over
  2 MiB change nothing; a closed producer and a cancelled consumer stop when their calls return; a loaded configuration is complete, a built application is wired as its parts need, and
  the exit code tells how far it was shut down in order. Where the code does not keep a promise the theorem says so: the panic of
  \<^verbatim>\<open>Enqueue\<close> against \<^verbatim>\<open>Close\<close>, offsets committed past a failed batch, summaries that stay stale, lines too long for the aggregator, timestamps that
  are accepted but cannot be written, a MinIO prefix that is never listed, a producer that never retries, a line cut by a failed write that
  swallows the next record (\<open>torn_write_damages_next\<close>).

  \<^bold>\<open>Bounds and fuel.\<close> Only the JSON parser \<open>p_value\<close> has fuel, more than twice the length of its input, and \<open>parse_json_total\<close> shows that it never runs
  out of it. Loops are recursions on the data they walk; the retry loop runs over the number of
  attempts left; the reader loop of a consumer over the answers of its reader, the tickers over their events. 64-bit wrap-around is
  written out in the retry delays, in the number of attempts, in durations and in the object counter of the MinIO repository, whose
  theorems bound the number of objects by \<open>2 ^ 64\<close>.

  \<^bold>\<open>Not modelled.\<close> Third-party clients (segmentio/kafka-go, minio-go, zap, prometheus, yaml) beyond what they answer; the \<^verbatim>\<open>/metrics\<close> endpoint and the profiler's contents; the network side of \<^verbatim>\<open>net/http\<close> (routing,
  timeouts of connections). Wording of errors that no code looks at is kept only where the source writes it. Benchmarks, load
  generators, deployment files and tests are left out.
\<close>

section \<open>Requests end to end\<close>

text \<open>The ingestion service as the handler calls it: direct mode on a repository, and queue mode on the Kafka producer.
  \<open>env\<close> and the other parameters are what the world answers while the request is processed.\<close>

definition direct_pipeline :: "(LogRecord list \<Rightarrow> 's \<Rightarrow> 's \<times> goerr option) \<Rightarrow> int \<Rightarrow> (IngestionService \<times> 's) process_op" where
  "direct_pipeline save now timeout rs st =
     (case st of (ob, s, store) \<Rightarrow>
        case ProcessBatch (Some save) (None :: (unit prod_op \<times> unit prod_op) option) now rs (s, ob, store, ()) of
          None \<Rightarrow> None
        | Some ((s1, ob1, store1, _), res) \<Rightarrow> Some ((ob1, s1, store1), res))"

definition queue_pipeline ::
  "(rat \<Rightarrow> rat) \<Rightarrow> prod_cfg \<Rightarrow> int \<Rightarrow> goerr option \<Rightarrow> (nat \<Rightarrow> kw_env att_env) \<Rightarrow> (IngestionService \<times> producer \<times> KafkaLogQueue) process_op" where
  "queue_pipeline fl c now ctxErr envs timeout rs st =
     (case st of (ob, s, p, q) \<Rightarrow>
        case ProcessBatch None (Some (producer_ops EnqueueBatch fl c now ctxErr envs)) now rs (s, ob, (), p, q) of
          None \<Rightarrow> None
        | Some ((s1, ob1, _, p1, q1), res) \<Rightarrow> Some ((ob1, s1, p1, q1), res))"

lemma normalized_utc_ok: "normalized r \<Longrightarrow> utc_ok r"
  by (simp add: normalized_def utc_ok_def)

lemma readable_normalized: "normalized r \<Longrightarrow> readable r = valid_record r"
  by (cases r) (simp add: readable_def utc_record_def normalized_def UTC_id)

text \<open>An accepted request in direct mode: its records were authorized, decoded and saved.\<close>

lemma direct_accepted:
  assumes "handleLogs (Some (direct_pipeline save now)) now r (h, ob, s, st) = Some ((h', ob', s', st'), resp)" "status resp = 202" "mode s = ModeDirect"
  obtains rs where "decodeRecords r = Inr rs" "rs \<noteq> []" "list_all normalized rs" "authorizeLogsRequest h r" "save rs st = (st', None)"
    "ProcessBatch (Some save) (None :: (unit prod_op \<times> unit prod_op) option) now rs (s, ob, st, ()) = Some ((s', ob', st', ()), None)"
proof -
  from assms(1) obtain rs where rs: "decodeRecords r = Inr rs" "authorizeLogsRequest h r"
      "direct_pipeline save now (requestTimeout h) rs (ob, s, st) = Some ((ob', s', st'), None)"
    by (cases rule: handleLogs_cases) (use assms(2) process_response_not_accepted in auto)
  have n: "rs \<noteq> []" "list_all normalized rs" using decodeRecords_normalized[OF rs(1)] by simp_all
  have p: "ProcessBatch (Some save) (None :: (unit prod_op \<times> unit prod_op) option) now rs (s, ob, st, ()) = Some ((s', ob', st', ()), None)"
    using rs(3) by (auto simp: direct_pipeline_def split: option.splits prod.splits)
  moreover have "save rs st = (st', None)"
    using p n(1) assms(3) by (auto simp: ProcessBatch_def split: prod.splits option.splits)
  ultimately show ?thesis using that rs n by blast
qed

context repository
begin

lemma accepted_direct:
  assumes "handleLogs (Some (direct_pipeline (save e) now)) now r (h, ob, s, st) = Some ((h', ob', s', st'), resp)" "status resp = 202"
    and "mode s = ModeDirect" "env_ok e" "decodeRecords r = Inr rs" "inv (n + length rs) st"
    and "\<And>x. normalized x \<Longrightarrow> rec_ok x \<and> canon x = valid_record x"
  shows "stored st' = stored st + mset (map valid_record rs)
    \<and> batchesReceived ob' = batchesReceived ob + 1 \<and> logsIngested ob' = logsIngested ob + length rs"
proof -
  have rs: "rs \<noteq> []" "list_all normalized rs"
    and p: "ProcessBatch (Some (save e)) (None :: (unit prod_op \<times> unit prod_op) option) now rs (s, ob, st, ()) = Some ((s', ob', st', ()), None)"
    using direct_accepted[OF assms(1-3)] assms(5) by auto
  have w: "list_all rec_ok rs" "map canon rs = map valid_record rs" using rs(2) assms(7) by (auto simp: list_all_iff)
  show ?thesis using ProcessBatch_direct[OF p assms(3) rs(1) assms(4,6) w(1)] w(2) by auto
qed

end

lemma normalized_stored: "normalized x \<Longrightarrow> time_ok x \<and> readable x = valid_record x"
  using readable_normalized by (simp add: normalized_def)

text \<open>(C1) Direct mode end to end: when \<^verbatim>\<open>POST /logs\<close> answers 202, the records decoded from the request, and nothing else, have
  been added to the log files, which ended with whole lines, and one batch and its records are counted.\<close>

theorem accepted_request_is_stored:
  assumes "handleLogs (Some (direct_pipeline (SaveBatch env) now)) now r (h, ob, s, st) = Some ((h', ob', s', st'), resp)" "status resp = 202"
    and "mode s = ModeDirect" "reorders (se_ord env)" "logs_clean st"
  shows "\<exists>rs. decodeRecords r = Inr rs \<and> stored_files st' = stored_files st + mset (map valid_record rs)
    \<and> batchesReceived ob' = batchesReceived ob + 1 \<and> logsIngested ob' = logsIngested ob + length rs"
proof -
  obtain rs where rs: "decodeRecords r = Inr rs" using direct_accepted[OF assms(1-3)] by blast
  then show ?thesis using files.accepted_direct[OF assms(1-4) rs assms(5) normalized_stored] by blast
qed

lemma accepted_request_is_stored_witness:
  "\<exists>h' ob' s' st' resp. handleLogs (Some (direct_pipeline (SaveBatch ex_env) 0)) 0 ex_req
      (NewHandler, obs0, NewIngestionService ModeDirect False, NewFileRepo ''logs'', ex_fs) = Some ((h', ob', s', st'), resp)
    \<and> stored_files st' = {#\<lparr>Timestamp = \<lparr>t_sec = 63871286400, t_nsec = 0, t_off = 0\<rparr>, Path = ''/a'', UserAgent = ''x''\<rparr>#}"
proof -
  let ?x = "\<lparr>Timestamp = \<lparr>t_sec = 63871286400, t_nsec = 0, t_off = 0\<rparr>, Path = ''/a'', UserAgent = ''x''\<rparr> :: LogRecord"
  have "snd (SaveBatch ex_env [?x] (NewFileRepo ''logs'', ex_fs)) = None" by code_simp
  then obtain st1 where sv: "SaveBatch ex_env [?x] (NewFileRepo ''logs'', ex_fs) = (st1, None)" by (metis prod.collapse)
  have p: "req_method ex_req = ''POST''" "authorizeLogsRequest NewHandler ex_req"
    by (simp_all add: ex_req_def authorizeLogsRequest_def NewHandler_def)
  obtain ob' s' resp where h: "handleLogs (Some (direct_pipeline (SaveBatch ex_env) 0)) 0 ex_req
      (NewHandler, obs0, NewIngestionService ModeDirect False, NewFileRepo ''logs'', ex_fs) = Some ((NewHandler, ob', s', st1), resp)" "status resp = 202"
    using ex_req_decoded p sv by (simp add: handleLogs_def direct_pipeline_def ProcessBatch_def NewIngestionService_def)
  obtain rs where "decodeRecords ex_req = Inr rs" "stored_files st1 = stored_files (NewFileRepo ''logs'', ex_fs) + mset (map valid_record rs)"
    using accepted_request_is_stored[OF h] by (auto simp: NewIngestionService_def)
  moreover have "valid_record ?x = ?x" by (simp add: valid_record_def to_valid_ascii bv_def)
  moreover have "rs = [?x]" using calculation(1) ex_req_decoded by simp
  ultimately have "stored_files st1 = {#?x#}" by simp
  then show ?thesis using h(1) by blast
qed

text \<open>(C6) Direct mode on MinIO end to end: when \<^verbatim>\<open>POST /logs\<close> answers 202, the records decoded from the request, and nothing else,
  have been added to the bucket, whatever the object store answered, as long as the object counter does not wrap.\<close>

theorem accepted_request_is_in_bucket:
  assumes "handleLogs (Some (direct_pipeline (minio_SaveBatch env) now)) now r (h, ob, s, rp, b) = Some ((h', ob', s', rp', b'), resp)" "status resp = 202"
    and "mode s = ModeDirect" "decodeRecords r = Inr rs" "shard_inv (rp, b)" "objectSeq rp + int (length rs) < 2 ^ 64"
  shows "stored_objects b' = stored_objects b + mset (map valid_record rs)
    \<and> batchesReceived ob' = batchesReceived ob + 1 \<and> logsIngested ob' = logsIngested ob + length rs"
proof -
  have "shard_room (0 + length rs) (rp, b)" using assms(5,6) by (simp add: shard_room_def)
  from objects.accepted_direct[OF assms(1-3) TrueI assms(4) this normalized_stored] show ?thesis by (simp add: stored_in_def)
qed

lemma accepted_request_is_in_bucket_witness:
  "\<exists>h' ob' s' rp' b' resp. handleLogs (Some (direct_pipeline (minio_SaveBatch ex_store) 0)) 0 ex_req
      (NewHandler, obs0, NewIngestionService ModeDirect False, ex_repo ''w'', []) = Some ((h', ob', s', rp', b'), resp)
    \<and> stored_objects b' = {#ex_rec#}"
proof -
  have "snd (minio_SaveBatch ex_store [ex_rec] (ex_repo ''w'', [])) = None" by code_simp
  then obtain rp' b' where sv: "minio_SaveBatch ex_store [ex_rec] (ex_repo ''w'', []) = ((rp', b'), None)" by (metis prod.collapse)
  have d: "decodeRecords ex_req = Inr [ex_rec]" using ex_req_decoded by (simp add: ex_rec_def)
  have p: "req_method ex_req = ''POST''" "authorizeLogsRequest NewHandler ex_req"
    by (simp_all add: ex_req_def authorizeLogsRequest_def NewHandler_def)
  obtain ob' s' resp where h: "handleLogs (Some (direct_pipeline (minio_SaveBatch ex_store) 0)) 0 ex_req
      (NewHandler, obs0, NewIngestionService ModeDirect False, ex_repo ''w'', []) = Some ((NewHandler, ob', s', rp', b'), resp)" "status resp = 202"
    using d p sv by (simp add: handleLogs_def direct_pipeline_def ProcessBatch_def NewIngestionService_def)
  have "stored_objects b' = stored_objects [] + mset (map valid_record [ex_rec])"
    using accepted_request_is_in_bucket[OF h _ d ex_repo_inv] by (simp add: NewIngestionService_def ex_repo_def)
  moreover have "valid_record ex_rec = ex_rec" by (simp add: valid_record_def ex_rec_def to_valid_ascii bv_def)
  ultimately show ?thesis using h(1) by (auto simp: stored_objects_def)
qed

lemma queue_accepted:
  assumes "handleLogs (Some (queue_pipeline fl c now ctxErr envs)) now r (h, ob, s, p, q) = Some ((h', ob', s', p', q'), resp)" "status resp = 202"
    and "mode s = ModeQueue" "syncOnIngest s" "\<forall>i. kw_ok (at_env (envs i))"
  obtains rs where "decodeRecords r = Inr rs" "list_all normalized rs" "topic_records q + mset (map valid_record rs) \<subseteq># topic_records q'"
proof -
  from assms(1) obtain rs where rs: "decodeRecords r = Inr rs" "queue_pipeline fl c now ctxErr envs (requestTimeout h) rs (ob, s, p, q) = Some ((ob', s', p', q'), None)"
    by (cases rule: handleLogs_cases) (use assms(2) process_response_not_accepted in auto)
  have n: "rs \<noteq> []" "list_all normalized rs" using decodeRecords_normalized[OF rs(1)] by simp_all
  obtain p1 ob1 q1 res where e: "EnqueueSync EnqueueBatch c now envs rs (p, ob, q) = ((p1, ob1, q1), res)" by (metis prod.exhaust)
  have ok: "\<not> ing_closed s" using rs(2) n(1) assms(3) by (auto simp: queue_pipeline_def ProcessBatch_def)
  have "res = None \<and> q' = q1"
    using rs(2) n(1) assms(3,4) e ok by (cases res) (auto simp: queue_pipeline_def ProcessBatch_def producer_ops_def split: prod.splits)
  then have "topic_records q + mset (map valid_record rs) \<subseteq># topic_records q'"
    using kafka_EnqueueSync_publishes[OF e] assms(5) n(2) normalized_utc_ok by (simp add: list_all_iff)
  then show ?thesis using that rs(1) n(2) by blast
qed

text \<open>(C2) Synchronous queue mode end to end: when \<^verbatim>\<open>POST /logs\<close> answers 202, every record decoded from the request is in the
  Kafka topic, provided the writer reports success only for stored messages, as it does with \<^verbatim>\<open>kafka.async\<close> off.\<close>

theorem accepted_request_is_published:
  assumes "handleLogs (Some (queue_pipeline fl c now ctxErr envs)) now r (h, ob, s, p, q) = Some ((h', ob', s', p', q'), resp)" "status resp = 202"
    and "mode s = ModeQueue" "syncOnIngest s" "\<forall>i. kw_ok (at_env (envs i))"
  shows "\<exists>rs. decodeRecords r = Inr rs \<and> topic_records q + mset (map valid_record rs) \<subseteq># topic_records q'"
  using queue_accepted[OF assms] by metis

lemma accepted_request_is_published_witness:
  "\<exists>h' ob' s' p' q' resp. handleLogs (Some (queue_pipeline (\<lambda>x. x) (fst np) 0 None (\<lambda>i. ok_env 2))) 0 ex_req
      (NewHandler, obs0, NewIngestionService ModeQueue True, snd np, ex_queue) = Some ((h', ob', s', p', q'), resp)
    \<and> ex_rec \<in># topic_records q'"
proof -
  have d: "decodeRecords ex_req = Inr [ex_rec]" using ex_req_decoded by (simp add: ex_rec_def)
  have p: "req_method ex_req = ''POST''" "authorizeLogsRequest NewHandler ex_req"
    by (simp_all add: ex_req_def authorizeLogsRequest_def NewHandler_def)
  have m: "\<exists>m. marshal_record ex_rec = Some m" using marshal_record_None[of ex_rec] by (cases "marshal_record ex_rec") (auto, code_simp)
  have n4: "nat (max_attempts (fst np)) = Suc (Suc (Suc (Suc 0)))" by (simp add: max_attempts_def np_def NewProducerService_def default_cfg_def wrap64_def)
  have c0: "closed (snd np) = False" "isCircuitOpen 0 (snd np) = (snd np, False)"
    by (simp_all add: np_def NewProducerService_def isCircuitOpen_def)
  obtain p1 ob1 q1 where e: "EnqueueSync EnqueueBatch (fst np) 0 (\<lambda>i. ok_env 2) [ex_rec] (snd np, obs0, ex_queue) = ((p1, ob1, q1), None)"
    using m by (auto simp: EnqueueSync_def tryEnqueueWithRetry_def n4 c0 ok_env_def EnqueueBatch_def WriteMessages_def Let_def)
  obtain ob' s' resp where h: "handleLogs (Some (queue_pipeline (\<lambda>x. x) (fst np) 0 None (\<lambda>i. ok_env 2))) 0 ex_req
      (NewHandler, obs0, NewIngestionService ModeQueue True, snd np, ex_queue) = Some ((NewHandler, ob', s', p1, q1), resp)" "status resp = 202"
    using d p e by (simp add: handleLogs_def queue_pipeline_def ProcessBatch_def NewIngestionService_def producer_ops_def)
  have "\<forall>i::nat. kw_ok (at_env (ok_env 2))" by (simp add: kw_ok_def ok_env_def)
  then obtain rs where "decodeRecords ex_req = Inr rs" "topic_records ex_queue + mset (map valid_record rs) \<subseteq># topic_records q1"
    using accepted_request_is_published[OF h] by (auto simp: NewIngestionService_def)
  moreover have "valid_record ex_rec = ex_rec" by (simp add: valid_record_def ex_rec_def to_valid_ascii bv_def)
  moreover have "rs = [ex_rec]" using calculation(1) d by simp
  ultimately have "ex_rec \<in># topic_records q1" by (simp add: insert_subset_eq_iff)
  then show ?thesis using h(1) by blast
qed

text \<open>(C5) Synchronous queue mode (\<^verbatim>\<open>syncOnIngest\<close>, which is off by default) from the request to the log files: when \<^verbatim>\<open>POST /logs\<close> answered
  202, the fetches of the consumer's readers cover the topic, and the batch writer has come to rest without giving up a batch, the log
  files hold what they held and every record of the request, whatever the interleaving of readers, ticker and commits, as long as no write is cut
  in the middle of a line. In asynchronous mode a 202 only means that the batch is buffered, and it can still be lost
  (\<open>unencodable_batch_is_lost\<close>).\<close>

theorem accepted_request_reaches_files:
  assumes request: "handleLogs (Some (queue_pipeline fl c now ctxErr envs)) now r (h, ob, s, p, q) = Some ((h', ob', s', p', q'), resp)" "status resp = 202"
      "mode s = ModeQueue" "syncOnIngest s" "\<forall>i. kw_ok (at_env (envs i))" "decodeRecords r = Inr rs"
    and readers: "list_all reader_ok xs" "rng_ok rng" "mset (topicLog q') \<subseteq># mset (concat (map (\<lambda>x. fetched (snd x)) xs))"
    and writer: "cm_reach SaveBatch file_env time_ok (fst (newConsumerWriter wc)) (cm_init (newConsumerWriter wc) st) S"
      "cm_received S = mset (delivered rng xs)" "at_rest S" "logs_clean st"
  shows "stored_files st + mset (map valid_record rs) \<subseteq># stored_files (cm_store S)"
proof -
  have rs: "list_all normalized rs" "topic_records q + mset (map valid_record rs) \<subseteq># topic_records q'"
    using queue_accepted[OF request(1-5)] request(6) by auto
  have "readable (valid_record x) = valid_record x" if "normalized x" for x
    using that by (cases x) (simp add: readable_def utc_record_def normalized_def UTC_id valid_record_def to_valid_idem)
  then have "mset (map (\<lambda>x. readable (valid_record x)) rs) = mset (map valid_record rs)"
    using rs(1) by (intro arg_cong[of _ _ mset] map_cong) (auto simp: list_all_iff)
  then have e: "image_mset readable (mset (map valid_record rs)) = mset (map valid_record rs)" by (simp add: multiset.map_comp comp_def)
  have "mset (map valid_record rs) \<subseteq># topic_records q'" using rs(2) by (metis mset_subset_eq_add_right subset_mset.order_trans)
  from image_mset_subseteq_mono[OF this, of readable] have "mset (map valid_record rs) \<subseteq># image_mset readable (topic_records q')" unfolding e .
  then show ?thesis
    using topic_reaches_files[OF writer(1,4,3) readers writer(2)] by (meson subset_mset.add_left_mono subset_mset.order_trans)
qed

lemma ex_published:
  obtains m p1 ob1 where "marshal_record ex_rec = Some m"
    "EnqueueSync EnqueueBatch (fst np) 0 (\<lambda>i. ok_env 2) [ex_rec] (snd np, obs0, ex_queue) = ((p1, ob1, ex_queue\<lparr>topicLog := [m]\<rparr>), None)"
proof -
  obtain m where m: "marshal_record ex_rec = Some m" using marshal_record_None[of ex_rec] by (cases "marshal_record ex_rec") (auto, code_simp)
  have n4: "nat (max_attempts (fst np)) = Suc (Suc (Suc (Suc 0)))" by (simp add: max_attempts_def np_def NewProducerService_def default_cfg_def wrap64_def)
  have c0: "closed (snd np) = False" "isCircuitOpen 0 (snd np) = (snd np, False)"
    by (simp_all add: np_def NewProducerService_def isCircuitOpen_def)
  have t: "topicLog ex_queue = []" by (simp add: ex_queue_def NewKafkaLogQueue_def)
  show ?thesis using m that t
    by (auto simp: EnqueueSync_def tryEnqueueWithRetry_def n4 c0 ok_env_def EnqueueBatch_def WriteMessages_def Let_def)
qed

lemma accepted_request_reaches_files_witness:
  "\<exists>S :: FileRepo cstate. at_rest S \<and> stored_files ex_files + {#ex_rec#} \<subseteq># stored_files (cm_store S)"
proof -
  let ?req = "handleLogs (Some (queue_pipeline (\<lambda>x. x) (fst np) 0 None (\<lambda>i. ok_env 2))) 0 ex_req
      (NewHandler, obs0, NewIngestionService ModeQueue True, snd np, ex_queue)"
  have d: "decodeRecords ex_req = Inr [ex_rec]" using ex_req_decoded by (simp add: ex_rec_def)
  have po: "req_method ex_req = ''POST''" "authorizeLogsRequest NewHandler ex_req"
    by (simp_all add: ex_req_def authorizeLogsRequest_def NewHandler_def)
  have v: "valid_record ex_rec = ex_rec" by (simp add: valid_record_def ex_rec_def to_valid_ascii bv_def)
  obtain m p1 ob1 where m: "marshal_record ex_rec = Some m"
    and e: "EnqueueSync EnqueueBatch (fst np) 0 (\<lambda>i. ok_env 2) [ex_rec] (snd np, obs0, ex_queue) = ((p1, ob1, ex_queue\<lparr>topicLog := [m]\<rparr>), None)"
    by (rule ex_published)
  obtain ob' s' resp where h: "?req = Some ((NewHandler, ob', s', p1, ex_queue\<lparr>topicLog := [m]\<rparr>), resp)" "status resp = 202"
    using d po e by (simp add: handleLogs_def queue_pipeline_def ProcessBatch_def NewIngestionService_def producer_ops_def)
  have kw: "\<forall>i::nat. kw_ok (at_env (ok_env 2))" by (simp add: kw_ok_def ok_env_def)
  let ?msg = "\<lparr>Record = ex_rec, Partition = 0, Offset = 0, HasCommit = True\<rparr> :: ConsumedMessage" and ?x = "(ex_cons, [FetchMsg 0 0 m])"
  have u: "unmarshal_record m = Some ex_rec" using unmarshal_marshal[OF m] v by (simp add: ex_rec_def wf_time_def)
  have r: "list_all reader_ok [?x]" by (simp add: reader_ok_def delay_ok_def backoff_defs is_i32_def)
  have del: "delivered top_rng [?x] = [?msg]" using u by (simp add: delivered_def on_message_def Let_def split: prod.splits)
  have tm: "time_ok (Record ?msg)" by (simp add: ex_rec_def wf_time_def)
  have "snd (SaveBatch ex_env [ex_rec] ex_files) = None" by code_simp
  then obtain st' where sv: "SaveBatch (pe_save fine_env False) [Record ?msg] ex_files = (st', None)" by (simp add: fine_env_def) (metis prod.collapse)
  have fe: "file_env (pe_save fine_env False)" using file_env_ex(1) by (simp add: fine_env_def)
  obtain S where S: "cm_reach SaveBatch file_env time_ok (fst (newConsumerWriter one_writer)) (cm_init (newConsumerWriter one_writer) ex_files) S"
      "at_rest S" "cm_received S = {#?msg#}"
    by (rule one_message_run[where save = SaveBatch and env = fine_env and ok = file_env and rok = time_ok, OF sv fe tm])
  have "stored_files ex_files + mset (map valid_record [ex_rec]) \<subseteq># stored_files (cm_store S)"
    by (rule accepted_request_reaches_files[OF h _ _ kw d r ex_kafka_facts(1) _ S(1) _ S(2)])
      (use del S(3) in \<open>simp_all add: NewIngestionService_def\<close>)
  then show ?thesis using S(2) v by auto
qed

section \<open>The deployed program\<close>

text \<open>(C4) From the configuration file to the analytics: in an application built for direct mode on the file backend, when the endpoint
  answers 202 and the application's own aggregator then runs over the logs directory, the summary of every hour of the request that
  was missing or out of date counts the records the hour already had and those of the request, provided the files ended with whole
  lines, every line is within the scanner's limit and no call of the operating system fails during the aggregation; and with API
  keys switched on the request carried one of the configured keys. The aggregator's ticker has a positive interval.\<close>

theorem deployed_request_is_counted:
  assumes app: "NewAppWithBuildInfo ff unmarshal readFile path bi = Inr a" "BuildApp env a ob0 = (ob1, cl, Inr r)" "app_Version (cfg a) \<noteq> 2"
      "rn_store r = FileStore repo" "rn_agg r = FileAgg g"
    and request: "handleLogs (Some (direct_pipeline (SaveBatch senv) now)) now req (rn_handler r, ob, rn_ingestion r, repo, fs) = Some ((h', ob', s', repo', fs'), resp)"
      "status resp = 202" "decodeRecords req = Inr rs" "reorders (se_ord senv)" "logs_clean (repo, fs)"
    and aggregation: "AggregateAll g aenv ws (st\<lparr>as_fs := fs'\<rparr>) = (st1, None)" "os_ok (ae_os aenv)" "\<forall>i. ae_ctx aenv i = None"
      "\<forall>w \<in> set ws. entry_ok g w" "distinct ws" "WFile (hour_path (app_LogsDir (cfg a)) hr) \<in> set ws"
    and hour: "hour_ok hr" "batch_hour rs hr \<noteq> []" "list_all fits rs" "short_lines (fs_content fs (hour_path (app_LogsDir (cfg a)) hr))"
      "\<forall>f. fs_file fs' (hour_path (app_LogsDir (cfg a)) hr) = Some f \<longrightarrow> \<not> up_to_date fs' (summaryPath g hr) f"
  shows "fs_content (as_fs st1) (summaryPath g hr) =
      summary_of hr (hour_records (fs_content fs (hour_path (app_LogsDir (cfg a)) hr)) @ batch_hour rs hr)
    \<and> 0 < interval g
    \<and> (if Enabled (app_Auth (cfg a)) then TrimSpace (header_get (key_header (HeaderName (app_Auth (cfg a))) NewHandler) req)
         \<in> TrimSpace ` set (Keys (app_Auth (cfg a))) - {[]} else True)"
proof -
  let ?p = "hour_path (app_LogsDir (cfg a)) hr"
  obtain store checks where b: "open_store env (cfg a) = Inr (FileStore repo, checks)" "rn_agg r = start_aggregation (cfg a) (FileStore repo)"
      "rn_ingestion r = NewIngestionService ModeDirect (SyncOnIngest (app_Ingestion (cfg a)))"
      "rn_handler r = WithAPIKeyAuth (Enabled (app_Auth (cfg a))) (HeaderName (app_Auth (cfg a))) (Keys (app_Auth (cfg a)))
         (WithRequestTimeout (app_RequestTimeout (cfg a)) NewHandler)"
    by (rule BuildApp_ok[OF app(2)]) (use app(3,4) in auto)
  have i: "0 < app_AggregationInterval (cfg a)" using app(1) by (auto simp: NewAppWithBuildInfo_def split: if_splits sum.splits)
  have dirs: "baseDir repo = app_LogsDir (cfg a)" "logsDir g = app_LogsDir (cfg a)" "interval g = app_AggregationInterval (cfg a)"
    using open_store_ok[OF b(1)] b(2) app(5) by (simp_all add: start_aggregation_def NewAggregationService_def)
  have m: "mode (rn_ingestion r) = ModeDirect" by (simp add: b(3) NewIngestionService_def)
  obtain rs' where rs: "decodeRecords req = Inr rs'" "list_all normalized rs'" "authorizeLogsRequest (rn_handler r) req"
      "SaveBatch senv rs' (repo, fs) = ((repo', fs'), None)"
    using direct_accepted[OF request(1,2) m] by blast
  have sv: "SaveBatch senv rs (repo, fs) = ((repo', fs'), None)" and n: "list_all (\<lambda>r. wf_time (Timestamp r)) rs"
    using rs request(3) by (auto simp: list_all_iff normalized_def)
  have "ends_line (fs_content fs ?p)" using request(5) is_log_hour_path by (simp add: logs_clean_iff)
  then obtain f where f: "fs_file fs' ?p = Some f" "short_lines (fcontent f)" "hour_records (fcontent f) = hour_records (fs_content fs ?p) @ batch_hour rs hr"
    using file_hour[OF sv request(4) n hour(3,1,2), of "fs_content fs ?p"] hour(4) dirs(1) by auto
  have h: "json_time hr" "TruncateHour hr = hr" using hour(1) by (simp_all add: hour_ok_def)
  have "fs_content (as_fs st1) (summaryPath g hr) = summary_of hr (hour_records (fcontent f))"
    using AggregateAll_hour[OF aggregation(2-5), of hr "st\<lparr>as_fs := fs'\<rparr>" f st1] aggregation(1,6) h f hour(5) dirs(2) by (simp add: fs_content_def)
  moreover have "key_header hd (WithRequestTimeout t NewHandler) = key_header hd NewHandler" for hd t
    by (simp add: key_header_def WithRequestTimeout_def)
  ultimately show ?thesis using f(3) rs(3) i dirs(3) by (auto simp: b(4) authorize_configured Let_def)
qed

definition ex_direct :: "App result" where
  "ex_direct = NewAppWithBuildInfo (\<lambda>_ _ _. 0) (\<lambda>_. Inr zero_config) (\<lambda>_. Inr []) ''config.yaml'' \<lparr>bi_Version = [], bi_Commit = [], bi_BuildDate = []\<rparr>"

definition ex_time_rec :: LogRecord where
  "ex_time_rec = \<lparr>Timestamp = \<lparr>t_sec = 63871286400, t_nsec = 0, t_off = 0\<rparr>, Path = ''/a'', UserAgent = ''x''\<rparr>"

lemma ex_direct_builds:
  obtains a ob cl r where "ex_direct = Inr a" "BuildApp ex_build a obs0 = (ob, cl, Inr r)" "app_Version (cfg a) \<noteq> 2" "app_LogsDir (cfg a) = ''logs''"
    "rn_store r = FileStore (NewFileRepo ''logs'')" "rn_agg r = FileAgg (NewAggregationService ''logs'' ''analytics'' 60000000000)"
    "mode (rn_ingestion r) = ModeDirect" "authorizeLogsRequest (rn_handler r) ex_req"
proof -
  have f: "case ex_direct of Inl e \<Rightarrow> False | Inr a \<Rightarrow> app_Version (cfg a) \<noteq> 2 \<and> app_LogsDir (cfg a) = ''logs'' \<and>
     (case BuildApp ex_build a obs0 of (ob, cl, Inl e) \<Rightarrow> False
      | (ob, cl, Inr r) \<Rightarrow> rn_store r = FileStore (NewFileRepo ''logs'') \<and> rn_agg r = FileAgg (NewAggregationService ''logs'' ''analytics'' 60000000000)
          \<and> mode (rn_ingestion r) = ModeDirect \<and> authorizeLogsRequest (rn_handler r) ex_req)" by code_simp
  then have "\<not> isl ex_direct" by (simp add: sum.case_eq_if split: if_splits)
  then have a: "ex_direct = Inr (projr ex_direct)" by simp
  obtain ob cl res where b: "BuildApp ex_build (projr ex_direct) obs0 = (ob, cl, res)" by (rule prod_cases3)
  then have r: "\<not> isl res" using f by (auto simp: sum.case_eq_if split: if_splits)
  then have "BuildApp ex_build (projr ex_direct) obs0 = (ob, cl, Inr (projr res))" using b by simp
  then show ?thesis using that[OF a, of ob cl "projr res"] f b r by (auto simp: sum.case_eq_if split: if_splits)
qed

lemma deployed_request_is_counted_witness:
  "\<exists>a r ob cl h' ob' s' repo' fs' resp st1. ex_direct = Inr a \<and> BuildApp ex_build a obs0 = (ob, cl, Inr r)
    \<and> handleLogs (Some (direct_pipeline (SaveBatch ex_env) 0)) 0 ex_req (rn_handler r, obs0, rn_ingestion r, NewFileRepo ''logs'', ex_fs) = Some ((h', ob', s', repo', fs'), resp)
    \<and> AggregateAll (NewAggregationService ''logs'' ''analytics'' 60000000000) ex_agg [WFile (hour_path ''logs'' (Timestamp ex_time_rec))]
        \<lparr>as_fs = fs', as_poll = 0, as_obs = obs0\<rparr> = (st1, None)
    \<and> fs_content (as_fs st1) (summaryPath (NewAggregationService ''logs'' ''analytics'' 60000000000) (Timestamp ex_time_rec)) =
        summary_of (Timestamp ex_time_rec) [ex_time_rec]"
proof -
  let ?g = "NewAggregationService ''logs'' ''analytics'' 60000000000" and ?hr = "Timestamp ex_time_rec"
  let ?sv = "SaveBatch ex_env [ex_time_rec] (NewFileRepo ''logs'', ex_fs)" and ?ws = "[WFile (hour_path ''logs'' ?hr)]"
  obtain a ob cl r where a: "ex_direct = Inr a" "BuildApp ex_build a obs0 = (ob, cl, Inr r)" "app_Version (cfg a) \<noteq> 2" "app_LogsDir (cfg a) = ''logs''"
    "rn_store r = FileStore (NewFileRepo ''logs'')" "rn_agg r = FileAgg ?g" "mode (rn_ingestion r) = ModeDirect" "authorizeLogsRequest (rn_handler r) ex_req"
    by (rule ex_direct_builds)
  have n: "snd ?sv = None" by code_simp
  have ns: "fs_file (snd (fst ?sv)) (summaryPath ?g ?hr) = None" by code_simp
  obtain repo' fs' where sv: "?sv = ((repo', fs'), None)" using n by (metis prod.collapse)
  have d: "decodeRecords ex_req = Inr [ex_time_rec]" using ex_req_decoded by (simp add: ex_time_rec_def)
  have po: "req_method ex_req = ''POST''" by (simp add: ex_req_def)
  obtain h' ob' s' resp where h: "handleLogs (Some (direct_pipeline (SaveBatch ex_env) 0)) 0 ex_req (rn_handler r, obs0, rn_ingestion r, NewFileRepo ''logs'', ex_fs)
      = Some ((h', ob', s', repo', fs'), resp)" "status resp = 202"
    using d po a(7,8) sv by (simp add: handleLogs_def direct_pipeline_def ProcessBatch_def)
  obtain st1 where ag: "AggregateAll ?g ex_agg ?ws (\<lparr>as_fs = ex_fs, as_poll = 0, as_obs = obs0\<rparr>\<lparr>as_fs := fs'\<rparr>) = (st1, None)"
    using AggregateAll_total[OF ex_agg_facts(2)] by blast
  have hk: "hour_ok ?hr" by code_simp
  have bh: "batch_hour [ex_time_rec] ?hr = [ex_time_rec]" by code_simp
  have ft: "list_all fits [ex_time_rec]" by code_simp
  have e: "\<forall>w \<in> set ?ws. entry_ok ?g w" using hk by (auto simp: entry_ok_def NewAggregationService_def hour_ok_def)
  have c0: "fs_content ex_fs p = []" for p by (simp add: ex_fs_def fs_content_def fs_file_def)
  have ne: "batch_hour [ex_time_rec] ?hr \<noteq> []" "short_lines (fs_content ex_fs (hour_path (app_LogsDir (cfg a)) ?hr))"
      "WFile (hour_path (app_LogsDir (cfg a)) ?hr) \<in> set ?ws" "reorders (se_ord ex_env)" "logs_clean (NewFileRepo ''logs'', ex_fs)"
    using bh a(4) by (simp_all add: c0 short_lines_def raw_lines_Nil logs_clean_iff)
  have u: "\<forall>f. fs_file fs' (hour_path (app_LogsDir (cfg a)) ?hr) = Some f \<longrightarrow> \<not> up_to_date fs' (summaryPath ?g ?hr) f"
    using ns sv by (simp add: up_to_date_def)
  have "fs_content (as_fs st1) (summaryPath ?g ?hr) = summary_of ?hr (hour_records (fs_content ex_fs (hour_path (app_LogsDir (cfg a)) ?hr)) @ batch_hour [ex_time_rec] ?hr)"
    using deployed_request_is_counted[OF a(1)[unfolded ex_direct_def] a(2,3,5,6) h d ne(4,5) ag ex_agg_facts(1,2) e _ ne(3) hk ne(1) ft ne(2) u] by simp
  then have "fs_content (as_fs st1) (summaryPath ?g ?hr) = summary_of ?hr [ex_time_rec]"
    using bh by (simp add: c0 hour_records_def raw_lines_Nil)
  moreover have "AggregateAll ?g ex_agg ?ws \<lparr>as_fs = fs', as_poll = 0, as_obs = obs0\<rparr> = (st1, None)" using ag by (simp del: AggregateAll.simps)
  ultimately show ?thesis using a(1,2) h(1) by (intro exI conjI)
qed

lemma save_shards_marshal:
  "save_shards env k gs st = (st', None) \<Longrightarrow> x \<in> set (concat (map snd gs)) \<Longrightarrow> marshal_record x \<noteq> None"
proof (induction gs arbitrary: k st)
  case (Cons a gs)
  obtain hp g r b where e: "a = (hp, g)" "st = (r, b)" by (cases a, cases st)
  obtain p k' r1 key b1 where s: "marshalNDJSON (se_poll env) (Suc k) g = Inr (p, k')" "save_shards env k' gs (r1, b1) = (st', None)"
    using Cons.prems(1) by (auto simp: e split: option.splits sum.splits prod.splits)
  show ?case using Cons.IH[OF s(2)] Cons.prems(2) marshalNDJSON_lines[OF s(1)] by (auto simp: e(1))
qed simp

lemma minio_SaveBatch_marshal:
  assumes "minio_SaveBatch env rs st = (st', None)"
  shows "\<forall>r \<in> set rs. marshal_record (utc_record r) \<noteq> None"
proof
  fix r assume r: "r \<in> set rs"
  then have "rs \<noteq> []" by auto
  then obtain g where g: "m_group (se_poll env) 0 (mr_logsPrefix (fst st)) rs [] = Inr g" "save_shards env (length rs) (sort_keys g) st = (st', None)"
    using assms by (auto simp: minio_SaveBatch_def split: sum.splits)
  have ge: "g = grp_all (\<lambda>r. hour_prefix (mr_logsPrefix (fst st)) (Timestamp r)) (map utc_record rs) []" by (rule m_group_Inr[OF g(1)])
  have "mset (concat (map snd (sort_keys g))) = mset (map utc_record rs)"
    using mset_concat_eq[OF reordersD(1)[OF sort_keys_reorders], of snd g] ge by (simp add: mset_concat_grp_all)
  then have "utc_record r \<in> set (concat (map snd (sort_keys g)))" using r by (metis image_eqI set_map set_mset_mset)
  then show "marshal_record (utc_record r) \<noteq> None" by (rule save_shards_marshal[OF g(2)])
qed

lemma decoded_unencodable:
  assumes "decodeRecords r = Inr rs" "x \<in> set rs" "marshal_record x = None"
  shows "rs \<noteq> []" "marshal_record (utc_record x) = None" "EnqueueBatch kenv rs q = (q, Some marshal_err)"
proof -
  have "normalized x" using decodeRecords_normalized[OF assms(1)] assms(2) by (auto simp: list_all_iff)
  then have "utc_record x = x" by (cases x) (simp add: utc_record_def normalized_def UTC_id)
  then show "marshal_record (utc_record x) = None" using assms(3) by simp
  show "rs \<noteq> []" using assms(2) by auto
  have "all_some (map marshal_record rs) = None" using assms(2,3) by (auto simp: all_some_None_iff intro: rev_image_eqI)
  then show "EnqueueBatch kenv rs q = (q, Some marshal_err)" using assms(2) by (auto simp: EnqueueBatch_def)
qed

text \<open>(C29) The endpoint accepts records that cannot be written. Let one decoded record have a timestamp whose UTC form has no JSON encoding
  (its zone carries it past the end of the year 9999). Validation lets it pass, and in asynchronous queue mode, with a running producer whose channel has
  room, the endpoint answers 202; but no call of the file repository or of the MinIO repository with that batch ever succeeds, and no attempt to
  publish it does: the topic stays as it is, whatever operating system, object store and broker answer.\<close>

theorem accepted_but_unencodable:
  assumes "decodeRecords r = Inr rs" "x \<in> set rs" "marshal_record x = None"
    and handler: "req_method r = ''POST''" "authorizeLogsRequest h r" "mode s = ModeQueue" "\<not> syncOnIngest s" "\<not> ing_closed s"
    and producer: "started p" "\<not> closed p" "\<not> chanClosed p" "circuitOpenUntilNs p = 0" "int (length (workCh p)) < chanCap c"
  shows "(\<exists>st' resp. handleLogs (Some (queue_pipeline fl c now None envs)) now r (h, ob, s, p, q) = Some (st', resp) \<and> status resp = 202)
    \<and> (\<forall>env st. reorders (se_ord env) \<longrightarrow> snd (SaveBatch env rs st) \<noteq> None)
    \<and> (\<forall>env st. snd (minio_SaveBatch env rs st) \<noteq> None)
    \<and> (\<forall>kenv t. EnqueueBatch kenv rs t = (t, Some marshal_err))"
proof (intro conjI allI impI)
  note u = decoded_unencodable[OF assms(1-3)]
  have o: "isCircuitOpen now p = (p, False)" using producer(4) by (simp add: isCircuitOpen_def del: isCircuitOpen_frame)
  have g: "enqueue_guards now None p = (Inr (), p)" using producer(1,2) by (simp add: enqueue_guards_def o del: isCircuitOpen_frame)
  obtain p1 ob1 where "send_batch fl c rs (p, ob) = Some ((p1, ob1), None)" using producer(3,5) unfolding send_batch_def Let_def by (simp del: isCircuitOpen_frame)
  then have e: "Enqueue fl c now None rs (p, ob) = Some ((p1, ob1), None)" using g u(1) by (simp add: Enqueue_def del: isCircuitOpen_frame)
  show "\<exists>st' resp. handleLogs (Some (queue_pipeline fl c now None envs)) now r (h, ob, s, p, q) = Some (st', resp) \<and> status resp = 202"
    using assms(1) u(1) handler e by (simp add: handleLogs_def queue_pipeline_def ProcessBatch_def producer_ops_def del: isCircuitOpen_frame)
  show "snd (SaveBatch env rs st) \<noteq> None" if "reorders (se_ord env)" for env st
  proof
    assume "snd (SaveBatch env rs st) = None"
    then have "SaveBatch env rs st = (fst (SaveBatch env rs st), None)" by (simp add: prod_eq_iff)
    from SaveBatch_marshal[OF this that] show False using assms(2) u(2) by blast
  qed
  show "snd (minio_SaveBatch env rs st) \<noteq> None" for env st
  proof
    assume "snd (minio_SaveBatch env rs st) = None"
    then have "minio_SaveBatch env rs st = (fst (minio_SaveBatch env rs st), None)" by (simp add: prod_eq_iff)
    from minio_SaveBatch_marshal[OF this] show False using assms(2) u(2) by blast
  qed
  show "EnqueueBatch kenv rs t = (t, Some marshal_err)" for kenv t by (rule u(3))
qed

lemma accepted_but_unencodable_witness:
  "\<exists>rs st' resp. decodeRecords (ex_req\<lparr>req_body := ''9999-12-31T23:59:59-01:00,/a,x''\<rparr>) = Inr rs
     \<and> handleLogs (Some (queue_pipeline (\<lambda>x. x) (fst np) 0 None (\<lambda>i. ok_env 2))) 0 (ex_req\<lparr>req_body := ''9999-12-31T23:59:59-01:00,/a,x''\<rparr>)
         (NewHandler, obs0, NewIngestionService ModeQueue False, StartAsync (snd np), ex_queue) = Some (st', resp)
     \<and> status resp = 202 \<and> snd (SaveBatch ex_env rs ex_files) \<noteq> None"
proof -
  let ?r = "ex_req\<lparr>req_body := ''9999-12-31T23:59:59-01:00,/a,x''\<rparr>"
  let ?x = "\<lparr>Timestamp = \<lparr>t_sec = 315537901199, t_nsec = 0, t_off = 0\<rparr>, Path = ''/a'', UserAgent = ''x''\<rparr> :: LogRecord"
  have d: "decodeRecords ?r = Inr [?x]" by code_simp
  have m: "marshal_record ?x = None" by code_simp
  have "req_method ?r = ''POST''" "authorizeLogsRequest NewHandler ?r"
    by (simp_all add: ex_req_def authorizeLogsRequest_def NewHandler_def)
  then show ?thesis
    using accepted_but_unencodable[OF d _ m, of NewHandler "NewIngestionService ModeQueue False" "StartAsync (snd np)" "fst np" "\<lambda>x. x" 0 "\<lambda>i. ok_env 2" obs0 ex_queue] d
    by (auto simp: NewIngestionService_def StartAsync_def np_def NewProducerService_def default_cfg_def)
qed

end
